(* ===== verification/Prelude.thy ===== *)
theory Prelude
  imports Main "HOL-Library.Word"
begin

text \<open>
  Shared material of the development: the byte type, windows of a mutable buffer
  (\<open>window\<close> reads one, \<open>blit\<close> overwrites one), big-endian numbers, and the lemmas
  about lists and 8-bit words that several components use.
\<close>

unbundle bit_operations_syntax

type_synonym byte = "8 word"

named_theorems buffer_simps \<open>equations of window and blit\<close>

section \<open>Bytes\<close>

lemma unat_byte_less: "unat (b :: byte) < 256"
  using unsigned_less [of b, where ?'a = nat] by simp

text \<open>The bit tests of the code on a byte are range tests on its value.\<close>

lemma nat_and_shifted_mask: "(x :: nat) AND (2 ^ k * (2 ^ j - 1)) = 2 ^ k * (x div 2 ^ k mod 2 ^ j)"
proof -
  have "x AND push_bit k (mask j) = push_bit k (take_bit j (drop_bit k x))"
    by (rule bit_eqI) (auto simp: bit_simps)
  then show ?thesis
    by (simp add: push_bit_eq_mult drop_bit_eq_div take_bit_eq_mod mask_eq_exp_minus_1 mult.commute)
qed
lemma unat_and_shifted_mask:
  "unat (b AND c) = 2 ^ k * (unat b div 2 ^ k mod 2 ^ j)" if "unat c = 2 ^ k * (2 ^ j - 1)" for b c :: byte
  using that nat_and_shifted_mask[of "unat b" k j] by (simp add: unsigned_and_eq)

lemma div_bounds: "0 < k \<Longrightarrow> x div k = (q :: nat) \<longleftrightarrow> q * k \<le> x \<and> x < (q + 1) * k"
proof -
  assume k: "0 < k"
  have "x div k = q \<longleftrightarrow> q \<le> x div k \<and> x div k < q + 1" by arith
  with k show ?thesis by (simp only: less_eq_div_iff_mult_less_eq div_less_iff_less_mult)
qed
lemma unat_and_high_bits:
  "unat c = 2 ^ k * (2 ^ j - 1) \<Longrightarrow> k + j = 8 \<Longrightarrow> unat (b AND c) = 2 ^ k * (unat b div 2 ^ k)" for b c :: byte
proof -
  assume c: "unat c = 2 ^ k * (2 ^ j - 1)" and kj: "k + j = 8"
  have "unat b div 2 ^ k < 2 ^ j"
    using unat_byte_less [of b] kj by (simp add: div_less_iff_less_mult flip: power_add) (simp add: add.commute)
  with c show ?thesis by (simp add: unat_and_shifted_mask)
qed
lemma byte_ranges:
  "b AND 0x80 = 0 \<longleftrightarrow> unat (b :: byte) < 0x80"
  "b AND 0xc0 = 0x80 \<longleftrightarrow> 0x80 \<le> unat b \<and> unat b < 0xc0"
  "b AND 0xfe = 0xc0 \<longleftrightarrow> unat b = 0xc0 \<or> unat b = 0xc1"
  "b AND 0xf0 = 0xe0 \<longleftrightarrow> 0xe0 \<le> unat b \<and> unat b < 0xf0"
  "b AND 0xe0 = 0x80 \<longleftrightarrow> 0x80 \<le> unat b \<and> unat b < 0xa0"
  "b AND 0xe0 = 0xa0 \<longleftrightarrow> 0xa0 \<le> unat b \<and> unat b < 0xc0"
  "b AND 0xf8 = 0xf0 \<longleftrightarrow> 0xf0 \<le> unat b \<and> unat b < 0xf8"
  "b AND 0xf0 = 0x80 \<longleftrightarrow> 0x80 \<le> unat b \<and> unat b < 0x90"
  by (auto simp: word_unat_eq_iff unat_and_high_bits [of "0x80" 7 1] unat_and_high_bits [of "0xc0" 6 2]
     unat_and_high_bits [of "0xfe" 1 7] unat_and_high_bits [of "0xf0" 4 4] unat_and_high_bits [of "0xe0" 5 3]
     unat_and_high_bits [of "0xf8" 3 5] div_bounds)
lemma byte_range_60: "b AND 0x60 = 0x40 \<longleftrightarrow> 0xc0 \<le> unat b \<and> unat b < 0xe0 \<or> 0x40 \<le> unat b \<and> unat (b :: byte)< 0x60"
proof -
  have q: "q mod 4 = 2 \<longleftrightarrow> q = 2 \<or> q = 6" if "q < 8" for q :: nat using that by presburger
  have "unat b div 32 < 8" using unat_byte_less [of b] by simp
  from q [OF this] show ?thesis
   by (auto simp: word_unat_eq_iff unat_and_shifted_mask[of "0x60" 5 2] div_bounds)
qed

lemma less_4_cases:
  fixes r :: nat
  assumes "r < 4"
  obtains "r = 0" | "r = 1" | "r = 2" | "r = 3"
  using assms by arith

section \<open>Windows of a buffer\<close>

definition window :: "'a list \<Rightarrow> nat \<Rightarrow> nat \<Rightarrow> 'a list" where
  "window mem start n = take n (drop start mem)"

definition blit :: "'a list \<Rightarrow> nat \<Rightarrow> 'a list \<Rightarrow> 'a list" where
  "blit mem start bs = take start mem @ bs @ drop (start + length bs) mem"

lemma length_window [buffer_simps, simp]:
  "start + n \<le> length mem \<Longrightarrow> length (window mem start n) = n"
  by (simp add: window_def)

lemma length_blit [buffer_simps, simp]:
  "start + length bs \<le> length mem \<Longrightarrow> length (blit mem start bs) = length mem"
  by (simp add: blit_def)

lemma window_0 [simp]: "window mem start 0 = []"
  by (simp add: window_def)

lemma blit_Nil [simp]: "blit mem start [] = mem"
  by (simp add: blit_def)

lemma nth_window [buffer_simps]:
  "start + n \<le> length mem \<Longrightarrow> i < n \<Longrightarrow> window mem start n ! i = mem ! (start + i)"
  by (simp add: window_def)

lemma nth_blit [buffer_simps]:
  "start + length bs \<le> length mem \<Longrightarrow>
   i < length mem \<Longrightarrow>
   blit mem start bs ! i =
     (if start \<le> i \<and> i < start + length bs then bs ! (i - start) else mem ! i)"
  by (auto simp: blit_def nth_append min_def intro!: arg_cong [where f = "(!) mem"])

lemma window_append: "window mem start (m + n) = window mem start m @ window mem (start + m) n"
  by (simp add: window_def take_add add.commute)

lemma blit_append:
  "start + length xs + length ys \<le> length mem \<Longrightarrow>
   blit (blit mem start xs) (start + length xs) ys = blit mem start (xs @ ys)"
  by (rule nth_equalityI) (auto simp: nth_blit nth_append)

lemma window_blit_disjoint:
  "start + length bs \<le> length mem \<Longrightarrow> start + length bs \<le> i \<or> i + n \<le> start \<Longrightarrow>
   i + n \<le> length mem \<Longrightarrow> window (blit mem start bs) i n = window mem i n"
  by (rule nth_equalityI) (auto simp: nth_window nth_blit)

lemma window_blit_same:
  "start + length bs \<le> length mem \<Longrightarrow> window (blit mem start bs) start (length bs) = bs"
  by (rule nth_equalityI) (auto simp: nth_window nth_blit)

lemma list_update_blit: "i < length mem \<Longrightarrow> mem[i := v] = blit mem i [v]"
  by (rule nth_equalityI) (auto simp: nth_blit nth_list_update)

lemma window_Suc: "start < length mem \<Longrightarrow> window mem start (Suc n) = mem ! start # window mem (Suc start) n"
  by (simp add: window_def Cons_nth_drop_Suc [symmetric])

end
