(* ===== verification/Masking.thy ===== *)
theory Masking
  imports Prelude
begin

text \<open>
  Payload masking of \<open>WebSocketProtocol.h\<close>: the scalar loops, the AVX2 and the NEON
  loop, the dispatch between them, and \<open>rotateMask\<close>. All of them write into the
  receive buffer they read from, so the model passes that buffer (\<open>mem\<close>) and offsets.
  The locale \<open>unmasker\<close> is the contract the frame parser relies on; every variant of
  the code interprets it.
\<close>

section \<open>The reference: XOR with the repeated mask\<close>

primrec xor_from :: "nat \<Rightarrow> byte list \<Rightarrow> byte list \<Rightarrow> byte list" where
  "xor_from k m [] = []"
| "xor_from k m (b # bs) = (b XOR m ! (k mod 4)) # xor_from (Suc k) m bs"

lemma length_xor_from [simp]: "length (xor_from k m bs) = length bs"
  by (induction bs arbitrary: k) auto

lemma xor_from_append:
  "xor_from k m (xs @ ys) = xor_from k m xs @ xor_from (k + length xs) m ys"
  by (induction xs arbitrary: k) auto

lemma nth_xor_from: "i < length bs \<Longrightarrow> xor_from k m bs ! i = bs ! i XOR m ! ((k + i) mod 4)"
proof (induction bs arbitrary: k i)
  case (Cons b bs)
  then show ?case by (cases i) simp_all
qed simp

lemma xor_from_involution [simp]: "xor_from k m (xor_from k m bs) = bs"
  by (induction bs arbitrary: k) (auto simp: xor.assoc)

lemma xor_from_mod: "k mod 4 = j mod 4 \<Longrightarrow> xor_from k m bs = xor_from j m bs"
  by (rule nth_equalityI) (simp_all add: nth_xor_from mod_add_cong [of k 4 j])

section \<open>The loops of the code\<close>

definition xor_byte :: "byte list \<Rightarrow> nat \<Rightarrow> nat \<Rightarrow> byte \<Rightarrow> byte list" where
  "xor_byte mem dst src k = mem[dst := mem ! src XOR k]"

definition xor_quad :: "byte list \<Rightarrow> nat \<Rightarrow> nat \<Rightarrow> byte list \<Rightarrow> byte list" where
  "xor_quad mem dst src msk =
     (let mem = xor_byte mem dst src (msk ! 0);
          mem = xor_byte mem (dst + 1) (src + 1) (msk ! 1);
          mem = xor_byte mem (dst + 2) (src + 2) (msk ! 2)
      in xor_byte mem (dst + 3) (src + 3) (msk ! 3))"

text \<open>The remainder loop \<open>for (index = 0; index < length; index++)\<close>.\<close>

function unmaskTail :: "byte list \<Rightarrow> nat \<Rightarrow> nat \<Rightarrow> byte list \<Rightarrow> nat \<Rightarrow> nat \<Rightarrow> byte list" where
  "unmaskTail mem dst src msk index len =
     (if index < len
      then unmaskTail (xor_byte mem dst src (msk ! index)) (dst + 1) (src + 1) msk (index + 1) len
      else mem)"
  by pat_completeness auto
termination
  by (relation "measure (\<lambda>(mem, dst, src, msk, index, len). len - index)") auto

text \<open>The loop \<open>while (length >= 4)\<close> of \<open>unmaskImprecise\<close>.\<close>

fun unmaskScalar :: "byte list \<Rightarrow> nat \<Rightarrow> nat \<Rightarrow> byte list \<Rightarrow> nat \<Rightarrow> byte list" where
  "unmaskScalar mem dst src msk len =
     (if 4 \<le> len
      then unmaskScalar (xor_quad mem dst src msk) (dst + 4) (src + 4) msk (len - 4)
      else unmaskTail mem dst src msk 0 len)"

text \<open>The remainder loop of the vector variants, \<open>dst[i] = src[i] ^ mask[i & 3]\<close>.\<close>

function unmaskRest :: "byte list \<Rightarrow> nat \<Rightarrow> nat \<Rightarrow> byte list \<Rightarrow> nat \<Rightarrow> nat \<Rightarrow> byte list" where
  "unmaskRest mem dst src msk i len =
     (if i < len
      then unmaskRest (xor_byte mem (dst + i) (src + i) (msk ! (i AND 3))) dst src msk (i + 1) len
      else mem)"
  by pat_completeness auto
termination
  by (relation "measure (\<lambda>(mem, dst, src, msk, i, len). len - i)") auto

text \<open>
  \<open>_mm256_loadu_si256\<close>/\<open>_mm256_xor_si256\<close>/\<open>_mm256_storeu_si256\<close> and
  \<open>vld1q_u8\<close>/\<open>veorq_u8\<close>/\<open>vst1q_u8\<close>: the whole block is read before it is written.
\<close>

definition xor_block :: "byte list \<Rightarrow> nat \<Rightarrow> nat \<Rightarrow> byte list \<Rightarrow> byte list" where
  "xor_block mem dst src maskVector =
     blit mem dst (map2 (XOR) (window mem src (length maskVector)) maskVector)"

function unmaskAvx2From :: "byte list \<Rightarrow> nat \<Rightarrow> nat \<Rightarrow> byte list \<Rightarrow> nat \<Rightarrow> nat \<Rightarrow> byte list" where
  "unmaskAvx2From mem dst src msk i len =
     (if i + 32 \<le> len
      then unmaskAvx2From (xor_block mem (dst + i) (src + i) (concat (replicate 8 msk)))
             dst src msk (i + 32) len
      else unmaskRest mem dst src msk i len)"
  by pat_completeness auto
termination
  by (relation "measure (\<lambda>(mem, dst, src, msk, i, len). len - i)") auto

definition unmaskAvx2 :: "byte list \<Rightarrow> nat \<Rightarrow> nat \<Rightarrow> byte list \<Rightarrow> nat \<Rightarrow> byte list" where
  "unmaskAvx2 mem dst src msk len = unmaskAvx2From mem dst src msk 0 len"

function unmaskNeonFrom :: "byte list \<Rightarrow> nat \<Rightarrow> nat \<Rightarrow> byte list \<Rightarrow> nat \<Rightarrow> nat \<Rightarrow> byte list" where
  "unmaskNeonFrom mem dst src msk i len =
     (if i + 16 \<le> len
      then unmaskNeonFrom
             (xor_block mem (dst + i) (src + i)
                [msk ! 0, msk ! 1, msk ! 2, msk ! 3, msk ! 0, msk ! 1, msk ! 2, msk ! 3,
                 msk ! 0, msk ! 1, msk ! 2, msk ! 3, msk ! 0, msk ! 1, msk ! 2, msk ! 3])
             dst src msk (i + 16) len
      else unmaskRest mem dst src msk i len)"
  by pat_completeness auto
termination
  by (relation "measure (\<lambda>(mem, dst, src, msk, i, len). len - i)") auto

definition unmaskNeon :: "byte list \<Rightarrow> nat \<Rightarrow> nat \<Rightarrow> byte list \<Rightarrow> nat \<Rightarrow> byte list" where
  "unmaskNeon mem dst src msk len = unmaskNeonFrom mem dst src msk 0 len"

text \<open>
  The build and the processor choose a variant: no vector unit compiled in, an x86 build
  with the answer of \<open>hasAvx2\<close>, or an AArch64 build.
\<close>

datatype simd = NoSimd | X86 (hasAvx2: bool) | AArch64

definition AVX2_UNMASK_MIN_LENGTH :: nat where "AVX2_UNMASK_MIN_LENGTH = 64"
definition NEON_UNMASK_MIN_LENGTH :: nat where "NEON_UNMASK_MIN_LENGTH = 64"

definition unmaskImprecise ::
  "simd \<Rightarrow> byte list \<Rightarrow> nat \<Rightarrow> nat \<Rightarrow> byte list \<Rightarrow> nat \<Rightarrow> byte list" where
  "unmaskImprecise t mem dst src msk len =
     (case t of
        NoSimd \<Rightarrow> unmaskScalar mem dst src msk len
      | X86 avx2 \<Rightarrow>
          if AVX2_UNMASK_MIN_LENGTH \<le> len \<and> avx2 then unmaskAvx2 mem dst src msk len
          else unmaskScalar mem dst src msk len
      | AArch64 \<Rightarrow>
          if NEON_UNMASK_MIN_LENGTH \<le> len then unmaskNeon mem dst src msk len
          else unmaskScalar mem dst src msk len)"

text \<open>
  The mask itself lies in the buffer, just before the payload, and is overwritten by the
  unmasked bytes: it is copied first.
\<close>

definition unmaskImpreciseCopyMask ::
  "simd \<Rightarrow> byte list \<Rightarrow> nat \<Rightarrow> nat \<Rightarrow> nat \<Rightarrow> nat \<Rightarrow> byte list" where
  "unmaskImpreciseCopyMask t mem dst src maskPtr len =
     (let msk = [mem ! maskPtr, mem ! (maskPtr + 1), mem ! (maskPtr + 2), mem ! (maskPtr + 3)]
      in unmaskImprecise t mem dst src msk len)"

function unmaskInplaceTail :: "byte list \<Rightarrow> nat \<Rightarrow> nat \<Rightarrow> byte list \<Rightarrow> nat \<Rightarrow> byte list" where
  "unmaskInplaceTail mem dat stop msk index =
     (if dat < stop
      then unmaskInplaceTail (xor_byte mem dat dat (msk ! index)) (dat + 1) stop msk (index + 1)
      else mem)"
  by pat_completeness auto
termination
  by (relation "measure (\<lambda>(mem, dat, stop, msk, index). stop - dat)") auto

function unmaskInplaceScalar :: "byte list \<Rightarrow> nat \<Rightarrow> nat \<Rightarrow> byte list \<Rightarrow> byte list" where
  "unmaskInplaceScalar mem dat stop msk =
     (if 4 \<le> stop - dat
      then unmaskInplaceScalar (xor_quad mem dat dat msk) (dat + 4) stop msk
      else unmaskInplaceTail mem dat stop msk 0)"
  by pat_completeness auto
termination
  by (relation "measure (\<lambda>(mem, dat, stop, msk). stop - dat)") auto

definition unmaskInplace :: "simd \<Rightarrow> byte list \<Rightarrow> nat \<Rightarrow> nat \<Rightarrow> byte list \<Rightarrow> byte list" where
  "unmaskInplace t mem dat stop msk =
     (case t of
        NoSimd \<Rightarrow> unmaskInplaceScalar mem dat stop msk
      | X86 avx2 \<Rightarrow>
          if AVX2_UNMASK_MIN_LENGTH \<le> stop - dat \<and> avx2
          then unmaskAvx2 mem dat dat msk (stop - dat)
          else unmaskInplaceScalar mem dat stop msk
      | AArch64 \<Rightarrow>
          if NEON_UNMASK_MIN_LENGTH \<le> stop - dat
          then unmaskNeon mem dat dat msk (stop - dat)
          else unmaskInplaceScalar mem dat stop msk)"

definition rotateMask :: "nat \<Rightarrow> byte list \<Rightarrow> byte list" where
  "rotateMask offset msk =
     (let originalMask = msk
      in msk[(0 + offset) AND 3 := originalMask ! 0,
              (1 + offset) AND 3 := originalMask ! 1,
              (2 + offset) AND 3 := originalMask ! 2,
              (3 + offset) AND 3 := originalMask ! 3])"

declare unmaskTail.simps [simp del] unmaskScalar.simps [simp del] unmaskRest.simps [simp del]
  unmaskAvx2From.simps [simp del] unmaskNeonFrom.simps [simp del]
  unmaskInplaceTail.simps [simp del] unmaskInplaceScalar.simps [simp del]

section \<open>One step of each loop\<close>

lemma unmask_step:
  fixes m :: "byte list" and k :: nat
  assumes "dst \<le> src" "src + (n + r) \<le> length mem"
  defines "mem' \<equiv> blit mem dst (xor_from k m (window mem src n))"
  shows "blit mem' (dst + n) (xor_from (k + n) m (window mem' (src + n) r)) =
    blit mem dst (xor_from k m (window mem src (n + r)))"
proof -
  have "window mem' (src + n) r = window mem (src + n) r"
    unfolding mem'_def using assms(1,2) by (intro window_blit_disjoint) auto
  moreover have "blit mem' (dst + length (xor_from k m (window mem src n))) ys =
      blit mem dst (xor_from k m (window mem src n) @ ys)" if "length ys = r" for ys
    unfolding mem'_def using assms(1,2) that by (intro blit_append) auto
  ultimately show ?thesis
    using assms(1,2) by (simp add: window_append xor_from_append)
qed

lemma xor_byte_blit:
  "dst \<le> src \<Longrightarrow> src < length mem \<Longrightarrow>
   xor_byte mem dst src (m ! (k mod 4)) = blit mem dst (xor_from k m (window mem src (Suc 0)))"
  by (simp add: xor_byte_def window_Suc list_update_blit)

lemma xor_byte_extend:
  assumes "dst \<le> src" "src + Suc n \<le> length mem"
  shows "xor_byte (blit mem dst (xor_from 0 m (window mem src n))) (dst + n) (src + n) (m ! (n mod 4)) =
    blit mem dst (xor_from 0 m (window mem src (Suc n)))"
  using assms unmask_step [of dst src n "Suc 0" mem 0 m] by (simp add: xor_byte_blit)

lemma xor_quad_blit:
  assumes "dst \<le> src" "src + 4 \<le> length mem"
  shows "xor_quad mem dst src m = blit mem dst (xor_from 0 m (window mem src 4))"
proof -
  have "xor_byte (blit mem dst (xor_from 0 m (window mem src n))) (dst + n) (src + n) (m ! n) =
      blit mem dst (xor_from 0 m (window mem src (Suc n)))" if "n < 4" for n
    using assms that xor_byte_extend [of dst src n mem m] by simp
  from this [of 0] this [of 1] this [of 2] this [of 3] show ?thesis
    by (simp add: xor_quad_def eval_nat_numeral)
qed

lemma map2_xor_block:
  "length bs = length v \<Longrightarrow> (\<And>j. j < length v \<Longrightarrow> v ! j = m ! ((k + j) mod 4)) \<Longrightarrow>
   map2 (XOR) bs v = xor_from k m bs"
  by (rule nth_equalityI) (auto simp: nth_xor_from)

lemma nth_concat_replicate:
  "length m = n \<Longrightarrow> j < k * n \<Longrightarrow> concat (replicate k m) ! j = m ! (j mod n)"
proof (induction k arbitrary: j)
  case (Suc k)
  then show ?case by (cases "j < n") (auto simp: nth_append le_mod_geq not_less)
qed simp

lemma xor_block_blit:
  assumes "dst \<le> src" "src + length v \<le> length mem"
    and "\<And>j. j < length v \<Longrightarrow> v ! j = m ! ((k + j) mod 4)"
  shows "xor_block mem dst src v = blit mem dst (xor_from k m (window mem src (length v)))"
  using assms by (simp add: xor_block_def map2_xor_block)

section \<open>The loops compute the reference\<close>

text \<open>
  Each loop, started after \<open>i\<close> bytes are done, writes the rest of the masked window. The
  destination may overlap the source as long as it does not lie after it.
\<close>

lemma unmaskTail_eq:
  "dst \<le> src \<Longrightarrow> src + (len - i) \<le> length mem \<Longrightarrow> len \<le> 4 \<Longrightarrow>
   unmaskTail mem dst src m i len = blit mem dst (xor_from i m (window mem src (len - i)))"
proof (induction mem dst src m i len rule: unmaskTail.induct)
  case (1 mem dst src m i len)
  show ?case
  proof (cases "i < len")
    case True
    moreover have "xor_byte mem dst src (m ! i) = blit mem dst (xor_from i m (window mem src (Suc 0)))"
      using True "1.prems" xor_byte_blit [of dst src mem m i] by simp
    ultimately show ?thesis
      using "1.IH" "1.prems" unmask_step [of dst src "Suc 0" "len - Suc i" mem i m]
      by (subst unmaskTail.simps) (simp add: Suc_diff_Suc)
  qed (simp add: unmaskTail.simps)
qed

lemma unmaskScalar_eq:
  "dst \<le> src \<Longrightarrow> src + len \<le> length mem \<Longrightarrow>
   unmaskScalar mem dst src m len = blit mem dst (xor_from 0 m (window mem src len))"
proof (induction mem dst src m len rule: unmaskScalar.induct)
  case (1 mem dst src m len)
  show ?case
  proof (cases "4 \<le> len")
    case True
    then show ?thesis
      using "1.IH" "1.prems" unmask_step [of dst src 4 "len - 4" mem 0 m] xor_from_mod [of 4 0]
      by (subst unmaskScalar.simps) (simp add: xor_quad_blit)
  next
    case False
    then show ?thesis
      using "1.prems" by (subst unmaskScalar.simps) (simp add: unmaskTail_eq)
  qed
qed

lemma and_3_mod: "(i :: nat) AND 3 = i mod 4"
  using take_bit_eq_mask [of 2 i] by (simp add: take_bit_eq_mod mask_eq_exp_minus_1)


lemma unmaskRest_eq:
  "dst \<le> src \<Longrightarrow> i \<le> len \<Longrightarrow> src + len \<le> length mem \<Longrightarrow>
   unmaskRest mem dst src m i len = blit mem (dst + i) (xor_from i m (window mem (src + i) (len - i)))"
proof (induction mem dst src m i len rule: unmaskRest.induct)
  case (1 mem dst src m i len)
  show ?case
  proof (cases "i < len")
    case True
    moreover have "xor_byte mem (dst + i) (src + i) (m ! (i mod 4)) =
        blit mem (dst + i) (xor_from i m (window mem (src + i) (Suc 0)))"
      using True "1.prems" by (simp add: xor_byte_blit)
    ultimately show ?thesis
      using "1.IH" "1.prems" unmask_step [of "dst + i" "src + i" "Suc 0" "len - Suc i" mem i m]
      by (subst unmaskRest.simps) (simp add: and_3_mod Suc_diff_Suc)
  qed (use "1.prems" in \<open>simp add: unmaskRest.simps\<close>)
qed

lemma unmaskAvx2From_eq:
  "dst \<le> src \<Longrightarrow> i \<le> len \<Longrightarrow> src + len \<le> length mem \<Longrightarrow> length m = 4 \<Longrightarrow>
   4 dvd i \<Longrightarrow>
   unmaskAvx2From mem dst src m i len =
     blit mem (dst + i) (xor_from i m (window mem (src + i) (len - i)))"
proof (induction mem dst src m i len rule: unmaskAvx2From.induct)
  case (1 mem dst src m i len)
  show ?case
  proof (cases "i + 32 \<le> len")
    case True
    have "concat (replicate 8 m) ! j = m ! ((i + j) mod 4)" if "j < 32" for j
      using "1.prems"(4,5) that by (subst nth_concat_replicate [of m 4]) (auto simp: mod_add_left_eq dvd_def)
    then have "xor_block mem (dst + i) (src + i) (concat (replicate 8 m)) =
        blit mem (dst + i) (xor_from i m (window mem (src + i) 32))"
      using True "1.prems" xor_block_blit [of "dst + i" "src + i" "concat (replicate 8 m)" mem m i]
      by (simp add: length_concat sum_list_replicate)
    then show ?thesis
      using True "1.IH" "1.prems" unmask_step [of "dst + i" "src + i" 32 "len - (i + 32)" mem i m]
      by (subst unmaskAvx2From.simps) (simp add: add.assoc)
  qed (use "1.prems" in \<open>simp add: unmaskAvx2From.simps unmaskRest_eq\<close>)
qed

lemma neon_mask_vector:
  assumes "4 dvd i" "j < 16"
  shows "[m ! 0, m ! 1, m ! 2, m ! 3, m ! 0, m ! 1, m ! 2, m ! 3,
    m ! 0, m ! 1, m ! 2, m ! 3, m ! 0, m ! 1, m ! 2, m ! 3] ! j = m ! ((i + j) mod 4)"
proof -
  have "[m ! 0, m ! 1, m ! 2, m ! 3] ! r = m ! r" if "r < 4" for r
    using that by (elim less_4_cases) simp_all
  note r = this [OF mod_less_divisor [OF zero_less_numeral, of j]]
  have "concat (replicate 4 [m ! 0, m ! 1, m ! 2, m ! 3]) ! j = m ! (j mod 4)"
    by (rule trans [OF nth_concat_replicate r]) (use assms(2) in simp_all)
  moreover have "(i + j) mod 4 = j mod 4" using assms(1) by (auto simp: dvd_def)
  moreover have "concat (replicate 4 [m ! 0, m ! 1, m ! 2, m ! 3]) =
    [m ! 0, m ! 1, m ! 2, m ! 3, m ! 0, m ! 1, m ! 2, m ! 3,
     m ! 0, m ! 1, m ! 2, m ! 3, m ! 0, m ! 1, m ! 2, m ! 3]"
    by (simp add: eval_nat_numeral)
  ultimately show ?thesis by metis
qed

lemma unmaskNeonFrom_eq:
  "dst \<le> src \<Longrightarrow> i \<le> len \<Longrightarrow> src + len \<le> length mem \<Longrightarrow> length m = 4 \<Longrightarrow>
   4 dvd i \<Longrightarrow>
   unmaskNeonFrom mem dst src m i len =
     blit mem (dst + i) (xor_from i m (window mem (src + i) (len - i)))"
proof (induction mem dst src m i len rule: unmaskNeonFrom.induct)
  case (1 mem dst src m i len)
  show ?case
  proof (cases "i + 16 \<le> len")
    case True
    let ?v = "[m ! 0, m ! 1, m ! 2, m ! 3, m ! 0, m ! 1, m ! 2, m ! 3,
      m ! 0, m ! 1, m ! 2, m ! 3, m ! 0, m ! 1, m ! 2, m ! 3]"
    have len_v: "length ?v = 16" by simp
    have "xor_block mem (dst + i) (src + i) ?v =
        blit mem (dst + i) (xor_from i m (window mem (src + i) 16))"
      using True "1.prems" neon_mask_vector [of i _ m]
        xor_block_blit [of "dst + i" "src + i" ?v mem m i]
      by (simp only: len_v)
    then show ?thesis
      using True "1.IH" "1.prems" unmask_step [of "dst + i" "src + i" 16 "len - (i + 16)" mem i m]
      by (subst unmaskNeonFrom.simps) (simp add: add.assoc)
  qed (use "1.prems" in \<open>simp add: unmaskNeonFrom.simps unmaskRest_eq\<close>)
qed

lemma unmaskInplaceTail_eq:
  "stop \<le> length mem \<Longrightarrow> dat \<le> stop \<Longrightarrow> i + (stop - dat) \<le> 4 \<Longrightarrow>
   unmaskInplaceTail mem dat stop m i = blit mem dat (xor_from i m (window mem dat (stop - dat)))"
proof (induction mem dat stop m i rule: unmaskInplaceTail.induct)
  case (1 mem dat stop m i)
  show ?case
  proof (cases "dat < stop")
    case True
    moreover have "xor_byte mem dat dat (m ! i) = blit mem dat (xor_from i m (window mem dat (Suc 0)))"
      using True "1.prems" xor_byte_blit [of dat dat mem m i] by simp
    ultimately show ?thesis
      using "1.IH" "1.prems" unmask_step [of dat dat "Suc 0" "stop - Suc dat" mem i m]
      by (subst unmaskInplaceTail.simps) (simp add: Suc_diff_Suc)
  qed (simp add: unmaskInplaceTail.simps)
qed

lemma unmaskInplaceScalar_eq:
  "stop \<le> length mem \<Longrightarrow> dat \<le> stop \<Longrightarrow>
   unmaskInplaceScalar mem dat stop m = blit mem dat (xor_from 0 m (window mem dat (stop - dat)))"
proof (induction mem dat stop m rule: unmaskInplaceScalar.induct)
  case (1 mem dat stop m)
  show ?case
  proof (cases "4 \<le> stop - dat")
    case True
    then show ?thesis
      using "1.IH" "1.prems" unmask_step [of dat dat 4 "stop - dat - 4" mem 0 m] xor_from_mod [of 4 0]
      by (subst unmaskInplaceScalar.simps) (simp add: xor_quad_blit)
  qed (use "1.prems" in \<open>subst unmaskInplaceScalar.simps, simp add: unmaskInplaceTail_eq\<close>)
qed

section \<open>The contract of an unmasking routine\<close>

locale unmasker =
  fixes unmask :: "byte list \<Rightarrow> nat \<Rightarrow> nat \<Rightarrow> byte list \<Rightarrow> nat \<Rightarrow> byte list"
  assumes unmask_eq: "dst \<le> src \<Longrightarrow> src + len \<le> length mem \<Longrightarrow> length m = 4 \<Longrightarrow>
    unmask mem dst src m len = blit mem dst (xor_from 0 m (window mem src len))"
begin

lemma length_unmask:
  "dst \<le> src \<Longrightarrow> src + len \<le> length mem \<Longrightarrow> length m = 4 \<Longrightarrow>
   length (unmask mem dst src m len) = length mem"
  by (simp add: unmask_eq)

lemma payload:
  "dst \<le> src \<Longrightarrow> src + len \<le> length mem \<Longrightarrow> length m = 4 \<Longrightarrow>
   window (unmask mem dst src m len) dst len = xor_from 0 m (window mem src len)"
  using window_blit_same [of dst "xor_from 0 m (window mem src len)" mem] by (simp add: unmask_eq)

lemma outside:
  "dst \<le> src \<Longrightarrow> src + len \<le> length mem \<Longrightarrow> length m = 4 \<Longrightarrow>
   dst + len \<le> i \<or> i + n \<le> dst \<Longrightarrow> i + n \<le> length mem \<Longrightarrow>
   window (unmask mem dst src m len) i n = window mem i n"
  by (simp add: unmask_eq window_blit_disjoint)

lemma twice:
  "src + len \<le> length mem \<Longrightarrow> length m = 4 \<Longrightarrow>
   unmask (unmask mem src src m len) src src m len = mem"
  by (rule nth_equalityI)
    (auto simp: unmask_eq nth_blit nth_xor_from nth_window xor.assoc)

end

interpretation plain: unmasker unmaskScalar
  by unfold_locales (rule unmaskScalar_eq)

interpretation avx2: unmasker unmaskAvx2
  by unfold_locales (simp add: unmaskAvx2_def unmaskAvx2From_eq)

interpretation neon: unmasker unmaskNeon
  by unfold_locales (simp add: unmaskNeon_def unmaskNeonFrom_eq)

interpretation imprecise: unmasker "unmaskImprecise t" for t
  by unfold_locales
    (auto simp: unmaskImprecise_def plain.unmask_eq avx2.unmask_eq neon.unmask_eq split: simd.split)

interpretation inplace: unmasker
  "\<lambda>mem dst src m len. if dst = src then unmaskInplace t mem src (src + len) m
     else unmaskImprecise t mem dst src m len" for t
  by unfold_locales
    (auto simp: unmaskInplace_def unmaskInplaceScalar_eq avx2.unmask_eq neon.unmask_eq
      imprecise.unmask_eq split: simd.split)

lemma unmaskInplace_eq:
  "dat \<le> stop \<Longrightarrow> stop \<le> length mem \<Longrightarrow> length m = 4 \<Longrightarrow>
   unmaskInplace t mem dat stop m = blit mem dat (xor_from 0 m (window mem dat (stop - dat)))"
  using inplace.unmask_eq [of dat dat "stop - dat" mem m t] by simp

section \<open>Resuming in the middle of a payload\<close>

lemma length_rotateMask [simp]: "length (rotateMask offset m) = length m"
  by (simp add: rotateMask_def)

lemma nth_rotateMask_less:
  assumes "length m = 4" "j < 4" "r < 4"
  shows "rotateMask (4 - r) m ! j = m ! ((r + j) mod 4)"
proof -
  obtain a b c d where "m = [a, b, c, d]"
    using assms(1) by (auto simp: numeral_eq_Suc length_Suc_conv)
  with assms(2,3) show ?thesis
    by (elim less_4_cases) (simp_all add: rotateMask_def Let_def and_3_mod)
qed

lemma nth_rotateMask:
  "length m = 4 \<Longrightarrow> j < 4 \<Longrightarrow> rotateMask (4 - k mod 4) m ! j = m ! ((k + j) mod 4)"
  by (simp add: nth_rotateMask_less mod_add_left_eq)

lemma xor_from_rotate:
  "length m = 4 \<Longrightarrow> xor_from 0 (rotateMask (4 - k mod 4) m) bs = xor_from k m bs"
  by (rule nth_equalityI) (simp_all add: nth_xor_from nth_rotateMask mod_add_right_eq)

lemma rotateMask_id:
  assumes "length m = 4" "k mod 4 = 0"
  shows "rotateMask (4 - k mod 4) m = m"
proof (rule nth_equalityI)
  fix j assume "j < length (rotateMask (4 - k mod 4) m)"
  moreover have "(k + j) mod 4 = j mod 4"
    using assms(2) by (metis add.left_neutral mod_add_left_eq)
  ultimately show "rotateMask (4 - k mod 4) m ! j = m ! j"
    using assms(1) by (simp add: nth_rotateMask)
qed simp

lemma xor_from_resume:
  "length m = 4 \<Longrightarrow>
   xor_from 0 m (xs @ ys) = xor_from 0 m xs @ xor_from 0 (rotateMask (4 - (length xs AND 3)) m) ys"
  by (simp add: xor_from_append and_3_mod xor_from_rotate)

section \<open>Properties\<close>

text \<open>
  C29: every variant of \<open>unmaskImprecise\<close> (scalar, AVX2, NEON), also with a destination
  that overlaps the source from below, writes exactly the masked window at the destination
  and leaves the rest of the buffer as it was.
\<close>

theorem unmaskImprecise_overlap:
  assumes "dst \<le> src" "src + len \<le> length mem" "length m = 4"
  shows "unmaskImprecise t mem dst src m len = blit mem dst (xor_from 0 m (window mem src len))"
  using assms by (rule imprecise.unmask_eq)

theorem unmaskImprecise_overlap_witness:
  "unmaskImprecise (X86 True) [1, 2, 3, 4, 5, 6] 0 2 [7, 7, 7, 7] 3 = [4, 3, 2, 4, 5, 6 :: byte]"
  by (subst unmaskImprecise_overlap) (simp_all add: blit_def window_def)

text \<open>
  C30: unmasking a payload that arrives in two pieces, the second one with the mask rotated
  by \<open>rotateMask(4 - (n & 3))\<close> where \<open>n\<close> is the length of the first, gives the same bytes
  as unmasking it at once.
\<close>

theorem rotateMask_resumes:
  assumes "length m = 4"
  shows "xor_from 0 m (xs @ ys) =
    xor_from 0 m xs @ xor_from 0 (rotateMask (4 - (length xs AND 3)) m) ys"
  using assms by (rule xor_from_resume)

theorem rotateMask_resumes_witness:
  "xor_from 0 [1, 2, 3, 4] ([9, 9, 9] @ [9, 9 :: byte]) =
   xor_from 0 [1, 2, 3, 4] [9, 9, 9] @ xor_from 0 (rotateMask (4 - (length [9, 9, 9 :: byte] AND 3)) [1, 2, 3, 4]) [9, 9]"
  by (rule rotateMask_resumes) simp

end
