(* ===== verification/Utf8.thy ===== *)
theory Utf8
  imports Masking
begin

text \<open>
  UTF-8 validation of \<open>WebSocketProtocol.h\<close>: \<open>isValidUtf8\<close> with its word-wise ASCII
  test and the two vector skip routines. A pointer pair \<open>(s, e)\<close> is the list of the
  bytes between them. The reference is the encoding of Unicode scalar values of RFC 3629.
\<close>

section \<open>The code\<close>

text \<open>\<open>memcpy(&asciiWord, s, 4)\<close> on a little-endian host.\<close>

definition asciiWord :: "byte list \<Rightarrow> 32 word" where
  "asciiWord s = word_rcat (rev (take 4 s))"

text \<open>The byte loop \<open>while (s != e && !(*s & 0x80)) s++\<close>.\<close>

fun skipAsciiBytes :: "byte list \<Rightarrow> byte list" where
  "skipAsciiBytes [] = []"
| "skipAsciiBytes (b # s) = (if b AND 0x80 = 0 then skipAsciiBytes s else b # s)"

text \<open>\<open>_mm256_movemask_epi8\<close> collects the top bit of every lane; \<open>__builtin_ctz\<close>.\<close>

definition movemask :: "byte list \<Rightarrow> 32 word" where
  "movemask bs = horner_sum of_bool 2 (map (\<lambda>b. bit b 7) bs)"

definition ctz :: "32 word \<Rightarrow> nat" where
  "ctz w = length (takeWhile (\<lambda>i. \<not> bit w i) [0..<32])"

function skipAsciiAvx2 :: "byte list \<Rightarrow> byte list" where
  "skipAsciiAvx2 s =
     (if 32 \<le> length s then
        (let highBits = movemask (take 32 s)
         in if highBits \<noteq> 0 then drop (ctz highBits) s else skipAsciiAvx2 (drop 32 s))
      else skipAsciiBytes s)"
  by pat_completeness auto
termination
  by (relation "measure length") auto

definition vmaxvq_u8 :: "byte list \<Rightarrow> byte" where
  "vmaxvq_u8 bs = fold max bs 0"

function skipAsciiNeon16 :: "byte list \<Rightarrow> byte list" where
  "skipAsciiNeon16 s =
     (if 16 \<le> length s then
        (if vmaxvq_u8 (take 16 s) AND 0x80 \<noteq> 0 then skipAsciiBytes s
         else skipAsciiNeon16 (drop 16 s))
      else skipAsciiBytes s)"
  by pat_completeness auto
termination
  by (relation "measure length") auto

function skipAsciiNeon :: "byte list \<Rightarrow> byte list" where
  "skipAsciiNeon s =
     (if 64 \<le> length s then
        (let combined = map2 (OR) (map2 (OR) (window s 0 16) (window s 16 16))
                                  (map2 (OR) (window s 32 16) (window s 48 16))
         in if vmaxvq_u8 combined AND 0x80 \<noteq> 0 then skipAsciiNeon16 s
            else skipAsciiNeon (drop 64 s))
      else skipAsciiNeon16 s)"
  by pat_completeness auto
termination
  by (relation "measure length") auto

declare skipAsciiAvx2.simps [simp del] skipAsciiNeon16.simps [simp del]
  skipAsciiNeon.simps [simp del]

definition AVX2_UTF8_ASCII_MIN_LENGTH :: nat where "AVX2_UTF8_ASCII_MIN_LENGTH = 64"
definition NEON_UTF8_ASCII_MIN_LENGTH :: nat where "NEON_UTF8_ASCII_MIN_LENGTH = 64"

text \<open>
  What the loop does after four ASCII bytes; \<open>len\<close> is the length of the whole input,
  from which the code decides once whether the vector routine is used.
\<close>

definition skipAscii :: "simd \<Rightarrow> nat \<Rightarrow> byte list \<Rightarrow> byte list" where
  "skipAscii t len s =
     (case t of
        NoSimd \<Rightarrow> drop 4 s
      | X86 avx2 \<Rightarrow>
          if AVX2_UTF8_ASCII_MIN_LENGTH \<le> len \<and> avx2 then skipAsciiAvx2 s else drop 4 s
      | AArch64 \<Rightarrow>
          if NEON_UTF8_ASCII_MIN_LENGTH \<le> len then skipAsciiNeon s else drop 4 s)"

text \<open>
  The tests on a sequence whose first byte has its top bit set: \<open>None\<close> where the code
  returns false, otherwise the number of bytes it advances by.
\<close>

definition utf8Sequence :: "byte list \<Rightarrow> nat option" where
  "utf8Sequence s =
     (if s ! 0 AND 0x60 = 0x40 then
        (if length s \<le> 1 \<or> s ! 1 AND 0xc0 \<noteq> 0x80 \<or> s ! 0 AND 0xfe = 0xc0
         then None else Some 2)
      else if s ! 0 AND 0xf0 = 0xe0 then
        (if length s \<le> 2 \<or> s ! 1 AND 0xc0 \<noteq> 0x80 \<or> s ! 2 AND 0xc0 \<noteq> 0x80 \<or>
            (s ! 0 = 0xe0 \<and> s ! 1 AND 0xe0 = 0x80) \<or> (s ! 0 = 0xed \<and> s ! 1 AND 0xe0 = 0xa0)
         then None else Some 3)
      else if s ! 0 AND 0xf8 = 0xf0 then
        (if length s \<le> 3 \<or> s ! 1 AND 0xc0 \<noteq> 0x80 \<or> s ! 2 AND 0xc0 \<noteq> 0x80 \<or>
            s ! 3 AND 0xc0 \<noteq> 0x80 \<or>
            (s ! 0 = 0xf0 \<and> s ! 1 AND 0xf0 = 0x80) \<or> (s ! 0 = 0xf4 \<and> s ! 1 > 0x8f) \<or> s ! 0 > 0xf4
         then None else Some 4)
      else None)"

section \<open>The reference: RFC 3629\<close>

definition scalar :: "nat \<Rightarrow> bool" where
  "scalar c \<longleftrightarrow> c < 0xd800 \<or> 0xe000 \<le> c \<and> c \<le> 0x10ffff"

definition encodeScalar :: "nat \<Rightarrow> byte list" where
  "encodeScalar c =
     (if c < 0x80 then [of_nat c]
      else if c < 0x800 then [of_nat (0xc0 + c div 0x40), of_nat (0x80 + c mod 0x40)]
      else if c < 0x10000 then
        [of_nat (0xe0 + c div 0x1000), of_nat (0x80 + c div 0x40 mod 0x40), of_nat (0x80 + c mod 0x40)]
      else
        [of_nat (0xf0 + c div 0x40000), of_nat (0x80 + c div 0x1000 mod 0x40),
         of_nat (0x80 + c div 0x40 mod 0x40), of_nat (0x80 + c mod 0x40)])"

definition encodeUtf8 :: "nat list \<Rightarrow> byte list" where
  "encodeUtf8 cs = concat (map encodeScalar cs)"

text \<open>Base-64 digits of a scalar value.\<close>

lemma digits_64:
  fixes a d e f :: nat
  assumes "d < 64"
  shows "(64 * a + d) div 64 = a" "(64 * a + d) mod 64 = d"
  using assms by auto

lemma digits_64_64:
  fixes a d e f :: nat
  assumes "d < 64" "e < 64"
  shows "(64 * (64 * a + d) + e) div 4096 = a"
  using assms div_mult2_eq [of "64 * (64 * a + d) + e" 64 64] by simp

lemma digits_64_64_64:
  fixes a d e f :: nat
  assumes "d < 64" "e < 64" "f < 64"
  shows "(64 * (64 * (64 * a + d) + e) + f) div 262144 = a"
  using assms digits_64_64 [of e f "64 * a + d"] div_mult2_eq [of "64 * (64 * (64 * a + d) + e) + f" 4096 64]
  by simp

lemma byte_of_value: "unat (b :: byte) = n \<Longrightarrow> of_nat n = b"
  by auto

lemma lead_byte_values:
  "b = 0xe0 \<longleftrightarrow> unat (b :: byte) = 0xe0" "b = 0xed \<longleftrightarrow> unat b = 0xed"
  "b = 0xf0 \<longleftrightarrow> unat b = 0xf0" "b = 0xf4 \<longleftrightarrow> unat b = 0xf4"
  by (simp_all add: word_unat_eq_iff)

lemmas utf8Sequence_ranges = utf8Sequence_def byte_ranges byte_range_60 word_less_nat_alt

text \<open>A continuation byte carries six bits.\<close>

lemma continuation_ex: "0x80 \<le> unat b \<Longrightarrow> unat (b :: byte) < 0xc0 \<Longrightarrow> \<exists>d. unat b = 0x80 + d \<and> d < 64"
  by (intro exI [of _ "unat b - 0x80"]) auto

lemma lead_ex: "k \<le> unat b \<Longrightarrow> \<exists>a. unat (b :: byte) = k + a"
  by (intro exI [of _ "unat b - k"]) auto

lemma encodeScalar_2:
  "2 \<le> a \<Longrightarrow> a < 32 \<Longrightarrow> d < 64 \<Longrightarrow> c = 64 * a + d \<Longrightarrow>
   encodeScalar c = [of_nat (0xc0 + a), of_nat (0x80 + d)]"
  by (simp add: encodeScalar_def digits_64 del: of_nat_add)

lemma encodeScalar_3:
  "0x800 \<le> c \<Longrightarrow> c < 0x10000 \<Longrightarrow> d < 64 \<Longrightarrow> e < 64 \<Longrightarrow> c = 64 * (64 * a + d) + e \<Longrightarrow>
   encodeScalar c = [of_nat (0xe0 + a), of_nat (0x80 + d), of_nat (0x80 + e)]"
  by (simp only: encodeScalar_def digits_64 digits_64_64 if_False if_True not_less) (simp del: of_nat_add)

lemma encodeScalar_4:
  "0x10000 \<le> c \<Longrightarrow> d < 64 \<Longrightarrow> e < 64 \<Longrightarrow> f < 64 \<Longrightarrow>
   c = 64 * (64 * (64 * a + d) + e) + f \<Longrightarrow>
   encodeScalar c = [of_nat (0xf0 + a), of_nat (0x80 + d), of_nat (0x80 + e), of_nat (0x80 + f)]"
  by (simp only: encodeScalar_def digits_64 digits_64_64 digits_64_64_64 if_False not_less)
    (simp del: of_nat_add)

text \<open>The first two digits decide the ranges of three- and four-byte sequences.\<close>

lemma range_3_top:
  fixes a d :: nat
  assumes "a < 16" "a = 0 \<longrightarrow> 32 \<le> d" "a = 13 \<longrightarrow> d < 32" "d < 64"
  shows "32 \<le> 64 * a + d \<and> 64 * a + d < 1024 \<and> (64 * a + d < 864 \<or> 896 \<le> 64 * a + d)"
  using assms by (cases "a = 0"; cases "a = 13"; cases "a < 13") auto

lemma range_3:
  fixes e y :: nat
  assumes "32 \<le> y \<and> y < 1024 \<and> (y < 864 \<or> 896 \<le> y)" "e < 64"
  shows "0x800 \<le> 64 * y + e \<and> 64 * y + e < 0x10000 \<and>
    (64 * y + e < 0xd800 \<or> 0xe000 \<le> 64 * y + e)"
  using assms by auto

lemma range_4_top:
  fixes a d :: nat
  assumes "a \<le> 4" "a = 0 \<longrightarrow> 16 \<le> d" "a = 4 \<longrightarrow> d < 16" "d < 64"
  shows "16 \<le> 64 * a + d \<and> 64 * a + d < 272"
  using assms by (cases "a = 0"; cases "a = 4") auto

lemma range_4:
  fixes e f y :: nat
  assumes "16 \<le> y \<and> y < 272" "e < 64" "f < 64"
  shows "0x10000 \<le> 64 * (64 * y + e) + f \<and> 64 * (64 * y + e) + f \<le> 0x10ffff"
  using assms by simp

text \<open>A sequence the code accepts is exactly the encoding of one scalar value.\<close>

lemma utf8Sequence_2_sound:
  assumes "utf8Sequence (b0 # b1 # s) = Some 2" "\<not> unat b0 < 0x80"
  shows "\<exists>c. scalar c \<and> encodeScalar c = [b0, b1]"
proof -
  from assms have r: "0xc2 \<le> unat b0" "unat b0 < 0xe0" "0x80 \<le> unat b1" "unat b1 < 0xc0"
    by (auto simp: utf8Sequence_ranges lead_byte_values [of b0] split: if_splits)
  obtain a d where v: "unat b0 = 0xc0 + a" "unat b1 = 0x80 + d" "d < 64"
    using lead_ex [of "0xc0" b0] continuation_ex [of b1] r by auto
  let ?c = "64 * a + d"
  have "encodeScalar ?c = [b0, b1]"
    using encodeScalar_2 [of a d ?c] byte_of_value [OF v(1)] byte_of_value [OF v(2)] r v by simp
  moreover have "scalar ?c" using r v by (simp add: scalar_def)
  ultimately show ?thesis by blast
qed

lemma utf8Sequence_3_sound:
  assumes "utf8Sequence (b0 # b1 # b2 # s) = Some 3" "\<not> unat b0 < 0x80"
  shows "\<exists>c. scalar c \<and> encodeScalar c = [b0, b1, b2]"
proof -
  from assms have r: "0xe0 \<le> unat b0" "unat b0 < 0xf0" "0x80 \<le> unat b1" "unat b1 < 0xc0"
      "0x80 \<le> unat b2" "unat b2 < 0xc0" "unat b0 = 0xe0 \<longrightarrow> 0xa0 \<le> unat b1"
      "unat b0 = 0xed \<longrightarrow> unat b1 < 0xa0"
    by (auto simp: utf8Sequence_ranges lead_byte_values [of b0] split: if_splits)
  obtain a d e where v: "unat b0 = 0xe0 + a" "unat b1 = 0x80 + d" "unat b2 = 0x80 + e"
      "d < 64" "e < 64"
    using lead_ex [OF r(1)] continuation_ex [OF r(3,4)] continuation_ex [OF r(5,6)] by blast
  let ?c = "64 * (64 * a + d) + e"
  have "a < 16" "a = 0 \<longrightarrow> 32 \<le> d" "a = 13 \<longrightarrow> d < 32"
    using r by (simp_all add: v(1,2))
  from range_3 [OF range_3_top [OF this v(4)] v(5)]
  have bounds: "0x800 \<le> ?c" "?c < 0x10000" "?c < 0xd800 \<or> 0xe000 \<le> ?c" by blast+
  have "encodeScalar ?c = [b0, b1, b2]"
    using encodeScalar_3 [OF bounds(1,2) v(4,5) refl]
    by (simp only: byte_of_value [OF v(1)] byte_of_value [OF v(2)] byte_of_value [OF v(3)])
  moreover have "scalar ?c" using bounds by (auto simp: scalar_def)
  ultimately show ?thesis by blast
qed

lemma utf8Sequence_4_sound:
  assumes "utf8Sequence (b0 # b1 # b2 # b3 # s) = Some 4" "\<not> unat b0 < 0x80"
  shows "\<exists>c. scalar c \<and> encodeScalar c = [b0, b1, b2, b3]"
proof -
  from assms have r: "0xf0 \<le> unat b0" "unat b0 \<le> 0xf4" "0x80 \<le> unat b1" "unat b1 < 0xc0"
      "0x80 \<le> unat b2" "unat b2 < 0xc0" "0x80 \<le> unat b3" "unat b3 < 0xc0"
      "unat b0 = 0xf0 \<longrightarrow> 0x90 \<le> unat b1" "unat b0 = 0xf4 \<longrightarrow> unat b1 < 0x90"
    by (auto simp: utf8Sequence_ranges lead_byte_values [of b0] split: if_splits)
  obtain a d e f where v: "unat b0 = 0xf0 + a" "unat b1 = 0x80 + d" "unat b2 = 0x80 + e"
      "unat b3 = 0x80 + f" "d < 64" "e < 64" "f < 64"
    using lead_ex [OF r(1)] continuation_ex [OF r(3,4)] continuation_ex [OF r(5,6)]
      continuation_ex [OF r(7,8)] by blast
  let ?c = "64 * (64 * (64 * a + d) + e) + f"
  have "a \<le> 4" "a = 0 \<longrightarrow> 16 \<le> d" "a = 4 \<longrightarrow> d < 16"
    using r by (simp_all add: v(1,2))
  from range_4 [OF range_4_top [OF this v(5)] v(6,7)]
  have bounds: "0x10000 \<le> ?c" "?c \<le> 0x10ffff" by blast+
  have "encodeScalar ?c = [b0, b1, b2, b3]"
    using encodeScalar_4 [OF bounds(1) v(5,6,7) refl]
    by (simp only: byte_of_value [OF v(1)] byte_of_value [OF v(2)] byte_of_value [OF v(3)]
        byte_of_value [OF v(4)])
  moreover have "scalar ?c" using bounds by (auto simp: scalar_def)
  ultimately show ?thesis by blast
qed

lemma utf8Sequence_sound:
  assumes "utf8Sequence s = Some n" "s \<noteq> []" "\<not> unat (s ! 0) < 0x80"
  shows "\<exists>c. scalar c \<and> encodeScalar c = take n s"
proof -
  have "n < length s + 1" "n = 2 \<or> n = 3 \<or> n = 4"
    using assms(1) by (auto simp: utf8Sequence_def split: if_splits)
  then consider b0 b1 t where "n = 2" "s = b0 # b1 # t"
    | b0 b1 b2 t where "n = 3" "s = b0 # b1 # b2 # t"
    | b0 b1 b2 b3 t where "n = 4" "s = b0 # b1 # b2 # b3 # t"
    by (auto simp: less_Suc_eq_le numeral_eq_Suc Suc_le_length_iff)
  then show ?thesis
    using assms utf8Sequence_2_sound utf8Sequence_3_sound utf8Sequence_4_sound
    by cases fastforce+
qed

section \<open>Top bits\<close>

lemma and_eq_0_iff: "(w :: 'a::len word) AND c = 0 \<longleftrightarrow> (\<forall>n < LENGTH('a). \<not> (bit w n \<and> bit c n))"
  using bit_eq_iff [of "w AND c" 0] by (auto simp: bit_and_iff dest: bit_imp_le_length)

lemma high_bits_numeral: "n < 32 \<Longrightarrow> bit (0x80808080 :: 32 word) n \<longleftrightarrow> n \<in> {7, 15, 23, 31}"
proof -
  have "list_all (\<lambda>n. bit (0x80808080 :: 32 word) n \<longleftrightarrow> n \<in> {7, 15, 23, 31}) [0..<32]"
    by (simp add: upt_rec)
  then show "n < 32 \<Longrightarrow> ?thesis" by (simp add: list_all_iff)
qed

lemma and_80808080:
  "(w :: 32 word) AND 0x80808080 = 0 \<longleftrightarrow> \<not> bit w 7 \<and> \<not> bit w 15 \<and> \<not> bit w 23 \<and> \<not> bit w 31"
proof -
  have "w AND 0x80808080 = 0 \<longleftrightarrow> (\<forall>n < 32. \<not> (bit w n \<and> n \<in> {7, 15, 23, 31}))"
    using high_bits_numeral by (simp add: and_eq_0_iff [where 'a = 32])
  also have "\<dots> \<longleftrightarrow> (\<forall>n \<in> {7, 15, 23, 31}. \<not> bit w n)"
  proof -
    have "{7, 15, 23, 31 :: nat} \<subseteq> {..<32}" by simp
    then show ?thesis by blast
  qed
  finally show ?thesis by simp
qed

lemma bit_word_rcat_bytes: "bit (word_rcat (bs :: byte list) :: 32 word) n \<longleftrightarrow> n < 32 \<and> n div 8 < length bs \<and> bit (rev bs ! (n div 8)) (n mod 8)"
  by (auto simp: word_rcat_def bit_simps bit_horner_sum_uint_exp_iff[where 'a=8, simplified])

lemma byte_high_bit: "bit (b :: byte) 7 \<longleftrightarrow> b AND 0x80 \<noteq> 0"
  by (auto simp: and_eq_0_iff less_Suc_eq numeral_eq_Suc)

lemma asciiWord_high_bits:
  assumes "4 \<le> length s"
  shows "asciiWord s AND 0x80808080 = 0 \<longleftrightarrow> (\<forall>b \<in> set (take 4 s). b AND 0x80 = 0)"
proof -
  obtain b0 b1 b2 b3 t where "s = b0 # b1 # b2 # b3 # t"
    using assms by (auto simp: numeral_eq_Suc Suc_le_length_iff)
  then show ?thesis
    by (simp add: asciiWord_def and_80808080 bit_word_rcat_bytes byte_high_bit)
qed

lemma nth_movemask: "length bs \<le> 32 \<Longrightarrow> bit (movemask bs) i \<longleftrightarrow> i < length bs \<and> bs ! i AND 0x80 \<noteq> 0"
  by (auto simp: movemask_def bit_horner_sum_bit_word_iff byte_high_bit)

lemma ctz_le: "ctz w \<le> 32"
  using length_takeWhile_le [of _ "[0..<32]"] by (simp add: ctz_def)

lemma ctz_below:
  assumes "i < ctz w"
  shows "\<not> bit w i"
proof -
  have "i < 32" using assms ctz_le [of w] by simp
  moreover have "takeWhile (\<lambda>i. \<not> bit w i) [0..<32] ! i \<in> set (takeWhile (\<lambda>i. \<not> bit w i) [0..<32])"
    using assms by (intro nth_mem) (simp add: ctz_def)
  ultimately show ?thesis
    using assms by (auto simp: ctz_def takeWhile_nth dest: set_takeWhileD)
qed

lemma ctz_bit:
  assumes "w \<noteq> 0"
  shows "ctz w < 32" "bit w (ctz w)"
proof -
  obtain i where "bit w i" "i < 32" using assms by (auto simp: bit_eq_iff dest: bit_imp_le_length)
  show "ctz w < 32"
  proof (rule ccontr)
    assume "\<not> ctz w < 32"
    with \<open>i < 32\<close> have "i < ctz w" by simp
    from ctz_below [OF this] \<open>bit w i\<close> show False by simp
  qed
  then show "bit w (ctz w)"
    using nth_length_takeWhile [of "\<lambda>i. \<not> bit w i" "[0..<32]"] by (simp add: ctz_def)
qed



section \<open>The contract of an ASCII skip routine\<close>

abbreviation ascii :: "byte \<Rightarrow> bool" where
  "ascii b \<equiv> b AND 0x80 = 0"

locale ascii_skipper =
  fixes skip :: "byte list \<Rightarrow> byte list"
  assumes skip: "4 \<le> length s \<Longrightarrow> \<forall>b \<in> set (take 4 s). ascii b \<Longrightarrow>
    \<exists>n. 4 \<le> n \<and> n \<le> length s \<and> skip s = drop n s \<and> (\<forall>b \<in> set (take n s). ascii b)"
begin

lemma shorter:
  "4 \<le> length s \<Longrightarrow> \<forall>b \<in> set (take 4 s). ascii b \<Longrightarrow> length (skip s) < length s"
  using skip [of s] by auto

end

lemma skipAsciiBytes_eq: "skipAsciiBytes s = dropWhile ascii s"
  by (induction s) auto

lemma dropWhile_block:
  "\<forall>b \<in> set (take m s). P b \<Longrightarrow> dropWhile P s = dropWhile P (drop m s)"
  by (metis append_take_drop_id dropWhile_append2)

lemma drop_eq_dropWhile:
  assumes "\<And>i. i < n \<Longrightarrow> P (s ! i)" "n < length s" "\<not> P (s ! n)"
  shows "drop n s = dropWhile P s"
proof -
  have "takeWhile P s = take n s" by (rule takeWhile_eq_take_P_nth) (use assms in auto)
  with assms(2) show ?thesis by (simp add: dropWhile_eq_drop)
qed

lemma skipAsciiAvx2_eq: "skipAsciiAvx2 s = dropWhile ascii s"
proof (induction s rule: skipAsciiAvx2.induct)
  case (1 s)
  let ?w = "movemask (take 32 s)"
  have bits: "bit ?w i \<longleftrightarrow> \<not> ascii (s ! i)" if "32 \<le> length s" "i < 32" for i
    using nth_movemask [of "take 32 s" i] that by simp
  consider "\<not> 32 \<le> length s" | "32 \<le> length s" "?w = 0" | "32 \<le> length s" "?w \<noteq> 0" by blast
  then show ?case
  proof cases
    case 1
    then show ?thesis by (simp add: skipAsciiAvx2.simps [of s] skipAsciiBytes_eq)
  next
    case 2
    then have "ascii (s ! i)" if "i < 32" for i using bits [of i] that by simp
    with 2 have "\<forall>b \<in> set (take 32 s). ascii b" by (auto simp: in_set_conv_nth)
    with 2 "1.IH" show ?thesis by (simp add: skipAsciiAvx2.simps [of s] dropWhile_block)
  next
    case 3
    have "ascii (s ! i)" if "i < ctz ?w" for i
      using ctz_below [OF that] that ctz_bit [OF 3(2)] bits [OF 3(1), of i] by simp
    then have "drop (ctz ?w) s = dropWhile ascii s"
      using ctz_bit [OF 3(2)] 3(1) bits [OF 3(1)] by (intro drop_eq_dropWhile) auto
    with 3 show ?thesis by (simp add: skipAsciiAvx2.simps [of s])
  qed
qed

lemma fold_max_high: "fold max bs (m :: byte) AND 0x80 \<noteq> 0 \<longleftrightarrow> m AND 0x80 \<noteq> 0 \<or> (\<exists>b \<in> set bs. b AND 0x80 \<noteq> 0)"
  by (induction bs arbitrary: m) (auto simp: byte_ranges max_def word_le_nat_alt)

lemma vmaxvq_high: "vmaxvq_u8 bs AND 0x80 \<noteq> 0 \<longleftrightarrow> (\<exists>b \<in> set bs. \<not> ascii b)"
  by (simp add: vmaxvq_u8_def fold_max_high)

lemma skipAsciiNeon16_eq: "skipAsciiNeon16 s = dropWhile ascii s"
proof (induction s rule: skipAsciiNeon16.induct)
  case (1 s)
  then show ?case
    by (simp add: skipAsciiNeon16.simps [of s] skipAsciiBytes_eq vmaxvq_high dropWhile_block [of 16 s])
qed

lemma or_high: "(a OR b) AND 0x80 = 0 \<longleftrightarrow> a AND 0x80 = 0 \<and> b AND (0x80 :: byte) = 0"
  by (metis byte_high_bit bit_or_iff)

lemma map2_or_ascii:
  "length xs = length ys \<Longrightarrow>
   (\<forall>b \<in> set (zip xs ys). ascii (case b of (x, y) \<Rightarrow> x OR y)) \<longleftrightarrow>
   (\<forall>b \<in> set xs. ascii b) \<and> (\<forall>b \<in> set ys. ascii b)"
  by (induction xs ys rule: list_induct2) (auto simp: or_high)

lemma skipAsciiNeon_eq: "skipAsciiNeon s = dropWhile ascii s"
proof (induction s rule: skipAsciiNeon.induct)
  case (1 s)
  let ?c = "map2 (OR) (map2 (OR) (window s 0 16) (window s 16 16))
                      (map2 (OR) (window s 32 16) (window s 48 16))"
  have "take 64 s = window s 0 16 @ window s 16 16 @ window s 32 16 @ window s 48 16"
    using window_append [of s 0 16 48] window_append [of s 16 16 32] window_append [of s 32 16 16]
    by (simp add: window_def)
  then have c: "(\<forall>b \<in> set ?c. ascii b) \<longleftrightarrow> (\<forall>b \<in> set (take 64 s). ascii b)" if "64 \<le> length s"
    using that by (simp add: map2_or_ascii ball_Un)
  show ?case
  proof (cases "64 \<le> length s \<and> (\<forall>b \<in> set (take 64 s). ascii b)")
    case True
    then have "\<not> vmaxvq_u8 ?c AND 0x80 \<noteq> 0" unfolding vmaxvq_high using c by blast
    with True "1.IH" [of ?c] dropWhile_block [of 64 s ascii] show ?thesis
      by (simp add: skipAsciiNeon.simps [of s])
  next
    case False
    then have "64 \<le> length s \<Longrightarrow> vmaxvq_u8 ?c AND 0x80 \<noteq> 0" unfolding vmaxvq_high using c by blast
    with False show ?thesis by (simp add: skipAsciiNeon.simps [of s] skipAsciiNeon16_eq)
  qed
qed

lemma dropWhile_skips:
  assumes "k \<le> length s" "\<forall>b \<in> set (take k s). P b"
  shows "\<exists>n. k \<le> n \<and> n \<le> length s \<and> dropWhile P s = drop n s \<and> (\<forall>b \<in> set (take n s). P b)"
proof (intro exI [of _ "length (takeWhile P s)"] conjI)
  have "takeWhile P s = take k s @ takeWhile P (drop k s)"
    using takeWhile_append2 [of "take k s" P "drop k s"] assms(2) by (simp add: append_take_drop_id)
  with assms(1) show "k \<le> length (takeWhile P s)" by simp
  show "\<forall>b \<in> set (take (length (takeWhile P s)) s). P b"
    by (metis set_takeWhileD takeWhile_eq_take)
qed (simp_all add: length_takeWhile_le dropWhile_eq_drop)

interpretation scalar_skip: ascii_skipper "drop 4"
  by unfold_locales auto

interpretation bytes_skip: ascii_skipper "dropWhile ascii"
  by unfold_locales (rule dropWhile_skips)

interpretation code_skip: ascii_skipper "skipAscii t len" for t len
  by unfold_locales
    (auto simp: skipAscii_def skipAsciiAvx2_eq skipAsciiNeon_eq scalar_skip.skip bytes_skip.skip
      split: simd.split)

section \<open>The validation loop\<close>

text \<open>
  One round of the \<open>for\<close> loop: four ASCII bytes or more at once, or the byte loop
  \<open>while (!(*s & 0x80)) if (++s == e) return true\<close> followed by one sequence.
\<close>

function isValidUtf8From :: "simd \<Rightarrow> nat \<Rightarrow> byte list \<Rightarrow> bool" where
  "isValidUtf8From t len s =
     (if s = [] then True
      else if 4 \<le> length s \<and> asciiWord s AND 0x80808080 = 0
      then isValidUtf8From t len (skipAscii t len s)
      else (case skipAsciiBytes s of
              [] \<Rightarrow> True
            | b # r \<Rightarrow> (case utf8Sequence (b # r) of
                None \<Rightarrow> False
              | Some n \<Rightarrow> isValidUtf8From t len (drop n (b # r)))))"
  by pat_completeness auto
termination
proof (relation "measure (\<lambda>(t, len, s). length s)", goal_cases)
  case (2 t len s)
  then show ?case using code_skip.shorter [of s t len] asciiWord_high_bits [of s] by auto
next
  case (3 t len s b r n)
  have "length (b # r) \<le> length s"
    unfolding 3(3) [symmetric] skipAsciiBytes_eq by (rule length_dropWhile_le)
  moreover have "0 < n" using 3(4) by (auto simp: utf8Sequence_def split: if_splits)
  ultimately show ?case by simp
qed simp

declare isValidUtf8From.simps [simp del]

definition isValidUtf8 :: "simd \<Rightarrow> byte list \<Rightarrow> bool" where
  "isValidUtf8 t s = isValidUtf8From t (length s) s"


section \<open>Correctness\<close>

definition wellFormed :: "byte list \<Rightarrow> bool" where
  "wellFormed s \<longleftrightarrow> (\<exists>cs. list_all scalar cs \<and> s = encodeUtf8 cs)"

lemma unat_of_nat_byte: "n < 256 \<Longrightarrow> unat (of_nat n :: byte) = n"
  by (simp add: unat_of_nat)

lemma encodeScalar_nonempty: "encodeScalar c \<noteq> []"
  by (simp add: encodeScalar_def)

lemma utf8Sequence_complete_2:
  assumes "0x80 \<le> c" "c < 0x800"
  shows "utf8Sequence (encodeScalar c @ s) = Some 2" "length (encodeScalar c) = 2"
    "\<not> ascii (hd (encodeScalar c))"
proof -
  define b0 b1 :: byte where "b0 = of_nat (0xc0 + c div 64)" and "b1 = of_nat (0x80 + c mod 64)"
  have e: "encodeScalar c = [b0, b1]" using assms by (simp add: encodeScalar_def b0_def b1_def)
  have "2 \<le> c div 64" "c div 64 < 32" using assms by (simp_all add: less_eq_div_iff_mult_less_eq div_less_iff_less_mult)
  moreover have "c mod 64 < 64" by simp
  ultimately have r: "0xc2 \<le> unat b0" "unat b0 < 0xe0" "0x80 \<le> unat b1" "unat b1 < 0xc0"
    unfolding b0_def b1_def by (simp_all add: unat_of_nat_byte del: of_nat_add)
  then show "utf8Sequence (encodeScalar c @ s) = Some 2" "length (encodeScalar c) = 2"
    "\<not> ascii (hd (encodeScalar c))"
    by (auto simp: e utf8Sequence_ranges lead_byte_values [of b0])
qed

lemma utf8Sequence_complete_3:
  assumes "0x800 \<le> c" "c < 0x10000" "scalar c"
  shows "utf8Sequence (encodeScalar c @ s) = Some 3" "length (encodeScalar c) = 3"
    "\<not> ascii (hd (encodeScalar c))"
proof -
  define a d where "a = c div 4096" and "d = c div 64 mod 64"
  define b0 b1 b2 :: byte where "b0 = of_nat (0xe0 + a)" and "b1 = of_nat (0x80 + d)"
    and "b2 = of_nat (0x80 + c mod 64)"
  have e: "encodeScalar c = [b0, b1, b2]"
    using assms by (simp add: encodeScalar_def b0_def b1_def b2_def a_def d_def)
  have cy: "c div 64 = 64 * a + d" unfolding a_def d_def
    using div_mult2_eq [of c 64 64] by simp
  have "a < 16" "d < 64" "c mod 64 < 64" using assms by (simp_all add: a_def d_def div_less_iff_less_mult)
  moreover have "32 \<le> c div 64" "c div 64 < 864 \<or> 896 \<le> c div 64"
    using assms by (auto simp: scalar_def less_eq_div_iff_mult_less_eq div_less_iff_less_mult)
  then have "a = 0 \<longrightarrow> 32 \<le> d" "a = 13 \<longrightarrow> d < 32" using \<open>d < 64\<close> by (auto simp: cy)
  ultimately have r: "0xe0 \<le> unat b0" "unat b0 < 0xf0" "0x80 \<le> unat b1" "unat b1 < 0xc0"
      "0x80 \<le> unat b2" "unat b2 < 0xc0" "unat b0 = 0xe0 \<longrightarrow> 0xa0 \<le> unat b1"
      "unat b0 = 0xed \<longrightarrow> unat b1 < 0xa0"
    unfolding b0_def b1_def b2_def by (simp_all add: unat_of_nat_byte del: of_nat_add)
  then show "utf8Sequence (encodeScalar c @ s) = Some 3" "length (encodeScalar c) = 3"
    "\<not> ascii (hd (encodeScalar c))"
    by (auto simp: e utf8Sequence_ranges lead_byte_values [of b0])
qed

lemma utf8Sequence_complete_4:
  assumes "0x10000 \<le> c" "scalar c"
  shows "utf8Sequence (encodeScalar c @ s) = Some 4" "length (encodeScalar c) = 4"
    "\<not> ascii (hd (encodeScalar c))"
proof -
  define a d where "a = c div 262144" and "d = c div 4096 mod 64"
  define b0 b1 b2 b3 :: byte where "b0 = of_nat (0xf0 + a)" and "b1 = of_nat (0x80 + d)"
    and "b2 = of_nat (0x80 + c div 64 mod 64)" and "b3 = of_nat (0x80 + c mod 64)"
  have e: "encodeScalar c = [b0, b1, b2, b3]"
    using assms by (simp add: encodeScalar_def b0_def b1_def b2_def b3_def a_def d_def)
  have cy: "c div 4096 = 64 * a + d" unfolding a_def d_def
    using div_mult2_eq [of c 4096 64] by simp
  have d: "d < 64" "c mod 64 < 64" "c div 64 mod 64 < 64" by (simp_all add: d_def)
  have "16 \<le> c div 4096" "c div 4096 < 272"
    using assms by (auto simp: scalar_def less_eq_div_iff_mult_less_eq div_less_iff_less_mult)
  then have "a \<le> 4" "a = 0 \<longrightarrow> 16 \<le> d" "a = 4 \<longrightarrow> d < 16" using d(1) by (auto simp: cy)
  with d have r: "0xf0 \<le> unat b0" "unat b0 \<le> 0xf4" "0x80 \<le> unat b1" "unat b1 < 0xc0"
      "0x80 \<le> unat b2" "unat b2 < 0xc0" "0x80 \<le> unat b3" "unat b3 < 0xc0"
      "unat b0 = 0xf0 \<longrightarrow> 0x90 \<le> unat b1" "unat b0 = 0xf4 \<longrightarrow> unat b1 < 0x90"
    unfolding b0_def b1_def b2_def b3_def by (simp_all add: unat_of_nat_byte del: of_nat_add)
  then show "utf8Sequence (encodeScalar c @ s) = Some 4" "length (encodeScalar c) = 4"
    "\<not> ascii (hd (encodeScalar c))"
    by (auto simp: e utf8Sequence_ranges lead_byte_values [of b0])
qed

lemma utf8Sequence_complete:
  assumes "scalar c" "0x80 \<le> c"
  shows "utf8Sequence (encodeScalar c @ s) = Some (length (encodeScalar c))"
    "\<not> ascii (hd (encodeScalar c))"
proof -
  consider "c < 0x800" | "0x800 \<le> c" "c < 0x10000" | "0x10000 \<le> c" by linarith
  then have "utf8Sequence (encodeScalar c @ s) = Some (length (encodeScalar c)) \<and>
      \<not> ascii (hd (encodeScalar c))"
    using assms utf8Sequence_complete_2 utf8Sequence_complete_3 utf8Sequence_complete_4
    by cases simp_all
  then show "utf8Sequence (encodeScalar c @ s) = Some (length (encodeScalar c))"
    "\<not> ascii (hd (encodeScalar c))" by blast+
qed

lemma encodeScalar_ascii: "c < 0x80 \<Longrightarrow> encodeScalar c = [of_nat c] \<and> ascii (of_nat c)"
  by (simp add: encodeScalar_def byte_ranges unat_of_nat_byte)

lemma encodeScalar_of_ascii: "ascii b \<Longrightarrow> encodeScalar (unat b) = [b] \<and> scalar (unat b)"
  by (simp add: encodeScalar_def byte_ranges scalar_def)

lemma wellFormed_Nil: "wellFormed []"
  by (auto simp: wellFormed_def encodeUtf8_def intro: exI [of _ "[]"])

lemma wellFormed_encode: "scalar c \<Longrightarrow> wellFormed s \<Longrightarrow> wellFormed (encodeScalar c @ s)"
  by (force simp: wellFormed_def encodeUtf8_def intro: exI [of _ "c # cs" for cs])

lemma wellFormed_cases:
  assumes "wellFormed s"
  obtains "s = []" | c r where "scalar c" "s = encodeScalar c @ r" "wellFormed r"
proof -
  from assms obtain cs where "list_all scalar cs" "s = encodeUtf8 cs" by (auto simp: wellFormed_def)
  then show thesis using that by (cases cs) (auto simp: wellFormed_def encodeUtf8_def)
qed

lemma wellFormed_ascii: "ascii b \<Longrightarrow> wellFormed (b # s) \<longleftrightarrow> wellFormed s"
proof
  assume a: "ascii b" and "wellFormed (b # s)"
  then obtain c r where c: "scalar c" "b # s = encodeScalar c @ r" "wellFormed r"
    by (auto elim: wellFormed_cases)
  have "hd (encodeScalar c) = b" using c(2) encodeScalar_nonempty [of c] by (metis hd_append2 list.sel(1))
  then have "c < 0x80" using a utf8Sequence_complete(2) [OF c(1)] by (auto simp: not_less [symmetric])
  with c encodeScalar_ascii show "wellFormed s" by auto
next
  assume "ascii b" "wellFormed s"
  then show "wellFormed (b # s)" using encodeScalar_of_ascii wellFormed_encode by fastforce
qed

lemma wellFormed_sequence:
  assumes "\<not> ascii b"
  shows "wellFormed (b # s) \<longleftrightarrow>
    (case utf8Sequence (b # s) of None \<Rightarrow> False | Some n \<Rightarrow> wellFormed (drop n (b # s)))"
proof
  assume "wellFormed (b # s)"
  then obtain c r where c: "scalar c" "b # s = encodeScalar c @ r" "wellFormed r"
    by (auto elim: wellFormed_cases)
  have "hd (encodeScalar c) = b" using c(2) encodeScalar_nonempty [of c] by (metis hd_append2 list.sel(1))
  then have "0x80 \<le> c" using assms encodeScalar_ascii [of c] by (auto simp: not_less [symmetric])
  from utf8Sequence_complete(1) [OF c(1) this, of r] c(3)
  show "case utf8Sequence (b # s) of None \<Rightarrow> False | Some n \<Rightarrow> wellFormed (drop n (b # s))"
    unfolding c(2) by simp
next
  assume "case utf8Sequence (b # s) of None \<Rightarrow> False | Some n \<Rightarrow> wellFormed (drop n (b # s))"
  then obtain n where n: "utf8Sequence (b # s) = Some n" "wellFormed (drop n (b # s))"
    by (auto split: option.splits)
  obtain c where "scalar c" "encodeScalar c = take n (b # s)"
    using utf8Sequence_sound [OF n(1)] assms by (auto simp: byte_ranges)
  with wellFormed_encode [OF _ n(2), of c] show "wellFormed (b # s)"
    by (metis append_take_drop_id)
qed

lemma wellFormed_skip: "\<forall>b \<in> set xs. ascii b \<Longrightarrow> wellFormed (xs @ s) \<longleftrightarrow> wellFormed s"
  by (induction xs) (auto simp: wellFormed_ascii)

lemma wellFormed_drop: "\<forall>b \<in> set (take n s). ascii b \<Longrightarrow> wellFormed (drop n s) \<longleftrightarrow> wellFormed s"
  using wellFormed_skip [of "take n s" "drop n s"] by simp

lemma wellFormed_dropWhile: "wellFormed (dropWhile ascii s) \<longleftrightarrow> wellFormed s"
  using wellFormed_skip [of "takeWhile ascii s" "dropWhile ascii s"] by (auto dest: set_takeWhileD)

lemma isValidUtf8From_correct: "isValidUtf8From t len s \<longleftrightarrow> wellFormed s"
proof (induction t len s rule: isValidUtf8From.induct)
  case (1 t len s)
  consider "s = []" | "s \<noteq> []" "4 \<le> length s" "asciiWord s AND 0x80808080 = 0"
    | "s \<noteq> []" "\<not> (4 \<le> length s \<and> asciiWord s AND 0x80808080 = 0)" by blast
  then show ?case
  proof cases
    case 1
    then show ?thesis by (simp add: isValidUtf8From.simps [of t len "[]"] wellFormed_Nil)
  next
    case 2
    then obtain n where "skipAscii t len s = drop n s" "\<forall>b \<in> set (take n s). ascii b"
      using code_skip.skip [of s t len] asciiWord_high_bits [of s] by auto
    with 2 "1.IH"(1) show ?thesis
      by (simp add: isValidUtf8From.simps [of t len s] wellFormed_drop)
  next
    case 3
    show ?thesis
    proof (cases "dropWhile ascii s")
      case Nil
      have "wellFormed s" using wellFormed_dropWhile [of s] by (simp only: Nil wellFormed_Nil)
      with 3 show ?thesis
        unfolding isValidUtf8From.simps [of t len s] skipAsciiBytes_eq Nil by auto
    next
      case (Cons b r)
      then have "\<not> ascii b" using hd_dropWhile [of ascii s] by auto
      from wellFormed_sequence [OF this, of r] 3 Cons "1.IH"(2) [of b r] wellFormed_dropWhile [of s]
      show ?thesis
        by (auto simp: isValidUtf8From.simps [of t len s] skipAsciiBytes_eq split: option.splits)
    qed
  qed
qed

text \<open>
  C28: \<open>isValidUtf8\<close> accepts exactly the UTF-8 encodings of sequences of Unicode scalar
  values (no overlong form, no surrogate, nothing above U+10FFFF), in the scalar, the AVX2
  and the NEON build alike.
\<close>

theorem isValidUtf8_correct:
  "isValidUtf8 t s \<longleftrightarrow> (\<exists>cs. list_all scalar cs \<and> s = encodeUtf8 cs)"
  by (simp add: isValidUtf8_def isValidUtf8From_correct wellFormed_def)

lemma isValidUtf8_wellFormed: "isValidUtf8 t s \<longleftrightarrow> wellFormed s"
  by (simp add: isValidUtf8_def isValidUtf8From_correct)

end
