(* ===== verification/Frame_Header.thy ===== *)
theory Frame_Header
  imports Utf8
begin

text \<open>
  Frame headers of \<open>WebSocketProtocol.h\<close>: the opcodes, the accessors of a received header,
  the big-endian reads and writes, \<open>formatMessageHeader\<close> and \<open>formatMessage\<close>, and the
  second header writer \<open>frameHeader\<close> of \<open>native_transport.cpp\<close>. The reference is a
  decoder of unmasked frames after RFC 6455.
\<close>

section \<open>Opcodes and received headers\<close>

type_synonym OpCode = byte

abbreviation NONE :: OpCode where "NONE \<equiv> 0"
abbreviation TEXT :: OpCode where "TEXT \<equiv> 1"
abbreviation BINARY :: OpCode where "BINARY \<equiv> 2"
abbreviation CLOSE :: OpCode where "CLOSE \<equiv> 8"
abbreviation PING :: OpCode where "PING \<equiv> 9"
abbreviation PONG :: OpCode where "PONG \<equiv> 10"

definition isFin :: "byte list \<Rightarrow> bool" where "isFin frame \<longleftrightarrow> frame ! 0 AND 128 \<noteq> 0"
definition isMasked :: "byte list \<Rightarrow> bool" where "isMasked frame \<longleftrightarrow> frame ! 1 AND 128 \<noteq> 0"
definition getOpCode :: "byte list \<Rightarrow> OpCode" where "getOpCode frame = frame ! 0 AND 15"
definition payloadLength :: "byte list \<Rightarrow> nat" where "payloadLength frame = unat (frame ! 1 AND 127)"
definition rsv23 :: "byte list \<Rightarrow> bool" where "rsv23 frame \<longleftrightarrow> frame ! 0 AND 48 \<noteq> 0"
definition rsv1 :: "byte list \<Rightarrow> bool" where "rsv1 frame \<longleftrightarrow> frame ! 0 AND 64 \<noteq> 0"

definition SHORT_MESSAGE_HEADER :: nat where "SHORT_MESSAGE_HEADER = 6"
definition MEDIUM_MESSAGE_HEADER :: nat where "MEDIUM_MESSAGE_HEADER = 8"
definition LONG_MESSAGE_HEADER :: nat where "LONG_MESSAGE_HEADER = 14"
definition CONSUME_PRE_PADDING :: nat where "CONSUME_PRE_PADDING = LONG_MESSAGE_HEADER - 1"

lemmas header_sizes = SHORT_MESSAGE_HEADER_def MEDIUM_MESSAGE_HEADER_def LONG_MESSAGE_HEADER_def
  CONSUME_PRE_PADDING_def

text \<open>\<open>memcpy\<close> and \<open>ntohs\<close>/\<open>be64toh\<close>: the bytes in network order.\<close>

definition readUint16BE :: "byte list \<Rightarrow> 16 word" where
  "readUint16BE src = word_rcat (take 2 src)"

definition readUint64BE :: "byte list \<Rightarrow> 64 word" where
  "readUint64BE src = word_rcat (take 8 src)"

text \<open>\<open>htons\<close>/\<open>htobe64\<close> and \<open>memcpy\<close>.\<close>

definition bytesUint16BE :: "16 word \<Rightarrow> byte list" where
  "bytesUint16BE w = [ucast (drop_bit 8 w), ucast w]"

definition bytesUint64BE :: "64 word \<Rightarrow> byte list" where
  "bytesUint64BE w = map (\<lambda>i. ucast (drop_bit (8 * (7 - i)) w)) [0..<8]"

section \<open>Header writers\<close>

definition SND_COMPRESSED :: byte where "SND_COMPRESSED = 64"

text \<open>The bytes written to \<open>dst\<close>; their number is the returned length.\<close>

definition formatMessageHeader :: "OpCode \<Rightarrow> nat \<Rightarrow> bool \<Rightarrow> byte list" where
  "formatMessageHeader opCode reportedLength compressed =
     (128 OR (if compressed then SND_COMPRESSED else 0) OR opCode) #
     (if reportedLength < 126 then [of_nat reportedLength]
      else if reportedLength \<le> 65535 then 126 # bytesUint16BE (of_nat reportedLength)
      else 127 # bytesUint64BE (of_nat reportedLength))"

definition formatMessage :: "byte list \<Rightarrow> OpCode \<Rightarrow> nat \<Rightarrow> bool \<Rightarrow> byte list" where
  "formatMessage src opCode reportedLength compressed =
     formatMessageHeader opCode reportedLength compressed @ src"

text \<open>\<open>frameHeader\<close> of the native transport, with its byte-wise shifts.\<close>

definition frameHeader :: "nat \<Rightarrow> OpCode \<Rightarrow> byte list" where
  "frameHeader len opCode =
     (let first = 0x80 OR opCode
      in if len < 126 then [first, of_nat len]
         else if len \<le> 0xffff then
           [first, 126, ucast ((drop_bit 8 (of_nat len) :: 64 word) AND 0xff),
                        ucast ((of_nat len :: 64 word) AND 0xff)]
         else [first, 127] @
           map (\<lambda>index. ucast (drop_bit ((7 - index) * 8) (of_nat len :: 64 word))) [0..<8])"

section \<open>Byte order\<close>

lemma bit_word_rcat:
  "bit (word_rcat (bs :: byte list) :: 'a::len word) n \<longleftrightarrow>
   n < LENGTH('a) \<and> n div 8 < length bs \<and> bit (rev bs ! (n div 8)) (n mod 8)"
  by (auto simp: word_rcat_def bit_simps bit_horner_sum_uint_exp_iff [where 'a = 8, simplified])

lemma length_bytesUint16BE [simp]: "length (bytesUint16BE w) = 2"
  by (simp add: bytesUint16BE_def)

lemma length_bytesUint64BE [simp]: "length (bytesUint64BE w) = 8"
  by (simp add: bytesUint64BE_def)

lemma readUint16BE_bytes [simp]: "readUint16BE (bytesUint16BE w @ r) = w"
proof (rule bit_word_eqI)
  fix n assume n: "n < LENGTH(16)"
  then have "n div 8 = 0 \<or> n div 8 = 1" by auto
  then show "bit (readUint16BE (bytesUint16BE w @ r)) n \<longleftrightarrow> bit w n"
    using n by (auto simp: readUint16BE_def bytesUint16BE_def bit_word_rcat bit_ucast_iff bit_drop_bit_eq
        div_eq_0_iff le_mod_geq intro!: arg_cong [where f = "bit w"])
qed

lemma bytesUint16BE_read: "2 \<le> length bs \<Longrightarrow> bytesUint16BE (readUint16BE bs) = take 2 bs"
proof -
  assume "2 \<le> length bs"
  then obtain a b r where bs: "bs = a # b # r"
    by (metis Suc_le_length_iff numeral_2_eq_2)
  have [simp]: "(8 + n) div 8 = 1" if "n < 8" for n :: nat using that by (simp add: div_bounds)
  have "ucast (readUint16BE bs) = b" "ucast (drop_bit 8 (readUint16BE bs)) = a"
    by (rule bit_word_eqI; simp add: bs readUint16BE_def bit_word_rcat bit_ucast_iff bit_drop_bit_eq)+
  then show ?thesis by (simp add: bytesUint16BE_def bs)
qed

lemma rev_bytesUint64BE: "i < 8 \<Longrightarrow> rev (bytesUint64BE w) ! i = ucast (drop_bit (8 * i) w)"
proof -
  assume i: "i < 8"
  then have "[0..<8] ! (7 - i) = 7 - i" by (subst nth_upt) auto
  with i show ?thesis by (simp add: bytesUint64BE_def rev_nth del: upt_rec_numeral)
qed

lemma readUint64BE_bytes [simp]: "readUint64BE (bytesUint64BE w @ r) = w"
proof (rule bit_word_eqI)
  fix n assume n: "n < LENGTH(64)"
  then have "n div 8 < 8" by auto
  then show "bit (readUint64BE (bytesUint64BE w @ r)) n \<longleftrightarrow> bit w n"
    using n by (simp add: readUint64BE_def bit_word_rcat rev_bytesUint64BE bit_ucast_iff bit_drop_bit_eq)
qed

lemma byte_and_ff: "ucast ((w :: 64 word) AND 0xff) = (ucast w :: byte)"
proof (rule bit_word_eqI)
  fix n assume n: "n < LENGTH(8)"
  have "bit (mask 8 :: 64 word) n" using n by (simp only: bit_mask_iff) simp
  then have "bit (0xff :: 64 word) n" by (simp add: mask_eq_exp_minus_1)
  with n show "bit (ucast (w AND 0xff) :: byte) n = bit (ucast w :: byte) n"
    by (simp add: bit_simps bit_ucast_iff)
qed

section \<open>The two header writers agree\<close>

lemma ucast_of_nat_64: "ucast (of_nat n :: 64 word) = (of_nat n :: 16 word)"
  by (rule bit_word_eqI) (simp add: bit_ucast_iff bit_simps)

lemma bytesUint16BE_of_64:
  "bytesUint16BE (of_nat n) = [ucast (drop_bit 8 (of_nat n :: 64 word)), ucast (of_nat n :: 64 word)]"
proof -
  have "(of_nat n :: 16 word) = ucast (of_nat n :: 64 word)"
    by (simp add: ucast_of_nat_64)
  moreover have "ucast (drop_bit 8 (ucast w :: 16 word)) = (ucast (drop_bit 8 w) :: byte)"
    and "ucast (ucast w :: 16 word) = (ucast w :: byte)" for w :: "64 word"
    by (rule bit_word_eqI; auto simp: bit_simps bit_ucast_iff)+
  ultimately show ?thesis by (simp add: bytesUint16BE_def)
qed

text \<open>
  C31: the native transport's own header writer \<open>frameHeader\<close>, which shifts the length out byte
  by byte, and the protocol's \<open>formatMessageHeader\<close>, which byte-swaps it, write the same
  bytes for every opcode and every length.
\<close>
theorem frameHeader_eq_formatMessageHeader:
  "frameHeader len opCode = formatMessageHeader opCode len False"
  by (simp add: frameHeader_def formatMessageHeader_def Let_def bytesUint16BE_of_64 byte_and_ff
      bytesUint64BE_def mult.commute del: upt_rec_numeral)

section \<open>Reading a frame back\<close>

definition OpCodes :: "OpCode set" where "OpCodes = {NONE, TEXT, BINARY, CLOSE, PING, PONG}"

text \<open>
  A receiver of server frames: header length and payload length from the first bytes, then FIN, RSV1,
  opcode, the payload and the bytes after the frame.
\<close>

definition decodeFrame :: "byte list \<Rightarrow> (bool \<times> bool \<times> OpCode \<times> byte list \<times> byte list) option" where
  "decodeFrame bs =
     (if length bs < 2 \<or> isMasked bs then None
      else let (header, n) =
             (if payloadLength bs < 126 then (2, payloadLength bs)
              else if payloadLength bs = 126 then (4, unat (readUint16BE (drop 2 bs)))
              else (10, unat (readUint64BE (drop 2 bs))))
           in if length bs < header + n then None
              else Some (isFin bs, rsv1 bs, getOpCode bs, take n (drop header bs), drop (header + n) bs))"

lemma first_byte_fields:
  "op \<in> OpCodes \<Longrightarrow> isFin ((128 OR (if c then SND_COMPRESSED else 0) OR op) # bs)"
  "op \<in> OpCodes \<Longrightarrow> rsv1 ((128 OR (if c then SND_COMPRESSED else 0) OR op) # bs) = c"
  "op \<in> OpCodes \<Longrightarrow> getOpCode ((128 OR (if c then SND_COMPRESSED else 0) OR op) # bs) = op"
  by (auto simp: OpCodes_def isFin_def rsv1_def getOpCode_def SND_COMPRESSED_def)

lemma second_byte_and:
  "n < 128 \<Longrightarrow> (of_nat n :: byte) AND 128 = 0" "n < 128 \<Longrightarrow> unat ((of_nat n :: byte) AND 127) = n"
proof -
  assume n: "n < 128"
  then have u: "unat (of_nat n :: byte) = n" by (simp add: unat_of_nat)
  show "(of_nat n :: byte) AND 128 = 0"
    using n u byte_ranges(1) [of "of_nat n"] by simp
  show "unat ((of_nat n :: byte) AND 127) = n"
    using n by (simp add: unat_and_shifted_mask [of "127" 0 7] u)
qed

lemma second_byte_fields:
  "n < 128 \<Longrightarrow> \<not> isMasked (b # of_nat n # bs)" "n < 128 \<Longrightarrow> payloadLength (b # of_nat n # bs) = n"
  by (simp_all add: isMasked_def payloadLength_def second_byte_and)

lemma length_formatMessageHeader:
  "length (formatMessageHeader opCode n c) = (if n < 126 then 2 else if n \<le> 65535 then 4 else 10)"
  by (simp add: formatMessageHeader_def)

text \<open>
  C32: a frame written by \<open>formatMessage\<close> reads back: FIN set, RSV1 as the \<open>compressed\<close> flag, the
  opcode and exactly the payload, whatever bytes follow, for every payload length the 64-bit length
  field can carry.
\<close>
theorem formatMessage_decodeFrame:
  assumes op: "opCode \<in> OpCodes" and len: "length payload < 2 ^ 64"
  shows "decodeFrame (formatMessage payload opCode (length payload) compressed @ rest) =
         Some (True, compressed, opCode, payload, rest)"
proof -
  consider "length payload < 126" | "126 \<le> length payload" "length payload \<le> 65535"
    | "65535 < length payload" by arith
  then show ?thesis
  proof cases
    case 1
    then show ?thesis
      by (simp add: decodeFrame_def formatMessage_def formatMessageHeader_def first_byte_fields [OF op]
          second_byte_fields)
  next
    case 2
    then show ?thesis
      using second_byte_fields [of 126]
      by (simp add: decodeFrame_def formatMessage_def formatMessageHeader_def first_byte_fields [OF op]
          unat_of_nat drop_Cons')
  next
    case 3
    then show ?thesis
      using second_byte_fields [of 127] len
      by (simp add: decodeFrame_def formatMessage_def formatMessageHeader_def first_byte_fields [OF op]
          unat_of_nat drop_Cons')
  qed
qed

lemma formatMessage_decodeFrame_witness:
  "decodeFrame (formatMessage [104, 105] TEXT 2 True @ [1, 2, 3]) = Some (True, True, TEXT, [104, 105], [1, 2, 3])"
  using formatMessage_decodeFrame [of TEXT "[104, 105]" True "[1, 2, 3]"]
  by (simp add: OpCodes_def del: One_nat_def flip: numeral_2_eq_2)

end
