(* ===== verification/Close_Frame.thy ===== *)
theory Close_Frame
  imports Frame_Header
begin

text \<open>
  Close payloads of \<open>WebSocketProtocol.h\<close>: \<open>parseClosePayload\<close> and \<open>formatClosePayload\<close>, with
  the truncation \<open>StreamWebSocket::formatClose\<close> applies before it writes one.
\<close>

section \<open>Code\<close>

record CloseFrame =
  cf_code :: nat
  cf_message :: "byte list"

text \<open>\<open>cf_message\<close> holds the \<open>length\<close> bytes the pointer \<open>message\<close> designates.\<close>

definition validCloseCode :: "nat \<Rightarrow> bool" where
  "validCloseCode code \<longleftrightarrow>
     (1000 \<le> code \<and> code \<le> 1014 \<and> code \<noteq> 1004 \<and> code \<noteq> 1005 \<and> code \<noteq> 1006) \<or>
     (3000 \<le> code \<and> code \<le> 4999)"

definition parseClosePayload :: "simd \<Rightarrow> byte list \<Rightarrow> CloseFrame" where
  "parseClosePayload cpu src =
     (if length src = 1 then \<lparr>cf_code = 1006, cf_message = []\<rparr>
      else if length src \<ge> 2 then
        let cf = \<lparr>cf_code = unat (readUint16BE src), cf_message = drop 2 src\<rparr>
        in if \<not> validCloseCode (cf_code cf) \<or> \<not> isValidUtf8 cpu (cf_message cf)
           then \<lparr>cf_code = 1006, cf_message = []\<rparr> else cf
      else \<lparr>cf_code = 1005, cf_message = []\<rparr>)"

text \<open>A null \<open>message\<close> is \<open>None\<close>. The result is the bytes written to \<open>dst\<close>.\<close>

definition formatClosePayload :: "simd \<Rightarrow> nat \<Rightarrow> byte list option \<Rightarrow> byte list" where
  "formatClosePayload cpu code message =
     (if code \<noteq> 0 \<and> code \<noteq> 1005 \<and> code \<noteq> 1006 then
        bytesUint16BE (of_nat code) @
        (case message of
           None \<Rightarrow> []
         | Some m \<Rightarrow> if m \<noteq> [] \<and> isValidUtf8 cpu m then m else [])
      else [])"

definition MAX_CLOSE_REASON :: nat where "MAX_CLOSE_REASON = 123"

text \<open>\<open>formatFrame\<close> and \<open>formatClose\<close> of \<open>StreamWebSocket\<close>.\<close>

definition formatFrame :: "byte list \<Rightarrow> OpCode \<Rightarrow> bool \<Rightarrow> byte list" where
  "formatFrame data opCode compressed = formatMessage data opCode (length data) compressed"

definition formatClose :: "simd \<Rightarrow> nat \<Rightarrow> byte list option \<Rightarrow> byte list" where
  "formatClose cpu code message =
     formatFrame (formatClosePayload cpu code (map_option (take MAX_CLOSE_REASON) message)) CLOSE False"

section \<open>Lemmas\<close>

lemma validCloseCode_bounds: "validCloseCode code \<Longrightarrow> 1000 \<le> code \<and> code \<le> 4999 \<and> code \<noteq> 1005 \<and> code \<noteq> 1006"
  by (auto simp: validCloseCode_def)

lemma length_formatClosePayload:
  "length (formatClosePayload cpu code (map_option (take MAX_CLOSE_REASON) message)) \<le> 125"
  by (auto simp: formatClosePayload_def MAX_CLOSE_REASON_def split: option.splits)

lemma unat_of_nat_16: "n < 65536 \<Longrightarrow> unat (of_nat n :: 16 word) = n"
  by (simp add: unat_of_nat)

lemma parseClosePayload_accepts:
  "cf_code (parseClosePayload cpu src) \<noteq> 1006 \<Longrightarrow>
   src = [] \<or> length src \<ge> 2 \<and> validCloseCode (unat (readUint16BE src)) \<and> isValidUtf8 cpu (drop 2 src)"
  by (cases src rule: remdups_adj.cases)
     (auto simp: parseClosePayload_def Let_def split: if_splits)

lemma parseClosePayload_code:
  "cf_code (parseClosePayload cpu src) \<in> {1005, 1006} \<or> validCloseCode (cf_code (parseClosePayload cpu src))"
  by (auto simp: parseClosePayload_def Let_def)

lemma isValidUtf8_Nil [simp]: "isValidUtf8 cpu []"
  by (simp add: isValidUtf8_wellFormed wellFormed_Nil)

section \<open>Properties\<close>

text \<open>
  C33: a close payload with a code the protocol accepts and a well-formed reason survives the round
  trip through \<open>formatClosePayload\<close> and \<open>parseClosePayload\<close>, whichever vector unit either side uses.
\<close>
theorem close_round_trip:
  assumes "validCloseCode code" "isValidUtf8 cpu message"
  shows "parseClosePayload cpu' (formatClosePayload cpu code (Some message)) =
         \<lparr>cf_code = code, cf_message = message\<rparr>"
proof -
  have "isValidUtf8 cpu' message" using assms(2) by (simp add: isValidUtf8_wellFormed)
  then show ?thesis
    using assms validCloseCode_bounds [OF assms(1)] readUint16BE_bytes [of "of_nat code" message]
      readUint16BE_bytes [of "of_nat code" "[]"]
    by (auto simp: formatClosePayload_def parseClosePayload_def Let_def unat_of_nat_16 bytesUint16BE_def)
qed

lemma close_round_trip_witness:
  "parseClosePayload AArch64 (formatClosePayload NoSimd 4001 (Some [98, 121, 101])) =
     \<lparr>cf_code = 4001, cf_message = [98, 121, 101]\<rparr>"
  by (rule close_round_trip) (simp_all add: validCloseCode_def isValidUtf8_wellFormed wellFormed_ascii wellFormed_Nil)

text \<open>
  C34: the endpoint echoes a peer's close faithfully: a close payload \<open>parseClosePayload\<close> does not
  reject, of a control frame's size, is rebuilt byte for byte by \<open>formatClosePayload\<close> from the
  parsed code and reason; the reply is the empty payload exactly when the received one was empty.
\<close>
theorem close_echo:
  assumes "cf_code (parseClosePayload cpu src) \<noteq> 1006" "length src \<le> 125"
  shows "formatClosePayload cpu (cf_code (parseClosePayload cpu src))
           (map_option (take MAX_CLOSE_REASON) (Some (cf_message (parseClosePayload cpu src)))) = src"
proof (cases "src = []")
  case True
  then show ?thesis by (simp add: parseClosePayload_def formatClosePayload_def)
next
  case False
  with parseClosePayload_accepts [OF assms(1)]
  have src: "2 \<le> length src" "validCloseCode (unat (readUint16BE src))" "isValidUtf8 cpu (drop 2 src)"
    by simp_all
  then have "parseClosePayload cpu src = \<lparr>cf_code = unat (readUint16BE src), cf_message = drop 2 src\<rparr>"
    by (simp add: parseClosePayload_def)
  moreover have "bytesUint16BE (readUint16BE src) @ drop 2 src = src"
    using src by (simp add: bytesUint16BE_read)
  ultimately show ?thesis
    using assms(2) src(1,3) validCloseCode_bounds [OF src(2)]
    by (auto simp: formatClosePayload_def MAX_CLOSE_REASON_def)
qed

lemma close_echo_witness:
  "formatClosePayload NoSimd (cf_code (parseClosePayload NoSimd [3, 232, 104]))
     (map_option (take MAX_CLOSE_REASON) (Some (cf_message (parseClosePayload NoSimd [3, 232, 104])))) = [3, 232, 104]"
  by (rule close_echo)
     (simp_all add: parseClosePayload_def Let_def readUint16BE_def validCloseCode_def isValidUtf8_wellFormed
        wellFormed_ascii wellFormed_Nil word_rcat_def horner_sum_simps)

end
