(* ===== verification/Consume.thy ===== *)
theory Consume
  imports Close_Frame
begin

text \<open>
  The frame parser \<open>WebSocketProtocol::consume\<close> on the receive buffer: \<open>mem\<close> is the buffer,
  \<open>src\<close> and \<open>len\<close> the C++ cursor and length, \<open>ws\<close> the \<open>WebSocketState\<close> and \<open>user\<close> the
  rest of the object the hooks work on. A hook that receives a pointer into the buffer gets its
  offset together with the bytes there. The hooks of the repository do not write to the buffer
  or to the \<open>WebSocketState\<close>.
\<close>

section \<open>State\<close>

record WebSocketState =
  wantsHead :: bool
  spillLength :: nat
  opStack :: int
  lastFin :: bool
  fragmentedMessage :: bool
  spill :: "byte list"
  opCode :: "OpCode list"
  remainingBytes :: nat
  msk :: "byte list"

text \<open>The constructor leaves \<open>mask\<close> uninitialised, so its contents are an argument here.\<close>

definition newWebSocketState :: "byte list \<Rightarrow> WebSocketState" where
  "newWebSocketState garbage =
     \<lparr>wantsHead = True, spillLength = 0, opStack = -1, lastFin = True, fragmentedMessage = False,
      spill = replicate (LONG_MESSAGE_HEADER - 1) 0, opCode = [NONE, NONE], remainingBytes = 0,
      msk = garbage\<rparr>"

text \<open>A hook returns its boolean result with the new user state.\<close>

record 'u WebSocketProtocolHooks =
  refusePayloadLength :: "nat \<Rightarrow> 'u \<Rightarrow> bool \<times> 'u"
  setCompressed :: "'u \<Rightarrow> bool \<times> 'u"
  forceClose :: "'u \<Rightarrow> 'u"
  handleFragment :: "nat \<Rightarrow> byte list \<Rightarrow> nat \<Rightarrow> OpCode \<Rightarrow> bool \<Rightarrow> 'u \<Rightarrow> bool \<times> 'u"

record 'u machine =
  mem :: "byte list"
  src :: nat
  len :: nat
  ws :: WebSocketState
  user :: 'u

definition frame :: "'u machine \<Rightarrow> byte list" where
  "frame m = drop (src m) (mem m)"

definition forced :: "'u WebSocketProtocolHooks \<Rightarrow> 'u machine \<Rightarrow> 'u machine" where
  "forced hooks m = m\<lparr>user := forceClose hooks (user m)\<rparr>"

definition topOpCode :: "WebSocketState \<Rightarrow> OpCode" where
  "topOpCode w = opCode w ! nat (opStack w)"

section \<open>One frame\<close>

text \<open>
  The part of \<open>consumeMessage\<close> before any payload byte is touched: the fragmentation state, the
  stack of open opcodes and the payload limit. \<open>None\<close> as first component is \<open>forceClose\<close>.
\<close>

definition fragmentationError :: "OpCode \<Rightarrow> WebSocketState \<Rightarrow> bool" where
  "fragmentationError opc w \<longleftrightarrow>
     (if opc = TEXT \<or> opc = BINARY then fragmentedMessage w
      else opc = NONE \<and> \<not> fragmentedMessage w)"

definition trackFragmentation :: "OpCode \<Rightarrow> bool \<Rightarrow> WebSocketState \<Rightarrow> WebSocketState" where
  "trackFragmentation opc fin w =
     (if opc = TEXT \<or> opc = BINARY then w\<lparr>fragmentedMessage := \<not> fin\<rparr>
      else if opc = NONE \<and> fin then w\<lparr>fragmentedMessage := False\<rparr>
      else w)"

definition pushOpCode :: "OpCode \<Rightarrow> WebSocketState \<Rightarrow> WebSocketState" where
  "pushOpCode opc w =
     w\<lparr>opStack := opStack w + 1, opCode := (opCode w)[nat (opStack w + 1) := opc]\<rparr>"

definition acceptHeader ::
  "'u WebSocketProtocolHooks \<Rightarrow> OpCode \<Rightarrow> bool \<Rightarrow> nat \<Rightarrow> WebSocketState \<Rightarrow> 'u \<Rightarrow> bool \<times> WebSocketState \<times> 'u" where
  "acceptHeader hooks opc fin payLength w u =
     (if fragmentationError opc w then (False, w, u)
      else let w = trackFragmentation opc fin w
      in if opc \<noteq> 0 \<and> opStack w = 1 \<or> opc = 0 \<and> opStack w = -1 then (False, w, u)
      else let w = (if opc \<noteq> 0 then pushOpCode opc w else w)\<lparr>lastFin := fin\<rparr>
      in if opc \<le> BINARY
         then (let (refused, u) = refusePayloadLength hooks payLength u in (\<not> refused, w, u))
         else (True, w, u))"

text \<open>
  \<open>payLength\<close> is below \<open>2 ^ 63\<close> in every call, so \<open>payLength + messageHeader\<close> does not wrap in 64
  bits, nor does the number of missing bytes; the casts to \<open>unsigned int\<close> are written out.
\<close>

definition consumeMessage ::
  "simd \<Rightarrow> 'u WebSocketProtocolHooks \<Rightarrow> nat \<Rightarrow> nat \<Rightarrow> 'u machine \<Rightarrow> bool \<times> 'u machine" where
  "consumeMessage cpu hooks payLength messageHeader m =
     (let fin = isFin (frame m);
          (accepted, w, u) = acceptHeader hooks (getOpCode (frame m)) fin payLength (ws m) (user m);
          m = m\<lparr>ws := w, user := u\<rparr>
      in if \<not> accepted then (True, forced hooks m)
      else if payLength + messageHeader \<le> len m then
        (let dat = src m + messageHeader - 4;
             m = m\<lparr>mem := unmaskImpreciseCopyMask cpu (mem m) dat (src m + messageHeader)
                            (src m + messageHeader - 4) (payLength mod 2 ^ 32)\<rparr>;
             (stop, u) = handleFragment hooks dat (window (mem m) dat payLength) 0 (topOpCode (ws m))
                           (isFin (frame m)) (user m);
             m = m\<lparr>user := u\<rparr>
         in if stop then (True, m)
            else let w = (if isFin (frame m) then (ws m)\<lparr>opStack := opStack (ws m) - 1\<rparr> else ws m)
                 in (False, m\<lparr>src := src m + (payLength + messageHeader),
                              len := len m - (payLength + messageHeader),
                              ws := w\<lparr>spillLength := 0\<rparr>\<rparr>))
      else
        (let m = m\<lparr>ws := (ws m)\<lparr>spillLength := 0, wantsHead := False,
                     remainingBytes := (payLength + messageHeader - len m) mod 2 ^ 32,
                     msk := window (mem m) (src m + messageHeader - 4) 4\<rparr>\<rparr>;
             here = len m - messageHeader;
             m = m\<lparr>mem := unmaskImprecise cpu (mem m) (src m) (src m + messageHeader) (msk (ws m)) here\<rparr>;
             m = m\<lparr>ws := (ws m)\<lparr>msk := rotateMask (4 - (here AND 3)) (msk (ws m))\<rparr>\<rparr>;
             (stop, u) = handleFragment hooks (src m) (window (mem m) (src m) here)
                           (remainingBytes (ws m)) (topOpCode (ws m)) fin (user m)
         in (True, m\<lparr>user := u\<rparr>)))"

section \<open>The rest of a frame\<close>

definition consumeContinuation ::
  "simd \<Rightarrow> 'u WebSocketProtocolHooks \<Rightarrow> 'u machine \<Rightarrow> bool \<times> 'u machine" where
  "consumeContinuation cpu hooks m =
     (let r = remainingBytes (ws m)
      in if r \<le> len m then
        (let n = r div 4;
             mem1 = unmaskInplace cpu (mem m) (src m) (src m + n * 4) (msk (ws m));
             m = m\<lparr>mem := unmaskInplaceTail mem1 (src m + n * 4) (src m + n * 4 + (r AND 3)) (msk (ws m)) 0\<rparr>;
             (stop, u) = handleFragment hooks (src m) (window (mem m) (src m) r) 0 (topOpCode (ws m))
                           (lastFin (ws m)) (user m);
             m = m\<lparr>user := u\<rparr>
         in if stop then (False, m)
            else let w = (if lastFin (ws m) then (ws m)\<lparr>opStack := opStack (ws m) - 1\<rparr> else ws m)
                 in (True, m\<lparr>src := src m + r, len := len m - r, ws := w\<lparr>wantsHead := True\<rparr>\<rparr>))
      else
        (let m = m\<lparr>mem := unmaskInplace cpu (mem m) (src m) (src m + len m) (msk (ws m)),
                   ws := (ws m)\<lparr>remainingBytes := r - len m\<rparr>\<rparr>;
             (stop, u) = handleFragment hooks (src m) (window (mem m) (src m) (len m))
                           (remainingBytes (ws m)) (topOpCode (ws m)) (lastFin (ws m)) (user m);
             m = m\<lparr>user := u\<rparr>
         in if stop then (False, m)
            else if len m AND 3 \<noteq> 0
            then (False, m\<lparr>ws := (ws m)\<lparr>msk := rotateMask (4 - (len m AND 3)) (msk (ws m))\<rparr>\<rparr>)
            else (False, m)))"

section \<open>The loop\<close>

datatype flow = Continue | Break | Return

definition headerLengthOf :: "byte list \<Rightarrow> nat" where
  "headerLengthOf fr =
     (if payloadLength fr < 126 then SHORT_MESSAGE_HEADER
      else if payloadLength fr = 126 then MEDIUM_MESSAGE_HEADER else LONG_MESSAGE_HEADER)"

definition returning :: "bool \<times> 'u machine \<Rightarrow> flow \<times> 'u machine" where
  "returning r = (if fst r then Return else Continue, snd r)"

definition parseStep :: "simd \<Rightarrow> 'u WebSocketProtocolHooks \<Rightarrow> 'u machine \<Rightarrow> flow \<times> 'u machine" where
  "parseStep cpu hooks m =
     (let fr = frame m
      in if len m < headerLengthOf fr then (Break, m)
      else let opc = getOpCode fr;
          (invalidCompressedFrame, u) =
            (if rsv1 fr
             then (if opc = 0 \<or> opc > 2 then (True, user m)
                   else let (ok, u) = setCompressed hooks (user m) in (\<not> ok, u))
             else (False, user m));
          m = m\<lparr>user := u\<rparr>
      in if \<not> isMasked fr \<or> invalidCompressedFrame \<or> rsv23 fr \<or> (opc > 2 \<and> opc < 8) \<or> opc > 10 \<or>
            (opc > 2 \<and> (\<not> isFin fr \<or> payloadLength fr > 125))
         then (Return, forced hooks m)
         else if payloadLength fr < 126 then
           returning (consumeMessage cpu hooks (payloadLength fr) SHORT_MESSAGE_HEADER m)
         else if payloadLength fr = 126 then
           (if len m < MEDIUM_MESSAGE_HEADER then (Break, m)
            else let extended = unat (readUint16BE (drop 2 fr))
                 in if extended < 126 then (Return, forced hooks m)
                    else returning (consumeMessage cpu hooks extended MEDIUM_MESSAGE_HEADER m))
         else if len m < LONG_MESSAGE_HEADER then (Break, m)
         else let extended = readUint64BE (drop 2 fr)
              in if extended AND (push_bit 63 1) \<noteq> 0 \<or> unat extended \<le> 65535 then (Return, forced hooks m)
                 else returning (consumeMessage cpu hooks (unat extended) LONG_MESSAGE_HEADER m))"

lemma consumeMessage_len:
  "consumeMessage cpu hooks payLength messageHeader m = (False, m') \<Longrightarrow>
   0 < messageHeader \<Longrightarrow> messageHeader \<le> len m \<Longrightarrow> len m' < len m"
  by (auto simp: consumeMessage_def Let_def split: prod.splits if_splits)

lemma parseStep_len:
  assumes "parseStep cpu hooks m = (Continue, m')" shows "len m' < len m"
proof -
  have r: "len m' < len m" if "returning (consumeMessage cpu hooks k h m0) = (Continue, m')"
      "len m0 = len m" "\<not> len m < h" "0 < h" for k h m0
    using that consumeMessage_len [of cpu hooks k h m0 m']
    by (cases "consumeMessage cpu hooks k h m0") (auto simp: returning_def split: if_splits)
  show ?thesis
    using assms
    by (auto simp: parseStep_def Let_def headerLengthOf_def header_sizes split: prod.splits if_splits
        dest!: r)
qed

text \<open>After the loop: the unread bytes are kept for the next call, in a field of 4 bits.\<close>

definition spillRest :: "'u machine \<Rightarrow> 'u machine" where
  "spillRest m =
     (if len m \<noteq> 0 then
        m\<lparr>ws := (ws m)\<lparr>spill := blit (spill (ws m)) 0 (window (mem m) (src m) (len m)),
                       spillLength := len m mod 16\<rparr>\<rparr>
      else m)"

function parseNext :: "simd \<Rightarrow> 'u WebSocketProtocolHooks \<Rightarrow> 'u machine \<Rightarrow> 'u machine" where
  "parseNext cpu hooks m =
     (if len m \<ge> SHORT_MESSAGE_HEADER then
        (case parseStep cpu hooks m of
           (Continue, m') \<Rightarrow> parseNext cpu hooks m'
         | (Break, m') \<Rightarrow> spillRest m'
         | (Return, m') \<Rightarrow> m')
      else spillRest m)"
  by pat_completeness auto
termination
  by (relation "measure (\<lambda>(cpu, hooks, m). len m)") (auto dest: parseStep_len [OF sym])

declare parseNext.simps [simp del]

definition consume :: "simd \<Rightarrow> 'u WebSocketProtocolHooks \<Rightarrow> 'u machine \<Rightarrow> 'u machine" where
  "consume cpu hooks m =
     (let m = (if spillLength (ws m) \<noteq> 0 then
                 m\<lparr>src := src m - spillLength (ws m),
                   len := (len m + spillLength (ws m)) mod 2 ^ 32,
                   mem := blit (mem m) (src m - spillLength (ws m)) (take (spillLength (ws m)) (spill (ws m)))\<rparr>
               else m)
      in if wantsHead (ws m) then parseNext cpu hooks m
         else let (more, m) = consumeContinuation cpu hooks m
              in if more then parseNext cpu hooks m else m)"

end
