(* ===== verification/Frame_Parser.thy ===== *)
theory Frame_Parser
  imports Consume
begin

text \<open>
  The abstract frame parser: what \<open>WebSocketProtocol::consume\<close> promises, stated on the bytes
  received, with no buffer, no cursor and no bit-fields. A state waits for the rest of a header
  (\<open>Head\<close>) or of a payload (\<open>Body\<close>), or has stopped. The refinement lemma relates it to the code's
  model on the buffer; chunking is then studied on the abstract parser.
\<close>

section \<open>The abstract parser\<close>

datatype phase = Head "byte list" | Body nat "byte list" bool

datatype 'u parser = Running phase bool "OpCode list" 'u | Stopped 'u

definition announced :: "byte list \<Rightarrow> (nat \<times> nat) option" where
  "announced fr =
     (if payloadLength fr < 126 then Some (payloadLength fr, SHORT_MESSAGE_HEADER)
      else if payloadLength fr = 126 then
        (let n = unat (readUint16BE (drop 2 fr)) in if n < 126 then None else Some (n, MEDIUM_MESSAGE_HEADER))
      else let n = unat (readUint64BE (drop 2 fr))
           in if n \<ge> 2 ^ 63 \<or> n \<le> 65535 then None else Some (n, LONG_MESSAGE_HEADER))"

definition badHeader :: "byte list \<Rightarrow> bool" where
  "badHeader fr \<longleftrightarrow>
     \<not> isMasked fr \<or> rsv23 fr \<or> (getOpCode fr > 2 \<and> getOpCode fr < 8) \<or> getOpCode fr > 10 \<or>
     (getOpCode fr > 2 \<and> (\<not> isFin fr \<or> payloadLength fr > 125))"

definition isData :: "OpCode \<Rightarrow> bool" where
  "isData opc \<longleftrightarrow> opc = TEXT \<or> opc = BINARY"

definition claimCompression ::
  "'u WebSocketProtocolHooks \<Rightarrow> byte list \<Rightarrow> 'u \<Rightarrow> bool \<times> 'u" where
  "claimCompression hooks fr u =
     (if \<not> rsv1 fr then (True, u)
      else if isData (getOpCode fr) then setCompressed hooks u else (False, u))"

definition allowed :: "OpCode \<Rightarrow> bool \<Rightarrow> OpCode list \<Rightarrow> bool" where
  "allowed opc frag stack \<longleftrightarrow>
     (isData opc \<longrightarrow> \<not> frag) \<and> (opc = NONE \<longrightarrow> frag \<and> stack \<noteq> []) \<and> (opc \<noteq> NONE \<longrightarrow> length stack < 2)"

text \<open>A complete header: \<open>None\<close> refuses it, else the lengths and the new fragmentation state.\<close>

definition openFrame ::
  "'u WebSocketProtocolHooks \<Rightarrow> byte list \<Rightarrow> bool \<Rightarrow> OpCode list \<Rightarrow> 'u \<Rightarrow>
   (nat \<times> nat \<times> bool \<times> OpCode list) option \<times> 'u" where
  "openFrame hooks fr frag stack u =
     (let (ok, u) = claimCompression hooks fr u
      in if \<not> ok \<or> badHeader fr then (None, forceClose hooks u)
      else case announced fr of
             None \<Rightarrow> (None, forceClose hooks u)
           | Some (n, h) \<Rightarrow>
               let opc = getOpCode fr
               in if \<not> allowed opc frag stack then (None, forceClose hooks u)
               else let (refused, u) = (if opc \<le> BINARY then refusePayloadLength hooks n u else (False, u))
               in if refused then (None, forceClose hooks u)
                  else (Some (n, h,
                     (if isData opc then \<not> isFin fr else if opc = NONE \<and> isFin fr then False else frag),
                     (if opc \<noteq> NONE then opc # stack else stack)), u))"

lemma announced_header: "announced fr = Some (n, h) \<Longrightarrow> h = headerLengthOf fr"
  by (auto simp: announced_def headerLengthOf_def Let_def split: if_splits)

lemma headerLengthOf_pos [simp]: "0 < headerLengthOf fr" "headerLengthOf fr \<noteq> 0"
  by (simp_all add: headerLengthOf_def header_sizes)

lemma openFrame_header: "openFrame hooks fr frag stack u = (Some (n, h, frag', stack'), u') \<Longrightarrow> h = headerLengthOf fr"
  by (auto simp: openFrame_def Let_def announced_header split: option.splits prod.splits if_splits)

definition maskAt :: "byte list \<Rightarrow> nat \<Rightarrow> byte list" where
  "maskAt w h = window w (h - 4) 4"

definition incomplete :: "byte list \<Rightarrow> bool" where
  "incomplete w \<longleftrightarrow> length w < SHORT_MESSAGE_HEADER \<or> length w < headerLengthOf w"

datatype 'u progress = More nat bool "OpCode list" 'u "byte list" | Done "'u parser"

text \<open>The payload behind an accepted header; the unread bytes \<open>w\<close> lie at address \<open>pos\<close>.\<close>

definition afterHeader ::
  "'u WebSocketProtocolHooks \<Rightarrow> nat \<Rightarrow> byte list \<Rightarrow> nat \<Rightarrow> nat \<Rightarrow> bool \<Rightarrow> OpCode list \<Rightarrow> 'u \<Rightarrow> 'u progress" where
  "afterHeader hooks pos w n h frag stack u =
     (let body = drop h w
      in if n \<le> length body then
           (let (stop, u) = handleFragment hooks (pos + h - 4) (xor_from 0 (maskAt w h) (take n body)) 0
                              (hd stack) (isFin w) u
            in if stop then Done (Stopped u)
               else More (pos + (n + h)) frag (if isFin w then tl stack else stack) u (drop n body))
         else
           (let (stop, u) = handleFragment hooks pos (xor_from 0 (maskAt w h) body) (n - length body)
                              (hd stack) (isFin w) u
            in if stop then Done (Stopped u)
               else Done (Running (Body (n - length body)
                      (rotateMask (4 - (length body AND 3)) (maskAt w h)) (isFin w)) frag stack u)))"

definition feedStep ::
  "'u WebSocketProtocolHooks \<Rightarrow> nat \<Rightarrow> bool \<Rightarrow> OpCode list \<Rightarrow> 'u \<Rightarrow> byte list \<Rightarrow> 'u progress" where
  "feedStep hooks pos frag stack u w =
     (if incomplete w then Done (Running (Head w) frag stack u)
      else case openFrame hooks w frag stack u of
        (None, u) \<Rightarrow> Done (Stopped u)
      | (Some (n, h, frag, stack), u) \<Rightarrow> afterHeader hooks pos w n h frag stack u)"

lemma feedStep_less: "feedStep hooks pos frag stack u w = More pos' frag' stack' u' w' \<Longrightarrow> length w' < length w"
  by (auto simp: feedStep_def afterHeader_def Let_def incomplete_def SHORT_MESSAGE_HEADER_def intro!: diff_less
      dest!: openFrame_header split: if_splits prod.splits option.splits)

function feedHead ::
  "'u WebSocketProtocolHooks \<Rightarrow> nat \<Rightarrow> bool \<Rightarrow> OpCode list \<Rightarrow> 'u \<Rightarrow> byte list \<Rightarrow> 'u parser" where
  "feedHead hooks pos frag stack u w =
     (case feedStep hooks pos frag stack u w of
        Done p \<Rightarrow> p
      | More pos frag stack u w \<Rightarrow> feedHead hooks pos frag stack u w)"
  by pat_completeness auto
termination
  by (relation "measure (\<lambda>(hooks, pos, frag, stack, u, w). length w)") (auto dest: feedStep_less)

declare feedHead.simps [simp del]

text \<open>A chunk of input, at address \<open>pos\<close>.\<close>

fun feed :: "'u WebSocketProtocolHooks \<Rightarrow> nat \<Rightarrow> 'u parser \<Rightarrow> byte list \<Rightarrow> 'u parser" where
  "feed hooks pos (Stopped u) bs = Stopped u"
| "feed hooks pos (Running (Head pending) frag stack u) bs =
     feedHead hooks (pos - length pending) frag stack u (pending @ bs)"
| "feed hooks pos (Running (Body r m fin) frag stack u) bs =
     (if r \<le> length bs then
        (let (stop, u) = handleFragment hooks pos (xor_from 0 m (take r bs)) 0 (hd stack) fin u
         in if stop then Stopped u
            else feedHead hooks (pos + r) frag (if fin then tl stack else stack) u (drop r bs))
      else
        (let (stop, u) = handleFragment hooks pos (xor_from 0 m bs) (r - length bs) (hd stack) fin u
         in if stop then Stopped u
            else Running (Body (r - length bs) (rotateMask (4 - (length bs AND 3)) m) fin) frag stack u))"

section \<open>Headers in the buffer\<close>

lemma header_take:
  "6 \<le> n \<Longrightarrow> isFin (take n fr) = isFin fr" "6 \<le> n \<Longrightarrow> isMasked (take n fr) = isMasked fr"
  "6 \<le> n \<Longrightarrow> getOpCode (take n fr) = getOpCode fr" "6 \<le> n \<Longrightarrow> payloadLength (take n fr) = payloadLength fr"
  "6 \<le> n \<Longrightarrow> rsv23 (take n fr) = rsv23 fr" "6 \<le> n \<Longrightarrow> rsv1 (take n fr) = rsv1 fr"
  "6 \<le> n \<Longrightarrow> headerLengthOf (take n fr) = headerLengthOf fr"
  "4 \<le> n \<Longrightarrow> readUint16BE (drop 2 (take n fr)) = readUint16BE (drop 2 fr)"
  "10 \<le> n \<Longrightarrow> readUint64BE (drop 2 (take n fr)) = readUint64BE (drop 2 fr)"
  by (simp_all add: isFin_def isMasked_def getOpCode_def payloadLength_def rsv23_def rsv1_def
      headerLengthOf_def readUint16BE_def readUint64BE_def drop_take min_def)

lemma bit_63: "x AND push_bit 63 1 \<noteq> 0 \<longleftrightarrow> unat (x :: 64 word) \<ge> 2 ^ 63"
proof -
  have "x AND push_bit 63 1 \<noteq> 0 \<longleftrightarrow> bit x 63"
    using and_exp_eq_0_iff_not_bit [of x 63] by (simp only: push_bit_of_1) simp
  also have "\<dots> \<longleftrightarrow> odd (unat x div 2 ^ 63)" 
    using bit_unsigned_iff [of x 63, where ?'a = nat] by (simp add: bit_iff_odd [of "unat x"])
  also have "\<dots> \<longleftrightarrow> unat x \<ge> 2 ^ 63"
  proof -
    have "unat x < 2 ^ 64" using unsigned_less [of x, where ?'a = nat] by simp
    then have "unat x div 2 ^ 63 < 2" by simp
    moreover have "q < 2 \<Longrightarrow> odd q \<longleftrightarrow> q = 1" for q :: nat by (cases q) auto
    ultimately have "odd (unat x div 2 ^ 63) \<longleftrightarrow> unat x div 2 ^ 63 = 1" by blast
    also have "\<dots> \<longleftrightarrow> unat x \<ge> 2 ^ 63" using \<open>unat x < 2 ^ 64\<close> by (simp add: div_bounds)
    finally show ?thesis .
  qed
  finally show ?thesis .
qed

section \<open>The representation\<close>

definition stackOf :: "WebSocketState \<Rightarrow> OpCode list" where
  "stackOf w = rev (take (nat (opStack w + 1)) (opCode w))"

definition shapes :: "WebSocketState \<Rightarrow> bool" where
  "shapes w \<longleftrightarrow> length (spill w) = 13 \<and> length (opCode w) = 2 \<and> length (msk w) = 4 \<and>
     opStack w \<in> {-1, 0, 1} \<and> spillLength w \<le> 13"

definition represents :: "WebSocketState \<Rightarrow> phase \<Rightarrow> bool \<Rightarrow> OpCode list \<Rightarrow> bool" where
  "represents w ph frag stack \<longleftrightarrow>
     shapes w \<and> frag = fragmentedMessage w \<and> stack = stackOf w \<and>
     (case ph of
        Head pending \<Rightarrow> wantsHead w \<and> spillLength w = length pending \<and> take (length pending) (spill w) = pending
      | Body r m fin \<Rightarrow> \<not> wantsHead w \<and> spillLength w = 0 \<and> remainingBytes w = r \<and> 0 < r \<and>
          msk w = m \<and> lastFin w = fin \<and> stack \<noteq> [])"

lemma length_stackOf: "shapes w \<Longrightarrow> length (stackOf w) = nat (opStack w + 1)"
  by (auto simp: shapes_def stackOf_def)

lemma stackOf_simps:
  "shapes w \<Longrightarrow> stackOf w = [] \<longleftrightarrow> opStack w = -1"
  "shapes w \<Longrightarrow> length (stackOf w) < 2 \<longleftrightarrow> opStack w \<noteq> 1"
  by (auto simp flip: length_0_conv simp: length_stackOf) (auto simp: shapes_def)

lemma two_elements: "length xs = 2 \<Longrightarrow> \<exists>a b. xs = [a, b]"
  by (auto simp: numeral_2_eq_2 length_Suc_conv)

lemma hd_stackOf: "shapes w \<Longrightarrow> opStack w \<noteq> -1 \<Longrightarrow> hd (stackOf w) = topOpCode w"
  by (auto simp: shapes_def stackOf_def topOpCode_def dest!: two_elements)

lemma stackOf_push: "shapes w \<Longrightarrow> opStack w \<noteq> 1 \<Longrightarrow> stackOf (pushOpCode opc w) = opc # stackOf w"
  by (auto simp: shapes_def stackOf_def pushOpCode_def dest!: two_elements)

lemma stackOf_pop: "shapes w \<Longrightarrow> opStack w \<noteq> -1 \<Longrightarrow> stackOf (w\<lparr>opStack := opStack w - 1\<rparr>) = tl (stackOf w)"
  by (auto simp: shapes_def stackOf_def dest!: two_elements)

lemma shapes_push: "shapes w \<Longrightarrow> opStack w \<noteq> 1 \<Longrightarrow> shapes (pushOpCode opc w)"
  by (auto simp: shapes_def pushOpCode_def)

lemma shapes_pop: "shapes w \<Longrightarrow> opStack w \<noteq> -1 \<Longrightarrow> shapes (w\<lparr>opStack := opStack w - 1\<rparr>)"
  by (auto simp: shapes_def)

lemma stackOf_update [simp]:
  "stackOf (w\<lparr>lastFin := a\<rparr>) = stackOf w" "stackOf (w\<lparr>fragmentedMessage := b\<rparr>) = stackOf w"
  "stackOf (w\<lparr>spillLength := c\<rparr>) = stackOf w" "stackOf (w\<lparr>wantsHead := b\<rparr>) = stackOf w"
  "stackOf (w\<lparr>remainingBytes := c\<rparr>) = stackOf w" "stackOf (w\<lparr>msk := d\<rparr>) = stackOf w"
  "stackOf (w\<lparr>spill := d\<rparr>) = stackOf w"
  by (simp_all add: stackOf_def)

lemma topOpCode_update [simp]:
  "topOpCode (w\<lparr>lastFin := a\<rparr>) = topOpCode w" "topOpCode (w\<lparr>fragmentedMessage := b\<rparr>) = topOpCode w"
  "topOpCode (w\<lparr>spillLength := c\<rparr>) = topOpCode w" "topOpCode (w\<lparr>wantsHead := b\<rparr>) = topOpCode w"
  "topOpCode (w\<lparr>remainingBytes := c\<rparr>) = topOpCode w" "topOpCode (w\<lparr>msk := d\<rparr>) = topOpCode w"
  "topOpCode (w\<lparr>spill := d\<rparr>) = topOpCode w"
  by (simp_all add: topOpCode_def)

lemma shapes_update [simp]:
  "shapes (w\<lparr>lastFin := a\<rparr>) = shapes w" "shapes (w\<lparr>fragmentedMessage := b\<rparr>) = shapes w"
  "shapes (w\<lparr>wantsHead := b\<rparr>) = shapes w" "shapes (w\<lparr>remainingBytes := c\<rparr>) = shapes w"
  "shapes w \<Longrightarrow> shapes (w\<lparr>spillLength := 0\<rparr>)"
  "shapes w \<Longrightarrow> length d = 4 \<Longrightarrow> shapes (w\<lparr>msk := d\<rparr>)"
  by (simp_all add: shapes_def)

lemma trackFragmentation_simps [simp]:
  "stackOf (trackFragmentation opc fin w) = stackOf w"
  "shapes (trackFragmentation opc fin w) = shapes w"
  "opStack (trackFragmentation opc fin w) = opStack w"
  "wantsHead (trackFragmentation opc fin w) = wantsHead w"
  "spillLength (trackFragmentation opc fin w) = spillLength w"
  by (simp_all add: trackFragmentation_def)

text \<open>The state in which \<open>acceptHeader\<close> leaves the stack and the fragmentation flag.\<close>

definition opened :: "OpCode \<Rightarrow> bool \<Rightarrow> WebSocketState \<Rightarrow> WebSocketState \<Rightarrow> bool" where
  "opened opc fin w w' \<longleftrightarrow> shapes w' \<and> opStack w' \<noteq> -1 \<and>
     stackOf w' = (if opc \<noteq> NONE then opc # stackOf w else stackOf w) \<and>
     fragmentedMessage w' = (if isData opc then \<not> fin else if opc = NONE \<and> fin then False else fragmentedMessage w) \<and>
     lastFin w' = fin \<and> wantsHead w' = wantsHead w \<and> spillLength w' = spillLength w"

lemma acceptHeader_refused:
  "shapes w \<Longrightarrow> \<not> allowed opc (fragmentedMessage w) (stackOf w) \<Longrightarrow>
   \<exists>w'. acceptHeader hooks opc fin n w u = (False, w', u)"
  by (auto simp: acceptHeader_def fragmentationError_def trackFragmentation_def Let_def allowed_def
      isData_def stackOf_simps)

lemma acceptHeader_allowed:
  "shapes w \<Longrightarrow> allowed opc (fragmentedMessage w) (stackOf w) \<Longrightarrow>
   \<exists>w'. opened opc fin w w' \<and>
     acceptHeader hooks opc fin n w u =
      (if opc \<le> BINARY then (let (refused, u) = refusePayloadLength hooks n u in (\<not> refused, w', u)) else (True, w', u))"
proof -
  assume s: "shapes w" and a: "allowed opc (fragmentedMessage w) (stackOf w)"
  let ?w = "(if opc \<noteq> 0 then pushOpCode opc (trackFragmentation opc fin w) else trackFragmentation opc fin w)\<lparr>lastFin := fin\<rparr>"
  have "acceptHeader hooks opc fin n w u =
     (if opc \<le> BINARY then (let (refused, u) = refusePayloadLength hooks n u in (\<not> refused, ?w, u)) else (True, ?w, u))"
    using s a by (auto simp: acceptHeader_def fragmentationError_def Let_def allowed_def isData_def stackOf_simps)
  moreover have "opened opc fin w ?w"
  proof (cases "opc = NONE")
    case True
    then show ?thesis using s a
      by (auto simp: opened_def stackOf_simps allowed_def trackFragmentation_def isData_def)
  next
    case False
    with a s have "opStack w \<noteq> 1" by (simp add: allowed_def stackOf_simps)
    with s have "shapes (pushOpCode opc (trackFragmentation opc fin w))"
      "stackOf (pushOpCode opc (trackFragmentation opc fin w)) = opc # stackOf w"
      "opStack (pushOpCode opc (trackFragmentation opc fin w)) \<noteq> -1"
      by (simp_all add: shapes_push stackOf_push) (auto simp: shapes_def pushOpCode_def)
    moreover have "fragmentedMessage (pushOpCode opc v) = fragmentedMessage v"
      "wantsHead (pushOpCode opc v) = wantsHead v" "spillLength (pushOpCode opc v) = spillLength v" for v
      by (simp_all add: pushOpCode_def)
    ultimately show ?thesis using False
      by (simp add: opened_def) (simp add: trackFragmentation_def isData_def)
  qed
  ultimately show ?thesis by blast
qed

section \<open>The code refines the abstract parser\<close>

definition unread :: "'u machine \<Rightarrow> byte list" where
  "unread m = window (mem m) (src m) (len m)"

definition ready :: "'u machine \<Rightarrow> bool" where
  "ready m \<longleftrightarrow> shapes (ws m) \<and> wantsHead (ws m) \<and> src m + len m \<le> length (mem m) \<and> len m < 2 ^ 32 \<and>
     (len m = 0 \<longrightarrow> spillLength (ws m) = 0)"

definition outcome :: "'u machine \<Rightarrow> 'u parser \<Rightarrow> bool" where
  "outcome m p = (case p of
     Stopped u \<Rightarrow> user m = u
   | Running ph frag stack u \<Rightarrow> user m = u \<and> represents (ws m) ph frag stack)"

definition confined :: "nat \<Rightarrow> nat \<Rightarrow> byte list \<Rightarrow> byte list \<Rightarrow> bool" where
  "confined lo n before after \<longleftrightarrow> length after = length before \<and>
     (\<forall>i < length before. i < lo \<or> lo + n \<le> i \<longrightarrow> after ! i = before ! i)"

definition limited :: "'u WebSocketProtocolHooks \<Rightarrow> bool" where
  "limited hooks \<longleftrightarrow> (\<forall>n u u'. refusePayloadLength hooks n u = (False, u') \<longrightarrow> n < 2 ^ 32)"

definition step_refines :: "'u machine \<Rightarrow> flow \<times> 'u machine \<Rightarrow> 'u progress \<Rightarrow> bool" where
  "step_refines m r pr \<longleftrightarrow> (case r of (fl, m') \<Rightarrow>
     confined (src m) (len m) (mem m) (mem m') \<and>
     (case fl of
        Continue \<Rightarrow> ready m' \<and> src m \<le> src m' \<and> src m' + len m' = src m + len m \<and>
          pr = More (src m') (fragmentedMessage (ws m')) (stackOf (ws m')) (user m') (unread m')
      | Break \<Rightarrow> m' = m \<and> len m \<le> 13 \<and>
          pr = Done (Running (Head (unread m)) (fragmentedMessage (ws m)) (stackOf (ws m)) (user m))
      | Return \<Rightarrow> (\<exists>p. pr = Done p \<and> outcome m' p)))"

lemma confined_refl [simp]: "confined lo n v v"
  by (simp add: confined_def)

lemma confined_trans:
  "confined lo n v v' \<Longrightarrow> confined lo' n' v' v'' \<Longrightarrow> lo \<le> lo' \<Longrightarrow> lo' + n' \<le> lo + n \<Longrightarrow> confined lo n v v''"
  by (auto simp: confined_def)

lemma confined_blit:
  "start + length bs \<le> length v \<Longrightarrow> lo \<le> start \<Longrightarrow> start + length bs \<le> lo + n \<Longrightarrow> confined lo n v (blit v start bs)"
  by (auto simp: confined_def nth_blit)

lemma unread_take: "n + h \<le> len m \<Longrightarrow> take n (drop h (unread m)) = window (mem m) (src m + h) n"
  by (simp add: unread_def window_def drop_take min_def add.commute)

lemma unread_drop: "drop h (unread m) = window (mem m) (src m + h) (len m - h)"
  by (simp add: unread_def window_def drop_take add.commute)

lemma maskAt_unread: "4 \<le> h \<Longrightarrow> h \<le> len m \<Longrightarrow> maskAt (unread m) h = window (mem m) (src m + h - 4) 4"
  by (auto simp: maskAt_def unread_def window_def drop_take min_def add.commute dest!: le_Suc_ex)

lemma window_4: "i + 4 \<le> length v \<Longrightarrow> window v i 4 = [v ! i, v ! (i + 1), v ! (i + 2), v ! (i + 3)]"
  by (simp add: eval_nat_numeral window_Suc)

lemma unmaskImpreciseCopyMask_eq:
  "dst \<le> from \<Longrightarrow> from + n \<le> length v \<Longrightarrow> p + 4 \<le> length v \<Longrightarrow>
   unmaskImpreciseCopyMask t v dst from p n = blit v dst (xor_from 0 (window v p 4) (window v from n))"
  by (simp add: unmaskImpreciseCopyMask_def imprecise.unmask_eq window_4)

lemma frame_update [simp]:
  "frame (m\<lparr>ws := w\<rparr>) = frame m" "frame (m\<lparr>user := u\<rparr>) = frame m" "frame (m\<lparr>mem := v\<rparr>) = drop (src m) v"
  by (simp_all add: frame_def)

lemma isFin_frame: "src m < length (mem m) \<Longrightarrow> src m < start \<Longrightarrow> start + length bs \<le> length (mem m) \<Longrightarrow>
   isFin (drop (src m) (blit (mem m) start bs)) = isFin (frame m)"
  by (simp add: isFin_def frame_def nth_blit)

lemma consumeMessage_refused:
  "acceptHeader hooks (getOpCode (frame m)) (isFin (frame m)) n (ws m) (user m) = (False, w', u') \<Longrightarrow>
   consumeMessage cpu hooks n h m = (True, m\<lparr>ws := w', user := forceClose hooks u'\<rparr>)"
  by (simp add: consumeMessage_def forced_def)

lemma consumeMessage_complete:
  assumes m: "ready m" "6 \<le> h" "h \<le> len m" "n < 2 ^ 32" "n + h \<le> len m"
    and acc: "acceptHeader hooks (getOpCode (frame m)) (isFin (frame m)) n (ws m) (user m) = (True, w', u')"
    and op: "opened (getOpCode (frame m)) (isFin (frame m)) (ws m) w'"
  shows "step_refines m (returning (consumeMessage cpu hooks n h m))
           (afterHeader hooks (src m) (unread m) n h (fragmentedMessage w') (stackOf w') u')"
proof -
  let ?v = "mem m" and ?dat = "src m + h - 4"
  define p where "p = xor_from 0 (maskAt (unread m) h) (window ?v (src m + h) n)"
  define v1 where "v1 = blit ?v ?dat p"
  have b: "src m + len m \<le> length ?v" "length p = n" "length (unread m) = len m"
    using m by (simp_all add: ready_def p_def unread_def)
  have dat: "?dat + n \<le> length ?v" "src m < ?dat" "src m < length ?v" using m b by auto
  have v1: "unmaskImpreciseCopyMask cpu ?v ?dat (src m + h) ?dat n = v1"
    using m b dat by (simp add: unmaskImpreciseCopyMask_eq v1_def p_def maskAt_unread)
  have len1: "length v1 = length ?v" using dat b by (simp add: v1_def)
  have win: "window v1 ?dat n = p" using dat b window_blit_same [of ?dat p ?v] by (simp add: v1_def)
  have fin: "isFin (drop (src m) v1) = isFin (frame m)"
    using dat b isFin_frame [of m ?dat p] by (simp add: v1_def)
  have finw: "isFin (unread m) = isFin (frame m)"
    using m header_take(1) [of "len m" "frame m"] by (simp add: unread_def window_def frame_def)
  have rest: "window v1 (src m + (n + h)) (len m - (n + h)) = drop n (drop h (unread m))"
  proof -
    have "window v1 (src m + (n + h)) (len m - (n + h)) = window ?v (src m + (n + h)) (len m - (n + h))"
      unfolding v1_def using m b dat by (intro window_blit_disjoint) auto
    then show ?thesis by (simp add: unread_def window_def drop_take add.commute add.left_commute)
  qed
  have conf: "confined (src m) (len m) ?v v1"
    unfolding v1_def using m b dat by (intro confined_blit) auto
  obtain stop u2 where h: "handleFragment hooks ?dat p 0 (hd (stackOf w')) (isFin (unread m)) u' = (stop, u2)"
    by (cases "handleFragment hooks ?dat p 0 (hd (stackOf w')) (isFin (unread m)) u'") auto
  have shp: "shapes w'" "opStack w' \<noteq> -1" "wantsHead w'"
    using op m by (auto simp: opened_def ready_def)
  have nl: "n \<le> len m - h" using m(5) by simp
  note top = hd_stackOf [OF shp(1,2), symmetric]
  have "consumeMessage cpu hooks n h m =
      (if stop then (True, m\<lparr>ws := w', user := u2, mem := v1\<rparr>)
       else (False, m\<lparr>src := src m + (n + h), len := len m - (n + h), mem := v1, user := u2,
               ws := (if isFin (frame m) then w'\<lparr>opStack := opStack w' - 1\<rparr> else w')\<lparr>spillLength := 0\<rparr>\<rparr>))"
    using h m(4,5) by (simp add: consumeMessage_def acc v1 win top fin finw Let_def)
  moreover have "afterHeader hooks (src m) (unread m) n h (fragmentedMessage w') (stackOf w') u' =
      (if stop then Done (Stopped u2)
       else More (src m + (n + h)) (fragmentedMessage w')
              (if isFin (frame m) then tl (stackOf w') else stackOf w') u2 (drop n (drop h (unread m))))"
    using h m(5) b nl by (simp add: afterHeader_def unread_take p_def finw Let_def)
  ultimately show ?thesis
    using conf m b len1 shp
    by (auto simp: step_refines_def returning_def outcome_def ready_def shapes_pop stackOf_pop unread_def
        rest [unfolded unread_def])
qed

lemma consumeMessage_incomplete:
  assumes m: "ready m" "6 \<le> h" "h \<le> len m" "n < 2 ^ 32" "len m < n + h"
    and acc: "acceptHeader hooks (getOpCode (frame m)) (isFin (frame m)) n (ws m) (user m) = (True, w', u')"
    and op: "opened (getOpCode (frame m)) (isFin (frame m)) (ws m) w'"
  shows "step_refines m (returning (consumeMessage cpu hooks n h m))
           (afterHeader hooks (src m) (unread m) n h (fragmentedMessage w') (stackOf w') u')"
proof -
  let ?v = "mem m" and ?here = "len m - h"
  define k where "k = maskAt (unread m) h"
  define p where "p = xor_from 0 k (window ?v (src m + h) ?here)"
  define v1 where "v1 = blit ?v (src m) p"
  have b: "src m + len m \<le> length ?v" "length p = ?here" "length (unread m) = len m"
    using m by (simp_all add: ready_def p_def unread_def)
  have k: "window ?v (src m + h - 4) 4 = k" "length k = 4"
    using m b by (simp_all add: k_def maskAt_unread)
  have v1: "unmaskImprecise cpu ?v (src m) (src m + h) k ?here = v1"
    using m b k by (simp add: v1_def p_def imprecise.unmask_eq)
  have win: "window v1 (src m) ?here = p" using m b window_blit_same [of "src m" p ?v] by (simp add: v1_def)
  have finw: "isFin (unread m) = isFin (frame m)"
    using m header_take(1) [of "len m" "frame m"] by (simp add: unread_def window_def frame_def)
  have conf: "confined (src m) (len m) ?v v1"
    unfolding v1_def using m b by (intro confined_blit) auto
  have rem: "(n + h - len m) mod 2 ^ 32 = n + h - len m" "n + h - len m = n - ?here"
    using m by auto
  obtain stop u2 where h: "handleFragment hooks (src m) p (n - ?here) (hd (stackOf w')) (isFin (frame m)) u' = (stop, u2)"
    by (cases "handleFragment hooks (src m) p (n - ?here) (hd (stackOf w')) (isFin (frame m)) u'") auto
  have shp: "shapes w'" "opStack w' \<noteq> -1" "lastFin w' = isFin (frame m)"
    using op m by (auto simp: opened_def ready_def)
  note top = hd_stackOf [OF shp(1,2), symmetric]
  have "consumeMessage cpu hooks n h m =
      (True, m\<lparr>ws := w'\<lparr>spillLength := 0, wantsHead := False, remainingBytes := n - ?here,
                msk := rotateMask (4 - (?here AND 3)) k\<rparr>, mem := v1, user := u2\<rparr>)"
    using h m(4,5) by (simp add: consumeMessage_def acc k v1 win top Let_def rem)
  moreover have "\<not> n \<le> ?here" using m(3,5) by simp
  then have "afterHeader hooks (src m) (unread m) n h (fragmentedMessage w') (stackOf w') u' =
      Done (if stop then Stopped u2
       else Running (Body (n - ?here) (rotateMask (4 - (?here AND 3)) k) (isFin (frame m)))
              (fragmentedMessage w') (stackOf w') u2)"
    using h b by (simp add: afterHeader_def unread_drop [symmetric] p_def finw Let_def k_def)
  ultimately show ?thesis
    using conf m b shp k
    by (auto simp: step_refines_def returning_def outcome_def represents_def stackOf_simps)
qed

lemma opcode_le_2: "(opc :: byte) \<le> 2 \<longleftrightarrow> opc = 0 \<or> opc = 1 \<or> opc = 2"
proof -
  have "unat opc \<le> 2 \<longleftrightarrow> unat opc = 0 \<or> unat opc = 1 \<or> unat opc = 2" by arith
  then show ?thesis by (simp add: word_le_nat_alt word_unat_eq_iff)
qed

lemma compression_opcode: "opc = 0 \<or> 2 < opc \<longleftrightarrow> \<not> isData opc"
  using opcode_le_2 [of opc] by (auto simp: isData_def not_less [symmetric])

lemma unread_header:
  assumes "6 \<le> len m"
  shows "isFin (unread m) = isFin (frame m)" "isMasked (unread m) = isMasked (frame m)"
    "getOpCode (unread m) = getOpCode (frame m)" "payloadLength (unread m) = payloadLength (frame m)"
    "rsv23 (unread m) = rsv23 (frame m)" "rsv1 (unread m) = rsv1 (frame m)"
    "headerLengthOf (unread m) = headerLengthOf (frame m)"
  using assms header_take [of "len m" "frame m"] by (simp_all add: unread_def window_def frame_def)

lemma unread_extended:
  "8 \<le> len m \<Longrightarrow> readUint16BE (drop 2 (unread m)) = readUint16BE (drop 2 (frame m))"
  "14 \<le> len m \<Longrightarrow> readUint64BE (drop 2 (unread m)) = readUint64BE (drop 2 (frame m))"
  using header_take(8,9) [of "len m" "frame m"] by (simp_all add: unread_def window_def frame_def)

lemma announced_small: "announced fr = Some (n, h) \<Longrightarrow> payloadLength fr \<le> 125 \<Longrightarrow> n \<le> 125"
  by (auto simp: announced_def)

lemma returning_stop: "step_refines m (returning (True, m1)) (Done p) \<longleftrightarrow>
    confined (src m) (len m) (mem m) (mem m1) \<and> outcome m1 p"
  by (auto simp: step_refines_def returning_def)

lemma consumeMessage_refines:
  assumes m: "ready m" "6 \<le> len m" "headerLengthOf (frame m) \<le> len m" "limited hooks"
    and hdr: "\<not> badHeader (unread m)" "announced (unread m) = Some (n, h)"
  shows "step_refines m (returning (consumeMessage cpu hooks n h m))
     (let opc = getOpCode (unread m); frag = fragmentedMessage (ws m); stack = stackOf (ws m)
      in if \<not> allowed opc frag stack then Done (Stopped (forceClose hooks (user m)))
         else let (refused, u) = (if opc \<le> BINARY then refusePayloadLength hooks n (user m) else (False, user m))
         in if refused then Done (Stopped (forceClose hooks u))
            else afterHeader hooks (src m) (unread m) n h
              (if isData opc then \<not> isFin (unread m) else if opc = NONE \<and> isFin (unread m) then False else frag)
              (if opc \<noteq> NONE then opc # stack else stack) u)"
proof (cases "allowed (getOpCode (frame m)) (fragmentedMessage (ws m)) (stackOf (ws m))")
  case False
  have "shapes (ws m)" using m by (simp add: ready_def)
  with acceptHeader_refused [OF this False, of hooks "isFin (frame m)" n "user m"] False show ?thesis
    by (auto simp: consumeMessage_refused unread_header [OF m(2)] returning_stop outcome_def)
next
  case True
  let ?opc = "getOpCode (frame m)"
  have sh: "shapes (ws m)" using m by (simp add: ready_def)
  have h: "h = headerLengthOf (frame m)" using announced_header [OF hdr(2)] by (simp add: unread_header [OF m(2)])
  then have h6: "6 \<le> h" "h \<le> len m" using m(3) by (simp_all add: headerLengthOf_def header_sizes)
  obtain w' where op: "opened ?opc (isFin (frame m)) (ws m) w'"
    and acc: "acceptHeader hooks ?opc (isFin (frame m)) n (ws m) (user m) =
       (if ?opc \<le> BINARY then (let (refused, u) = refusePayloadLength hooks n (user m) in (\<not> refused, w', u)) else (True, w', user m))"
    using acceptHeader_allowed [OF sh True, where fin = "isFin (frame m)" and hooks = hooks and n = n and u = "user m"]
    by (elim exE conjE)
  obtain refused u where r: "(if ?opc \<le> BINARY then refusePayloadLength hooks n (user m) else (False, user m)) = (refused, u)"
    by (cases "if ?opc \<le> BINARY then refusePayloadLength hooks n (user m) else (False, user m)") auto
  then have acc': "acceptHeader hooks ?opc (isFin (frame m)) n (ws m) (user m) = (\<not> refused, w', u)"
    using acc by (auto split: if_splits)
  show ?thesis
  proof (cases refused)
    case True
    with acc' r \<open>allowed _ _ _\<close> show ?thesis
      by (simp add: consumeMessage_refused unread_header [OF m(2)] returning_stop outcome_def)
  next
    case False
    have n: "n < 2 ^ 32"
    proof (cases "?opc \<le> BINARY")
      case True
      with r False m(4) show ?thesis unfolding limited_def by auto
    next
      case False
      with hdr(1) have "payloadLength (unread m) \<le> 125"
        by (auto simp: badHeader_def unread_header [OF m(2)] not_le)
      from announced_small [OF hdr(2) this] show ?thesis by simp
    qed
    have acc1: "acceptHeader hooks ?opc (isFin (frame m)) n (ws m) (user m) = (True, w', u)"
      using acc' False by simp
    have "step_refines m (returning (consumeMessage cpu hooks n h m))
           (afterHeader hooks (src m) (unread m) n h (fragmentedMessage w') (stackOf w') u)"
      using consumeMessage_complete [OF m(1) h6 n _ acc1 op]
        consumeMessage_incomplete [OF m(1) h6 n _ acc1 op]
      by (cases "n + h \<le> len m") simp_all
    with False r \<open>allowed _ _ _\<close> op show ?thesis
      unfolding Let_def unread_header [OF m(2)] opened_def by (simp split del: if_split)
  qed
qed

lemma ready_user [simp]: "ready (m\<lparr>user := u\<rparr>) = ready m" "unread (m\<lparr>user := u\<rparr>) = unread m"
  by (simp_all add: ready_def unread_def)

lemma step_refines_user [simp]: "step_refines (m\<lparr>user := u\<rparr>) (returning r) pr = step_refines m (returning r) pr"
  by (auto simp: step_refines_def returning_def)

lemma parseStep_refines:
  assumes m: "ready m" "6 \<le> len m" "limited hooks"
  shows "step_refines m (parseStep cpu hooks m)
           (feedStep hooks (src m) (fragmentedMessage (ws m)) (stackOf (ws m)) (user m) (unread m))"
proof (cases "len m < headerLengthOf (frame m)")
  case True
  have "length (unread m) = len m" using m by (simp add: unread_def ready_def)
  with True show ?thesis
    by (simp add: parseStep_def step_refines_def feedStep_def incomplete_def unread_header [OF m(2)])
      (simp add: headerLengthOf_def header_sizes split: if_splits)
next
  case False
  note hd = unread_header [OF m(2)]
  have ln: "length (unread m) = len m" using m by (simp add: unread_def ready_def)
  then have inc: "\<not> incomplete (unread m)" using False m(2) by (simp add: incomplete_def hd header_sizes)
  obtain ok u where c: "claimCompression hooks (unread m) (user m) = (ok, u)"
    by (cases "claimCompression hooks (unread m) (user m)") auto
  have comp: "(if rsv1 (frame m)
             then (if getOpCode (frame m) = 0 \<or> getOpCode (frame m) > 2 then (True, user m)
                   else let (ok, u) = setCompressed hooks (user m) in (\<not> ok, u))
             else (False, user m)) = (\<not> ok, u)"
    using c by (auto simp: claimCompression_def hd compression_opcode split: prod.splits)
  note comp = comp [unfolded Let_def]
  let ?m = "m\<lparr>user := u\<rparr>"
  show ?thesis
  proof (cases "ok \<and> \<not> badHeader (unread m)")
    case False
    then have bad: "\<not> isMasked (frame m) \<or> \<not> ok \<or> rsv23 (frame m) \<or>
        (getOpCode (frame m) > 2 \<and> getOpCode (frame m) < 8) \<or> getOpCode (frame m) > 10 \<or>
        (getOpCode (frame m) > 2 \<and> (\<not> isFin (frame m) \<or> payloadLength (frame m) > 125))"
      by (auto simp: badHeader_def hd)
    have "parseStep cpu hooks m = (Return, forced hooks ?m)"
      using \<open>\<not> len m < _\<close> bad by (simp only: parseStep_def Let_def comp prod.case if_True if_False)
    with False c inc show ?thesis
      by (auto simp: step_refines_def feedStep_def openFrame_def outcome_def forced_def)
  next
    case True
    then have good: "\<not> (\<not> isMasked (frame m) \<or> \<not> ok \<or> rsv23 (frame m) \<or>
        (getOpCode (frame m) > 2 \<and> getOpCode (frame m) < 8) \<or> getOpCode (frame m) > 10 \<or>
        (getOpCode (frame m) > 2 \<and> (\<not> isFin (frame m) \<or> payloadLength (frame m) > 125)))"
      by (auto simp: badHeader_def hd)
    have "\<not> len ?m < headerLengthOf (frame m)" using \<open>\<not> len m < _\<close> by simp
    then have parse: "parseStep cpu hooks m =
        (if payloadLength (frame m) < 126
         then returning (consumeMessage cpu hooks (payloadLength (frame m)) SHORT_MESSAGE_HEADER ?m)
         else if payloadLength (frame m) = 126 then
           (if len ?m < MEDIUM_MESSAGE_HEADER then (Break, ?m)
            else if unat (readUint16BE (drop 2 (frame m))) < 126 then (Return, forced hooks ?m)
            else returning (consumeMessage cpu hooks (unat (readUint16BE (drop 2 (frame m)))) MEDIUM_MESSAGE_HEADER ?m))
         else if len ?m < LONG_MESSAGE_HEADER then (Break, ?m)
         else if readUint64BE (drop 2 (frame m)) AND push_bit 63 1 \<noteq> 0 \<or> unat (readUint64BE (drop 2 (frame m))) \<le> 65535
         then (Return, forced hooks ?m)
         else returning (consumeMessage cpu hooks (unat (readUint64BE (drop 2 (frame m)))) LONG_MESSAGE_HEADER ?m))"
      using \<open>\<not> len m < _\<close> by (simp only: parseStep_def Let_def comp prod.case good if_False simp_thms)
    consider "payloadLength (frame m) < 126" | "payloadLength (frame m) = 126" "8 \<le> len m"
      | "126 < payloadLength (frame m)" "14 \<le> len m"
      using \<open>\<not> len m < headerLengthOf (frame m)\<close> by (auto simp: headerLengthOf_def header_sizes split: if_splits)
    then have step: "parseStep cpu hooks m =
        (case announced (unread m) of None \<Rightarrow> (Return, forced hooks ?m)
         | Some (n, h) \<Rightarrow> returning (consumeMessage cpu hooks n h ?m))"
    proof cases
      case 1
      then show ?thesis by (simp add: parse announced_def hd)
    next
      case 2
      then show ?thesis by (simp add: parse announced_def hd unread_extended Let_def header_sizes)
    next
      case 3
      then show ?thesis by (simp add: parse announced_def hd unread_extended Let_def header_sizes bit_63 [simplified])
    qed
    show ?thesis
    proof (cases "announced (unread m)")
      case None
      with step True c inc show ?thesis
        by (auto simp: step_refines_def feedStep_def openFrame_def outcome_def forced_def)
    next
      case (Some nh)
      obtain n h where nh: "nh = (n, h)" by (cases nh) auto
      have hl: "headerLengthOf (frame ?m) \<le> len ?m" using \<open>\<not> len m < _\<close> by simp
      let ?R = "let opc = getOpCode (unread m); frag = fragmentedMessage (ws m); stack = stackOf (ws m)
        in if \<not> allowed opc frag stack then Done (Stopped (forceClose hooks u))
           else let (refused, u) = (if opc \<le> BINARY then refusePayloadLength hooks n u else (False, u))
           in if refused then Done (Stopped (forceClose hooks u))
              else afterHeader hooks (src m) (unread m) n h
                (if isData opc then \<not> isFin (unread m) else if opc = NONE \<and> isFin (unread m) then False else frag)
                (if opc \<noteq> NONE then opc # stack else stack) u"
      have "step_refines m (parseStep cpu hooks m) ?R"
        using consumeMessage_refines [of ?m hooks n h cpu, OF _ _ hl m(3)] m True Some nh
        by (simp add: step Let_def cong: if_cong split del: if_split)
      moreover obtain rf u2 where rf: "(if getOpCode (unread m) \<le> BINARY then refusePayloadLength hooks n u else (False, u)) = (rf, u2)"
        by fastforce
      have "feedStep hooks (src m) (fragmentedMessage (ws m)) (stackOf (ws m)) (user m) (unread m) = ?R"
        using Some nh True c inc
        by (cases "allowed (getOpCode (unread m)) (fragmentedMessage (ws m)) (stackOf (ws m))"; cases rf)
          (simp_all add: feedStep_def openFrame_def Let_def rf split del: if_split)
      ultimately show ?thesis by simp
    qed
  qed
qed

lemma spillRest_outcome:
  assumes "ready m" "len m \<le> 13"
  shows "outcome (spillRest m) (Running (Head (unread m)) (fragmentedMessage (ws m)) (stackOf (ws m)) (user m))"
    and "mem (spillRest m) = mem m"
  using assms
  by (auto simp: spillRest_def outcome_def represents_def ready_def unread_def shapes_def blit_def)

lemma incomplete_small: "incomplete w \<Longrightarrow> length w \<le> 13"
  by (auto simp: incomplete_def headerLengthOf_def header_sizes split: if_splits)

lemma parseNext_refines:
  "ready m \<Longrightarrow> limited hooks \<Longrightarrow>
   outcome (parseNext cpu hooks m)
     (feedHead hooks (src m) (fragmentedMessage (ws m)) (stackOf (ws m)) (user m) (unread m)) \<and>
   confined (src m) (len m) (mem m) (mem (parseNext cpu hooks m))"
proof (induction cpu hooks m rule: parseNext.induct)
  case (1 cpu hooks m)
  let ?step = "feedStep hooks (src m) (fragmentedMessage (ws m)) (stackOf (ws m)) (user m) (unread m)"
  show ?case
  proof (cases "6 \<le> len m")
    case False
    have "length (unread m) = len m" using "1.prems" by (simp add: unread_def ready_def)
    with False have "?step = Done (Running (Head (unread m)) (fragmentedMessage (ws m)) (stackOf (ws m)) (user m))"
      by (simp add: feedStep_def incomplete_def header_sizes)
    with False spillRest_outcome [OF "1.prems"(1)] show ?thesis
      by (subst parseNext.simps, subst feedHead.simps) (simp add: parseNext.simps [of cpu hooks m] header_sizes)
  next
    case True
    have step: "step_refines m (parseStep cpu hooks m) ?step"
      using True "1.prems" by (intro parseStep_refines)
    obtain fl m' where fl: "parseStep cpu hooks m = (fl, m')" by (cases "parseStep cpu hooks m")
    show ?thesis
    proof (cases fl)
      case Continue
      then have m': "ready m'" "src m \<le> src m'" "src m' + len m' = src m + len m"
          "?step = More (src m') (fragmentedMessage (ws m')) (stackOf (ws m')) (user m') (unread m')"
          "confined (src m) (len m) (mem m) (mem m')"
        using step fl by (simp_all add: step_refines_def)
      have "parseNext cpu hooks m = parseNext cpu hooks m'"
        using True fl Continue by (subst parseNext.simps) (simp add: header_sizes)
      moreover have "feedHead hooks (src m) (fragmentedMessage (ws m)) (stackOf (ws m)) (user m) (unread m) =
          feedHead hooks (src m') (fragmentedMessage (ws m')) (stackOf (ws m')) (user m') (unread m')"
        by (subst feedHead.simps) (simp add: m'(4))
      moreover note "1.IH" [OF _ fl [symmetric] Continue m'(1) "1.prems"(2)]
      ultimately show ?thesis
        using True m'(2,3) confined_trans [OF m'(5), of "src m'" "len m'"] by (simp add: header_sizes)
    next
      case Break
      with step fl True spillRest_outcome [OF "1.prems"(1)] show ?thesis
        by (subst parseNext.simps, subst feedHead.simps)
          (simp add: step_refines_def header_sizes parseNext.simps [of cpu hooks m])
    next
      case Return
      with step fl True show ?thesis
        by (subst parseNext.simps, subst feedHead.simps)
          (auto simp: step_refines_def header_sizes parseNext.simps [of cpu hooks m])
    qed
  qed
qed


text \<open>The two loops of \<open>consumeContinuation\<close> over a whole number of words and its rest are one.\<close>

lemma continuation_unmask:
  assumes "start + r \<le> length v" "length k = 4"
  shows "unmaskInplaceTail (unmaskInplace cpu v start (start + r div 4 * 4) k) (start + r div 4 * 4)
           (start + r div 4 * 4 + (r AND 3)) k 0 = blit v start (xor_from 0 k (window v start r))"
proof -
  let ?q = "r div 4 * 4"
  have r: "?q + r mod 4 = r" by simp
  have "unmaskInplace cpu v start (start + ?q) k = blit v start (xor_from 0 k (window v start ?q))"
    using assms by (subst unmaskInplace_eq) auto
  moreover have "unmaskInplaceTail v' (start + ?q) (start + ?q + r mod 4) k 0 =
      blit v' (start + ?q) (xor_from 0 k (window v' (start + ?q) (r mod 4)))" if "length v' = length v" for v'
    using assms that r by (subst unmaskInplaceTail_eq) (auto simp: minus_div_mult_eq_mod [symmetric])
  moreover have "xor_from (0 + ?q) k bs = xor_from 0 k bs" for bs by (rule xor_from_mod) simp
  ultimately show ?thesis
    using assms unmask_step [of start start ?q "r mod 4" v 0 k] r by (simp add: and_3_mod)
qed

lemma represents_Body:
  "represents w (Body r k fin) frag stack \<Longrightarrow>
     shapes w \<and> remainingBytes w = r \<and> msk w = k \<and> lastFin w = fin \<and> length k = 4 \<and>
     \<not> wantsHead w \<and> spillLength w = 0 \<and> frag = fragmentedMessage w \<and> stack = stackOf w \<and>
     opStack w \<noteq> -1 \<and> stack \<noteq> []"
proof -
  assume r: "represents w (Body r k fin) frag stack"
  then have "shapes w" "stackOf w \<noteq> []" by (auto simp: represents_def)
  with r show ?thesis using stackOf_simps(1) [of w] by (auto simp: represents_def shapes_def)
qed

lemma continuation_refines:
  assumes m: "represents (ws m) (Body r k fin) frag stack" "src m + len m \<le> length (mem m)" "len m < 2 ^ 32"
    and c: "consumeContinuation cpu hooks m = (again, m')"
  shows "confined (src m) (len m) (mem m) (mem m') \<and>
     (let (stop, u) = handleFragment hooks (src m) (xor_from 0 k (take r (unread m))) (r - len m) (hd stack) fin (user m)
      in if again then \<not> stop \<and> r \<le> len m \<and> ready m' \<and> src m' = src m + r \<and> len m' = len m - r \<and>
              user m' = u \<and> fragmentedMessage (ws m') = frag \<and>
              stackOf (ws m') = (if fin then tl stack else stack) \<and> unread m' = drop r (unread m)
         else if r \<le> len m then stop \<and> user m' = u
         else outcome m' (if stop then Stopped u
           else Running (Body (r - len m) (rotateMask (4 - (len m AND 3)) k) fin) frag stack u))"
proof (cases "r \<le> len m")
  case True
  let ?p = "xor_from 0 k (window (mem m) (src m) r)"
  define v1 where "v1 = blit (mem m) (src m) ?p"
  have w: "shapes (ws m)" "remainingBytes (ws m) = r" "msk (ws m) = k" "lastFin (ws m) = fin" "length k = 4"
      "\<not> wantsHead (ws m)" "spillLength (ws m) = 0" "frag = fragmentedMessage (ws m)" "stack = stackOf (ws m)"
      "opStack (ws m) \<noteq> -1"
    using represents_Body [OF m(1)] by auto
  have v1: "length v1 = length (mem m)" "window v1 (src m) r = ?p" "confined (src m) (len m) (mem m) v1"
    using True m w window_blit_same [of "src m" ?p "mem m"] by (auto simp: v1_def intro!: confined_blit)
  have rest: "window v1 (src m + r) (len m - r) = drop r (unread m)"
    using True m unfolding v1_def unread_drop by (intro window_blit_disjoint) auto
  have pre: "take r (unread m) = window (mem m) (src m) r"
    using True by (simp add: unread_def window_def min_def)
  obtain stop u where h: "handleFragment hooks (src m) ?p 0 (hd stack) fin (user m) = (stop, u)"
    by (cases "handleFragment hooks (src m) ?p 0 (hd stack) fin (user m)") auto
  have unm: "unmaskInplaceTail (unmaskInplace cpu (mem m) (src m) (src m + r div 4 * 4) k) (src m + r div 4 * 4)
           (src m + r div 4 * 4 + (r AND 3)) k 0 = v1"
    using True m w by (simp add: continuation_unmask v1_def)
  have "consumeContinuation cpu hooks m =
     (if stop then (False, m\<lparr>mem := v1, user := u\<rparr>)
      else (True, m\<lparr>mem := v1, user := u, src := src m + r, len := len m - r,
        ws := (if fin then (ws m)\<lparr>opStack := opStack (ws m) - 1\<rparr> else ws m)\<lparr>wantsHead := True\<rparr>\<rparr>))"
    using True h hd_stackOf [OF w(1,10)] w
    by (simp add: consumeContinuation_def Let_def unm v1)
  then have "again = (\<not> stop)" and m': "m' = (if stop then m\<lparr>mem := v1, user := u\<rparr> else
      m\<lparr>mem := v1, user := u, src := src m + r, len := len m - r,
        ws := (if fin then (ws m)\<lparr>opStack := opStack (ws m) - 1\<rparr> else ws m)\<lparr>wantsHead := True\<rparr>\<rparr>)"
    using c by auto
  then show ?thesis
    using True h v1 rest pre m(2,3) w(1,7,8,9,10)
    by (cases stop) (simp_all add: ready_def shapes_pop stackOf_pop unread_def)
next
  case False
  let ?p = "xor_from 0 k (unread m)"
  define v1 where "v1 = blit (mem m) (src m) ?p"
  have w: "shapes (ws m)" "remainingBytes (ws m) = r" "msk (ws m) = k" "lastFin (ws m) = fin" "length k = 4"
      "\<not> wantsHead (ws m)" "spillLength (ws m) = 0" "frag = fragmentedMessage (ws m)" "stack = stackOf (ws m)"
      "opStack (ws m) \<noteq> -1" "stack \<noteq> []"
    using represents_Body [OF m(1)] by auto
  have ln: "length (unread m) = len m" "take r (unread m) = unread m"
    using False m by (auto simp: unread_def)
  have v1: "length v1 = length (mem m)" "window v1 (src m) (len m) = ?p" "confined (src m) (len m) (mem m) v1"
    using False m ln window_blit_same [of "src m" ?p "mem m"] by (auto simp: v1_def intro!: confined_blit)
  have unm: "unmaskInplace cpu (mem m) (src m) (src m + len m) k = v1"
    using m w by (simp add: unmaskInplace_eq v1_def unread_def)
  obtain stop u where h: "handleFragment hooks (src m) ?p (r - len m) (hd stack) fin (user m) = (stop, u)"
    by (cases "handleFragment hooks (src m) ?p (r - len m) (hd stack) fin (user m)") auto
  have rot: "rotateMask (4 - (len m AND 3)) k = k" if "len m AND 3 = 0"
    using rotateMask_id [OF w(5), of "len m"] that by (simp add: and_3_mod)
  have "consumeContinuation cpu hooks m =
     (False, m\<lparr>mem := v1, user := u,
        ws := (ws m)\<lparr>remainingBytes := r - len m,
          msk := if stop then k else rotateMask (4 - (len m AND 3)) k\<rparr>\<rparr>)"
    using False h hd_stackOf [OF w(1,10)] w rot
    by (auto simp add: consumeContinuation_def Let_def unm v1)
  then show ?thesis
    using c False h v1 m w ln
    by (auto simp: outcome_def represents_def)
qed


text \<open>
  The precondition of \<open>consume\<close>: the state represents an abstract one, the input lies in the buffer,
  the spilled bytes fit in front of it, and the lengths fit \<open>unsigned int\<close>.
\<close>

definition consumable :: "'u machine \<Rightarrow> phase \<Rightarrow> bool \<Rightarrow> OpCode list \<Rightarrow> bool" where
  "consumable m ph frag stack \<longleftrightarrow>
     represents (ws m) ph frag stack \<and> src m + len m \<le> length (mem m) \<and>
     spillLength (ws m) \<le> src m \<and> len m + spillLength (ws m) < 2 ^ 32"

lemma consume_refines:
  assumes "consumable m ph frag stack" "limited hooks"
  shows "outcome (consume cpu hooks m) (feed hooks (src m) (Running ph frag stack (user m)) (unread m)) \<and>
     confined (src m - spillLength (ws m)) (spillLength (ws m) + len m) (mem m) (mem (consume cpu hooks m))"
proof (cases ph)
  case (Head pending)
  let ?n = "length pending"
  let ?v = "blit (mem m) (src m - ?n) pending"
  let ?m = "m\<lparr>src := src m - ?n, len := len m + ?n, mem := ?v\<rparr>"
  have r: "shapes (ws m)" "wantsHead (ws m)" "spillLength (ws m) = ?n" "take ?n (spill (ws m)) = pending"
      "frag = fragmentedMessage (ws m)" "stack = stackOf (ws m)"
    and b: "src m + len m \<le> length (mem m)" "?n \<le> src m" "len m + ?n < 2 ^ 32"
    using assms(1) Head by (auto simp: consumable_def represents_def)
  have "consume cpu hooks m = parseNext cpu hooks ?m"
    using r b by (cases "?n = 0") (simp_all add: consume_def Let_def)
  moreover have "unread ?m = pending @ unread m"
  proof -
    have "window ?v (src m) (len m) = window (mem m) (src m) (len m)"
      using b by (intro window_blit_disjoint) auto
    with b window_append [of ?v "src m - ?n" ?n "len m"] window_blit_same [of "src m - ?n" pending "mem m"]
    show ?thesis by (simp add: unread_def add.commute)
  qed
  moreover have "ready ?m" using r b by (auto simp: ready_def)
  moreover have "confined (src m - ?n) (?n + len m) (mem m) ?v"
    using b by (intro confined_blit) auto
  ultimately show ?thesis
    using parseNext_refines [of ?m hooks cpu] assms(2) r b confined_trans [of "src m - ?n" "?n + len m" "mem m" ?v "src m - ?n" "?n + len m"]
    by (simp add: Head add.commute)
next
  case (Body q k fin)
  have rep: "represents (ws m) (Body q k fin) frag stack" "src m + len m \<le> length (mem m)" "len m < 2 ^ 32"
    using assms(1) Body by (auto simp: consumable_def)
  note w = represents_Body [OF rep(1)]
  obtain again m' where c: "consumeContinuation cpu hooks m = (again, m')"
    by (cases "consumeContinuation cpu hooks m")
  obtain stop u where h: "handleFragment hooks (src m) (xor_from 0 k (take q (unread m))) (q - len m) (hd stack) fin (user m) = (stop, u)"
    by (cases "handleFragment hooks (src m) (xor_from 0 k (take q (unread m))) (q - len m) (hd stack) fin (user m)")
  note ref = continuation_refines [OF rep c, unfolded Let_def h prod.case]
  have cons: "consume cpu hooks m = (if again then parseNext cpu hooks m' else m')"
    using w c by (simp add: consume_def)
  have ln: "length (unread m) = len m" using rep(2) by (simp add: unread_def)
  show ?thesis
  proof (cases again)
    case True
    with ref have r: "ready m'" "q \<le> len m" "\<not> stop" "src m' = src m + q" "len m' = len m - q" "user m' = u"
        "fragmentedMessage (ws m') = frag" "stackOf (ws m') = (if fin then tl stack else stack)"
        "unread m' = drop q (unread m)" "confined (src m) (len m) (mem m) (mem m')"
      by simp_all
    have "confined (src m) (len m) (mem m) (mem (parseNext cpu hooks m'))"
      using parseNext_refines [OF r(1) assms(2), of cpu] r by (intro confined_trans [OF r(10), of "src m'" "len m'"]) auto
    then show ?thesis
      using parseNext_refines [OF r(1) assms(2), of cpu] r True h w by (cases fin) (simp_all add: cons Body ln)
  next
    case False
    then show ?thesis using ref h w by (cases "q \<le> len m") (auto simp: cons Body ln outcome_def)
  qed
qed


end
