(* ===== verification/Chunking.thy ===== *)
theory Chunking
  imports Frame_Parser
begin

text \<open>
  Chunk independence of the abstract parser: how the bytes are cut into reads does not matter. What
  the parser needs of the object behind the hooks is the locale \<open>fragment_sink\<close>; the object of the
  repository is \<open>StreamWebSocket\<close>.
\<close>

section \<open>The stack of open frames\<close>

definition stack_ok :: "bool \<Rightarrow> OpCode list \<Rightarrow> bool" where
  "stack_ok frag stack \<longleftrightarrow> (if frag then length stack = 1 \<and> isData (hd stack) else stack = [])"

definition body_ok :: "bool \<Rightarrow> bool \<Rightarrow> OpCode list \<Rightarrow> bool" where
  "body_ok fin frag stack \<longleftrightarrow> stack \<noteq> [] \<and>
     (if isData (hd stack) then tl stack = [] \<and> frag = (\<not> fin) else fin \<and> stack_ok frag (tl stack))"

lemma body_ok_close: "body_ok fin frag stack \<Longrightarrow> stack_ok frag (if fin then tl stack else stack)"
  by (cases stack) (auto simp: body_ok_def stack_ok_def split: if_splits)

lemma openFrame_stack:
  assumes "openFrame hooks w frag stack u = (Some (n, h, frag', stack'), u')" "stack_ok frag stack"
  shows "body_ok (isFin w) frag' stack'"
proof -
  have opc: "\<not> isData (getOpCode w) \<Longrightarrow> getOpCode w \<noteq> NONE \<Longrightarrow> \<not> badHeader w \<Longrightarrow> isFin w"
    using compression_opcode [of "getOpCode w"] by (auto simp: badHeader_def)
  have none: "\<not> isData NONE" by (simp add: isData_def)
  show ?thesis using assms opc none
    by (auto simp: openFrame_def Let_def body_ok_def stack_ok_def allowed_def length_Suc_conv
        split: option.splits prod.splits if_splits)
qed

section \<open>The payload of a frame\<close>

text \<open>The payload phase, which a header opens and a later read resumes.\<close>

definition bodyStep ::
  "'u WebSocketProtocolHooks \<Rightarrow> nat \<Rightarrow> bool \<Rightarrow> OpCode list \<Rightarrow> 'u \<Rightarrow> nat \<Rightarrow> byte list \<Rightarrow> bool \<Rightarrow> byte list \<Rightarrow> 'u progress" where
  "bodyStep hooks pos frag stack u r m fin bs =
     (let (stop, u) = handleFragment hooks pos (xor_from 0 m (take r bs)) (r - length bs) (hd stack) fin u
      in if stop then Done (Stopped u)
         else if r \<le> length bs then More (pos + r) frag (if fin then tl stack else stack) u (drop r bs)
         else Done (Running (Body (r - length bs) (rotateMask (4 - (length bs AND 3)) m) fin) frag stack u))"

fun run :: "'u WebSocketProtocolHooks \<Rightarrow> 'u progress \<Rightarrow> 'u parser" where
  "run hooks (Done p) = p"
| "run hooks (More pos frag stack u w) = feedHead hooks pos frag stack u w"

lemma feedHead_run: "feedHead hooks pos frag stack u w = run hooks (feedStep hooks pos frag stack u w)"
  by (subst feedHead.simps) (simp split: progress.split)

lemma feed_Body: "feed hooks pos (Running (Body r m fin) frag stack u) bs =
   run hooks (bodyStep hooks pos frag stack u r m fin bs)"
  by (auto simp: bodyStep_def split: prod.splits)

text \<open>More bytes \<open>b\<close> after a payload step.\<close>

fun continued :: "'u WebSocketProtocolHooks \<Rightarrow> nat \<Rightarrow> 'u progress \<Rightarrow> byte list \<Rightarrow> 'u progress" where
  "continued hooks pos (More p frag stack u w) b = More p frag stack u (w @ b)"
| "continued hooks pos (Done (Stopped u)) b = Done (Stopped u)"
| "continued hooks pos (Done (Running (Body r m fin) frag stack u)) b = bodyStep hooks pos frag stack u r m fin b"
| "continued hooks pos (Done (Running (Head w) frag stack u)) b = More (pos - length w) frag stack u (w @ b)"

lemma rotate_rotate:
  assumes "length m = 4"
  shows "rotateMask (4 - ((i + j) AND 3)) m = rotateMask (4 - (j AND 3)) (rotateMask (4 - (i AND 3)) m)"
  by (rule nth_equalityI) (use assms in \<open>simp_all add: and_3_mod nth_rotateMask mod_add_right_eq add.assoc\<close>)

lemma incomplete_append: "\<not> incomplete w \<Longrightarrow> \<not> incomplete (w @ b)"
  and openFrame_append: "\<not> incomplete w \<Longrightarrow> openFrame hooks (w @ b) frag stack u = openFrame hooks w frag stack u"
  and isFin_append: "\<not> incomplete w \<Longrightarrow> isFin (w @ b) = isFin w"
proof -
  assume w: "\<not> incomplete w"
  then have l: "6 \<le> length w" "headerLengthOf w \<le> length w" by (simp_all add: incomplete_def header_sizes)
  note h = header_take [of "length w" "w @ b", simplified]
  show "isFin (w @ b) = isFin w" using h(1) l by simp
  show "\<not> incomplete (w @ b)" using h(7) l by (simp add: incomplete_def header_sizes)
  have "announced (w @ b) = announced w"
  proof -
    have "payloadLength w \<noteq> 126 \<Longrightarrow> \<not> payloadLength w < 126 \<Longrightarrow> 10 \<le> length w"
      using l(2) by (simp add: headerLengthOf_def header_sizes)
    then show ?thesis using h(4,8,9) l by (simp add: announced_def)
  qed
  then show "openFrame hooks (w @ b) frag stack u = openFrame hooks w frag stack u"
    unfolding openFrame_def claimCompression_def badHeader_def
    by (simp only: h(1-6) [OF l(1), symmetric])
qed

lemma maskAt_append: "h \<le> length w \<Longrightarrow> 4 \<le> h \<Longrightarrow> maskAt (w @ b) h = maskAt w h"
  by (simp add: maskAt_def window_def)

lemma length_maskAt: "h \<le> length w \<Longrightarrow> 4 \<le> h \<Longrightarrow> length (maskAt w h) = 4"
  by (simp add: maskAt_def)

section \<open>What the parser needs of the object behind the hooks\<close>

definition agree :: "('u \<Rightarrow> 'c) \<Rightarrow> 'a \<times> 'u \<Rightarrow> 'a \<times> 'u \<Rightarrow> bool" where
  "agree c r r' \<longleftrightarrow> fst r = fst r' \<and> c (snd r) = c (snd r')"

lemma agreeD: "agree c r r' \<Longrightarrow> r = (b, u) \<Longrightarrow> \<exists>u'. r' = (b, u') \<and> c u = c u'"
  by (cases r') (auto simp: agree_def)

text \<open>
  \<open>canon\<close> is what can be observed of a state, \<open>alive\<close> that it has not stopped, \<open>idle\<close> that no control
  frame is half received, and \<open>admits op n\<close> that \<open>n\<close> more bytes of the current frame are within limits.
\<close>

locale fragment_sink =
  fixes hooks :: "'r \<Rightarrow> 'u WebSocketProtocolHooks"
    and canon :: "'u \<Rightarrow> 'c"
    and alive :: "'u \<Rightarrow> bool"
    and idle :: "'u \<Rightarrow> bool"
    and admits :: "OpCode \<Rightarrow> nat \<Rightarrow> 'u \<Rightarrow> bool"
  assumes canon_alive: "canon u = canon v \<Longrightarrow> alive u = alive v"
    and canon_idle: "alive u \<Longrightarrow> canon u = canon v \<Longrightarrow> idle u = idle v"
    and canon_admits: "alive u \<Longrightarrow> canon u = canon v \<Longrightarrow> admits opc n u = admits opc n v"
    and compressed_agree: "alive u \<Longrightarrow> canon u = canon v \<Longrightarrow> agree canon (setCompressed (hooks ra) u) (setCompressed (hooks rb) v)"
    and compressed_keeps: "alive u \<Longrightarrow> idle u \<Longrightarrow> setCompressed (hooks ra) u = (b, u') \<Longrightarrow> alive u' \<and> idle u'"
    and refuse_agree: "alive u \<Longrightarrow> canon u = canon v \<Longrightarrow>
          agree canon (refusePayloadLength (hooks ra) n u) (refusePayloadLength (hooks rb) n v)"
    and refuse_keeps: "alive u \<Longrightarrow> idle u \<Longrightarrow> refusePayloadLength (hooks ra) n u = (b, u') \<Longrightarrow> alive u' \<and> (b \<or> idle u')"
    and refuse_admits: "alive u \<Longrightarrow> idle u \<Longrightarrow> refusePayloadLength (hooks ra) n u = (False, u') \<Longrightarrow> isData opc \<Longrightarrow>
          admits opc n u'"
    and control_admits: "alive u \<Longrightarrow> idle u \<Longrightarrow> n \<le> 125 \<Longrightarrow> \<not> isData opc \<Longrightarrow> opc \<noteq> NONE \<Longrightarrow> admits opc n u"
    and force_agree: "alive u \<Longrightarrow> canon u = canon v \<Longrightarrow> canon (forceClose (hooks ra) u) = canon (forceClose (hooks rb) v)"
    and handle_agree: "alive u \<Longrightarrow> admits opc (length d + r) u \<Longrightarrow> canon u = canon v \<Longrightarrow>
          agree canon (handleFragment (hooks ra) p d r opc fin u) (handleFragment (hooks rb) q d r opc fin v)"
    and handle_alive: "alive u \<Longrightarrow> handleFragment (hooks ra) p d r opc fin u = (False, u') \<Longrightarrow> alive u'"
    and handle_admits: "alive u \<Longrightarrow> admits opc (length d + r) u \<Longrightarrow> 0 < r \<Longrightarrow>
          handleFragment (hooks ra) p d r opc fin u = (False, u') \<Longrightarrow> admits opc r u'"
    and handle_idle: "alive u \<Longrightarrow> admits opc (length d) u \<Longrightarrow> isData opc \<or> fin \<Longrightarrow>
          handleFragment (hooks ra) p d 0 opc fin u = (False, u') \<Longrightarrow> idle u'"
    and handle_split: "alive u \<Longrightarrow> admits opc (length d + length e + r) u \<Longrightarrow> 0 < length e + r \<Longrightarrow>
          handleFragment (hooks ra) p d (length e + r) opc fin u = (stop, u') \<Longrightarrow>
          agree canon (handleFragment (hooks rb) q (d @ e) r opc fin u)
            (if stop then (True, u') else handleFragment (hooks rc) p' e r opc fin u')"
begin

definition same_parser :: "'u parser \<Rightarrow> 'u parser \<Rightarrow> bool" where
  "same_parser p q \<longleftrightarrow> (case (p, q) of
     (Stopped u, Stopped v) \<Rightarrow> canon u = canon v
   | (Running ph frag stack u, Running ph' frag' stack' v) \<Rightarrow>
       ph = ph' \<and> frag = frag' \<and> stack = stack' \<and> canon u = canon v
   | _ \<Rightarrow> False)"

definition parser_ok :: "'u parser \<Rightarrow> bool" where
  "parser_ok p \<longleftrightarrow> (case p of
     Stopped u \<Rightarrow> True
   | Running (Head w) frag stack u \<Rightarrow> alive u \<and> idle u \<and> stack_ok frag stack
   | Running (Body r m fin) frag stack u \<Rightarrow>
       alive u \<and> 0 < r \<and> length m = 4 \<and> admits (hd stack) r u \<and> body_ok fin frag stack)"

definition same_progress :: "'u progress \<Rightarrow> 'u progress \<Rightarrow> bool" where
  "same_progress p q \<longleftrightarrow> (case (p, q) of
     (Done p, Done q) \<Rightarrow> same_parser p q
   | (More _ frag stack u w, More _ frag' stack' v w') \<Rightarrow>
       frag = frag' \<and> stack = stack' \<and> w = w' \<and> canon u = canon v
   | _ \<Rightarrow> False)"

definition progress_ok :: "'u progress \<Rightarrow> bool" where
  "progress_ok p \<longleftrightarrow> (case p of
     Done p \<Rightarrow> parser_ok p
   | More _ frag stack u w \<Rightarrow> alive u \<and> idle u \<and> stack_ok frag stack)"

lemma same_parser_simps [simp]:
  "same_parser (Stopped u) (Stopped v) \<longleftrightarrow> canon u = canon v"
  "same_parser (Running ph frag stack u) (Running ph' frag' stack' v) \<longleftrightarrow>
     ph = ph' \<and> frag = frag' \<and> stack = stack' \<and> canon u = canon v"
  "\<not> same_parser (Stopped u) (Running ph frag stack v)"
  "\<not> same_parser (Running ph frag stack v) (Stopped u)"
  by (simp_all add: same_parser_def)

lemma same_progress_simps [simp]:
  "same_progress (Done p) (Done q) \<longleftrightarrow> same_parser p q"
  "same_progress (More pos frag stack u w) (More pos' frag' stack' v w') \<longleftrightarrow>
     frag = frag' \<and> stack = stack' \<and> w = w' \<and> canon u = canon v"
  "\<not> same_progress (Done p) (More pos frag stack u w)"
  "\<not> same_progress (More pos frag stack u w) (Done p)"
  by (simp_all add: same_progress_def)

lemma same_parser_trans: "same_parser p q \<Longrightarrow> same_parser q r \<Longrightarrow> same_parser p r"
  by (auto simp: same_parser_def split: parser.splits)

lemma same_parser_sym: "same_parser p q \<Longrightarrow> same_parser q p"
  by (auto simp: same_parser_def split: parser.splits)

lemma same_parser_refl [simp]: "same_parser p p"
  by (cases p) simp_all

lemma same_progress_refl [simp]: "same_progress p p"
  by (cases p) simp_all

lemma bodyStep_agree:
  assumes "alive u" "admits (hd stack) r u" "canon u = canon v"
  shows "same_progress (bodyStep (hooks ra) pos frag stack u r m fin bs) (bodyStep (hooks rb) pos' frag stack v r m fin bs)"
proof -
  have "length (xor_from 0 m (take r bs)) + (r - length bs) = r" by simp
  with assms(2) have "agree canon
      (handleFragment (hooks ra) pos (xor_from 0 m (take r bs)) (r - length bs) (hd stack) fin u)
      (handleFragment (hooks rb) pos' (xor_from 0 m (take r bs)) (r - length bs) (hd stack) fin v)"
    using assms by (intro handle_agree) simp_all
  then show ?thesis
    by (cases "handleFragment (hooks ra) pos (xor_from 0 m (take r bs)) (r - length bs) (hd stack) fin u";
        cases "handleFragment (hooks rb) pos' (xor_from 0 m (take r bs)) (r - length bs) (hd stack) fin v")
      (simp add: bodyStep_def agree_def)
qed

lemma bodyStep_ok:
  assumes "alive u" "admits (hd stack) r u" "body_ok fin frag stack" "length m = 4"
  shows "progress_ok (bodyStep (hooks ra) pos frag stack u r m fin bs)"
proof -
  have opc: "isData (hd stack) \<or> fin" using assms(3) by (auto simp: body_ok_def split: if_splits)
  obtain stop u' where h: "handleFragment (hooks ra) pos (xor_from 0 m (take r bs)) (r - length bs) (hd stack) fin u = (stop, u')"
    by (cases "handleFragment (hooks ra) pos (xor_from 0 m (take r bs)) (r - length bs) (hd stack) fin u")
  show ?thesis
  proof (cases stop)
    case True
    then show ?thesis by (simp add: bodyStep_def h progress_ok_def parser_ok_def)
  next
    case False
    with h assms have a: "alive u'" by (auto dest: handle_alive)
    show ?thesis
    proof (cases "r \<le> length bs")
      case True
      with False h assms opc have "idle u'"
        using handle_idle [of u "hd stack" "xor_from 0 m (take r bs)" fin ra pos u'] by simp
      with a True False h body_ok_close [OF assms(3)] show ?thesis
        by (simp add: bodyStep_def progress_ok_def)
    next
      case False
      with \<open>\<not> stop\<close> h assms have "admits (hd stack) (r - length bs) u'"
        using handle_admits [of u "hd stack" "xor_from 0 m (take r bs)" "r - length bs" ra pos fin u'] by simp
      with a False h assms \<open>\<not> stop\<close> show ?thesis
        by (simp add: bodyStep_def progress_ok_def parser_ok_def)
    qed
  qed
qed

lemma openFrame_ok:
  assumes "alive u" "idle u" "stack_ok frag stack"
    and o: "openFrame (hooks ra) w frag stack u = (Some (n, h, frag', stack'), u')"
  shows "alive u' \<and> admits (hd stack') n u' \<and> body_ok (isFin w) frag' stack'"
proof -
  obtain ok u1 where c: "claimCompression (hooks ra) w u = (ok, u1)" by (cases "claimCompression (hooks ra) w u")
  then have u1: "alive u1" "idle u1"
    using assms(1,2) compressed_keeps [of u ra ok u1]
    by (auto simp: claimCompression_def split: if_splits)
  let ?opc = "getOpCode w"
  from o c have ann: "announced w = Some (n, h)" and bad: "\<not> badHeader w"
    and all: "allowed ?opc frag stack"
    and st: "stack' = (if ?opc \<noteq> NONE then ?opc # stack else stack)"
    and r: "(if ?opc \<le> BINARY then refusePayloadLength (hooks ra) n u1 else (False, u1)) = (False, u')"
    by (auto simp: openFrame_def Let_def split: if_splits option.splits prod.splits)
  have b: "body_ok (isFin w) frag' stack'" by (rule openFrame_stack [OF o assms(3)])
  show ?thesis
  proof (cases "?opc \<le> BINARY")
    case True
    then have rr: "refusePayloadLength (hooks ra) n u1 = (False, u')" using r by simp
    have "isData (hd stack')"
      using True st all assms(3) by (auto simp: opcode_le_2 isData_def allowed_def stack_ok_def split: if_splits)
    with refuse_admits [OF u1 rr] refuse_keeps [OF u1 rr] b show ?thesis by blast
  next
    case False
    then have "u' = u1" "\<not> isData ?opc" "?opc \<noteq> NONE" using r compression_opcode [of ?opc] by auto
    moreover have "n \<le> 125"
      using announced_small [OF ann] bad False by (auto simp: badHeader_def not_le)
    ultimately show ?thesis using control_admits [OF u1] u1 b st by simp
  qed
qed

lemma claimCompression_agree:
  "alive u \<Longrightarrow> canon u = canon v \<Longrightarrow> agree canon (claimCompression (hooks ra) w u) (claimCompression (hooks rb) w v)"
  by (simp add: claimCompression_def compressed_agree) (simp add: agree_def)

lemma claimCompression_keeps:
  "alive u \<Longrightarrow> idle u \<Longrightarrow> claimCompression (hooks ra) w u = (ok, u') \<Longrightarrow> alive u' \<and> idle u'"
  using compressed_keeps [of u ra ok u'] by (auto simp: claimCompression_def split: if_splits)

lemma openFrame_agree:
  assumes "alive u" "idle u" "canon u = canon v"
  shows "agree canon (openFrame (hooks ra) w frag stack u) (openFrame (hooks rb) w frag stack v)"
proof -
  obtain ok u1 where c: "claimCompression (hooks ra) w u = (ok, u1)" by (cases "claimCompression (hooks ra) w u")
  then obtain v1 where c': "claimCompression (hooks rb) w v = (ok, v1)" "canon u1 = canon v1"
    using agreeD [OF claimCompression_agree [OF assms(1,3)] c] by blast
  have k: "alive u1" "idle u1" using claimCompression_keeps [OF assms(1,2) c] by simp_all
  let ?opc = "getOpCode w"
  have rf: "agree canon (if ?opc \<le> BINARY then refusePayloadLength (hooks ra) n u1 else (False, u1))
      (if ?opc \<le> BINARY then refusePayloadLength (hooks rb) n v1 else (False, v1))" for n
    using k c' refuse_agree [of u1 v1 ra n rb] by (simp add: agree_def)
  show ?thesis
  proof (cases "\<not> ok \<or> badHeader w \<or> announced w = None \<or> \<not> allowed ?opc frag stack")
    case True
    then show ?thesis
      using c c' k force_agree [of u1 v1 ra rb] by (auto simp: openFrame_def agree_def split: option.split)
  next
    case False
    then obtain n h where ann: "announced w = Some (n, h)" by auto
    obtain r u2 where r: "(if ?opc \<le> BINARY then refusePayloadLength (hooks ra) n u1 else (False, u1)) = (r, u2)"
      by fastforce
    then obtain v2 where r': "(if ?opc \<le> BINARY then refusePayloadLength (hooks rb) n v1 else (False, v1)) = (r, v2)"
        "canon u2 = canon v2"
      using agreeD [OF rf r] by blast
    have "alive u2" using r k refuse_keeps [of u1 ra n r u2] by (auto split: if_splits)
    then show ?thesis
      using False ann c c' r r' force_agree [of u2 v2 ra rb]
      by (simp add: openFrame_def agree_def Let_def split del: if_split) (simp split: if_split)
  qed
qed

lemma afterHeader_body:
  assumes "alive u" "admits (hd stack) n u" "canon u = canon v"
  shows "same_progress (afterHeader (hooks ra) pos w n h frag stack u)
           (bodyStep (hooks rb) pos' frag stack v n (maskAt w h) (isFin w) (drop h w))"
proof -
  let ?p = "if n \<le> length w - h then pos + h - 4 else pos"
  have "length (xor_from 0 (maskAt w h) (take n (drop h w))) + (n - length (drop h w)) = n" by simp
  with assms have "agree canon
      (handleFragment (hooks ra) ?p (xor_from 0 (maskAt w h) (take n (drop h w))) (n - length (drop h w)) (hd stack) (isFin w) u)
      (handleFragment (hooks rb) pos' (xor_from 0 (maskAt w h) (take n (drop h w))) (n - length (drop h w)) (hd stack) (isFin w) v)"
    by (intro handle_agree) simp_all
  then show ?thesis
    by (cases "handleFragment (hooks ra) ?p (xor_from 0 (maskAt w h) (take n (drop h w))) (n - length (drop h w)) (hd stack) (isFin w) u";
        cases "handleFragment (hooks rb) pos' (xor_from 0 (maskAt w h) (take n (drop h w))) (n - length (drop h w)) (hd stack) (isFin w) v")
      (auto simp: bodyStep_def afterHeader_def agree_def Let_def)
qed

lemma parser_ok_same:
  assumes "same_parser p q" "parser_ok p"
  shows "parser_ok q"
proof (cases p)
  case (Stopped u)
  with assms show ?thesis by (cases q) (simp_all add: parser_ok_def)
next
  case (Running ph frag stack u)
  with assms(1) obtain v where v: "q = Running ph frag stack v" "canon u = canon v"
    by (cases q) auto
  from Running assms(2) have "alive u" by (simp add: parser_ok_def split: phase.splits)
  with Running assms(2) v canon_alive [of u v] canon_idle [of u v] canon_admits [of u v "hd stack"]
  show ?thesis by (cases ph) (simp_all add: parser_ok_def)
qed

lemma progress_ok_same:
  assumes "same_progress p q" "progress_ok p"
  shows "progress_ok q"
proof (cases p)
  case (Done p1)
  with assms show ?thesis by (cases q) (auto simp: progress_ok_def intro: parser_ok_same)
next
  case (More pos frag stack u w)
  with assms(1) obtain pos' v where v: "q = More pos' frag stack v w" "canon u = canon v"
    by (cases q) auto
  with More assms(2) canon_alive [of u v] canon_idle [of u v] show ?thesis by (simp add: progress_ok_def)
qed

lemma same_progress_sym: "same_progress p q \<Longrightarrow> same_progress q p"
  by (auto simp: same_progress_def same_parser_sym split: progress.splits)

lemma same_progress_trans: "same_progress p q \<Longrightarrow> same_progress q r \<Longrightarrow> same_progress p r"
  by (auto simp: same_progress_def split: progress.splits intro: same_parser_trans)

lemma header_bounds: "\<not> incomplete w \<Longrightarrow> h = headerLengthOf w \<Longrightarrow> 4 \<le> h \<and> h \<le> length w"
  by (auto simp: incomplete_def headerLengthOf_def header_sizes split: if_splits)

lemma feedStep_agree:
  assumes "alive u" "idle u" "stack_ok frag stack" "canon u = canon v"
  shows "same_progress (feedStep (hooks ra) pos frag stack u w) (feedStep (hooks rb) pos' frag stack v w) \<and>
         progress_ok (feedStep (hooks ra) pos frag stack u w)"
proof (cases "incomplete w")
  case True
  with assms show ?thesis by (simp add: feedStep_def progress_ok_def parser_ok_def)
next
  case False
  obtain r u1 where o: "openFrame (hooks ra) w frag stack u = (r, u1)" by (cases "openFrame (hooks ra) w frag stack u")
  then obtain v1 where o': "openFrame (hooks rb) w frag stack v = (r, v1)" "canon u1 = canon v1"
    using agreeD [OF openFrame_agree [OF assms(1,2,4)] o] by blast
  show ?thesis
  proof (cases r)
    case None
    with False o o' show ?thesis by (simp add: feedStep_def progress_ok_def parser_ok_def)
  next
    case (Some x)
    obtain n h frag' stack' where x: "x = (n, h, frag', stack')" by (cases x) auto
    with openFrame_ok [OF assms(1-3)] o Some
    have k: "alive u1" "admits (hd stack') n u1" "body_ok (isFin w) frag' stack'" by auto
    then have kv: "alive v1" "admits (hd stack') n v1" using o'(2) canon_alive canon_admits by blast+
    have m: "length (maskAt w h) = 4"
      using openFrame_header [of "hooks ra" w frag stack u n h frag' stack' u1] o Some x header_bounds [OF False]
        length_maskAt by blast
    note a = afterHeader_body [OF k(1,2) o'(2), of ra pos w h frag' rb pos']
    note b = afterHeader_body [OF kv refl, of rb pos' w h frag' rb pos']
    show ?thesis
      using same_progress_trans [OF a same_progress_sym [OF b]] False o o' Some x
        progress_ok_same [OF same_progress_sym [OF a] bodyStep_ok [OF kv k(3) m]]
      by (simp add: feedStep_def)
  qed
qed

lemma feedHead_agree:
  "alive u \<Longrightarrow> idle u \<Longrightarrow> stack_ok frag stack \<Longrightarrow> canon u = canon v \<Longrightarrow>
   same_parser (feedHead (hooks ra) pos frag stack u w) (feedHead (hooks rb) pos' frag stack v w) \<and>
   parser_ok (feedHead (hooks ra) pos frag stack u w)"
proof (induction "length w" arbitrary: pos pos' frag stack u v w rule: less_induct)
  case less
  note a = feedStep_agree [OF less.prems, of ra pos w rb pos']
  show ?case
  proof (cases "feedStep (hooks ra) pos frag stack u w")
    case (Done p)
    with a show ?thesis
      by (cases "feedStep (hooks rb) pos' frag stack v w") (simp_all add: feedHead_run progress_ok_def)
  next
    case (More pos1 frag1 stack1 u1 w1)
    with a obtain pos2 v1 where m: "feedStep (hooks rb) pos' frag stack v w = More pos2 frag1 stack1 v1 w1" "canon u1 = canon v1"
      by (cases "feedStep (hooks rb) pos' frag stack v w") auto
    have "length w1 < length w" by (rule feedStep_less [OF More])
    from less.hyps [OF this, of u1 frag1 stack1 v1 pos1 pos2] a More m show ?thesis
      by (simp add: feedHead_run progress_ok_def)
  qed
qed

lemma run_agree: "same_progress p q \<Longrightarrow> progress_ok p \<Longrightarrow> same_parser (run (hooks ra) p) (run (hooks rb) q) \<and> parser_ok (run (hooks ra) p)"
  by (cases p; cases q) (auto simp: progress_ok_def dest: feedHead_agree)

lemma bodyStep_append:
  assumes "alive u" "admits (hd stack) r u" "canon u = canon v" "length m = 4"
  shows "same_progress (bodyStep (hooks ra) pos frag stack u r m fin (a @ b))
           (continued (hooks rc) pos'' (bodyStep (hooks rb) pos' frag stack v r m fin a) b)"
proof -
  have v: "alive v" "admits (hd stack) r v"
    using assms canon_alive canon_admits by blast+
  have "same_progress (bodyStep (hooks rb) pos' frag stack v r m fin (a @ b))
           (continued (hooks rc) pos'' (bodyStep (hooks rb) pos' frag stack v r m fin a) b)"
  proof (cases "r \<le> length a")
    case True
    then show ?thesis
      by (cases "handleFragment (hooks rb) pos' (xor_from 0 m (take r a)) 0 (hd stack) fin v")
        (simp add: bodyStep_def)
  next
    case False
    let ?e = "take (r - length a) b" and ?r = "r - length a - length b"
    let ?d = "xor_from 0 m a" and ?m = "rotateMask (4 - (length a AND 3)) m"
    have tk: "take r (a @ b) = a @ ?e" "r - length (a @ b) = ?r" using False by auto
    have x: "xor_from 0 m (a @ ?e) = ?d @ xor_from 0 ?m ?e"
      using assms(4) by (simp add: xor_from_resume)
    have e: "length (xor_from 0 ?m ?e) + ?r = r - length a" "0 < length (xor_from 0 ?m ?e) + ?r"
      using False by auto
    obtain stop v1 where h: "handleFragment (hooks rb) pos' ?d (r - length a) (hd stack) fin v = (stop, v1)"
      by (cases "handleFragment (hooks rb) pos' ?d (r - length a) (hd stack) fin v")
    have adm: "admits (hd stack) (length ?d + length (xor_from 0 ?m ?e) + ?r) v"
      using v(2) False e(1) by (simp add: add.assoc)
    have s: "agree canon (handleFragment (hooks rb) pos' (?d @ xor_from 0 ?m ?e) ?r (hd stack) fin v)
          (if stop then (True, v1) else handleFragment (hooks rc) pos'' (xor_from 0 ?m ?e) ?r (hd stack) fin v1)"
      using handle_split [OF v(1) adm e(2), of rb pos' fin stop v1 rb pos' rc pos''] h e(1) by simp
    have rot: "rotateMask (4 - (length (a @ b) AND 3)) m = rotateMask (4 - (length b AND 3)) ?m"
      using rotate_rotate [OF assms(4)] by simp
    obtain st w where h2: "handleFragment (hooks rb) pos' (?d @ xor_from 0 ?m ?e) ?r (hd stack) fin v = (st, w)"
      by (cases "handleFragment (hooks rb) pos' (?d @ xor_from 0 ?m ?e) ?r (hd stack) fin v")
    show ?thesis
    proof (cases stop)
      case True
      with s h2 have "st" "canon w = canon v1" by (simp_all add: agree_def)
      with True False h h2 tk x show ?thesis by (simp add: bodyStep_def)
    next
      case nostop: False
      obtain st' w' where h3: "handleFragment (hooks rc) pos'' (xor_from 0 ?m ?e) ?r (hd stack) fin v1 = (st', w')"
        by (cases "handleFragment (hooks rc) pos'' (xor_from 0 ?m ?e) ?r (hd stack) fin v1")
      with s h2 nostop have "st = st'" "canon w = canon w'" by (simp_all add: agree_def)
      moreover have "r \<le> length (a @ b) \<longleftrightarrow> r - length a \<le> length b" using False by auto
      ultimately show ?thesis
        using nostop False h h2 h3 tk x rot by (simp add: bodyStep_def)
    qed
  qed
  moreover have "same_progress (bodyStep (hooks ra) pos frag stack u r m fin (a @ b))
      (bodyStep (hooks rb) pos' frag stack v r m fin (a @ b))"
    using assms by (intro bodyStep_agree)
  ultimately show ?thesis using same_progress_trans by blast
qed

lemma bodyStep_not_head: "bodyStep (hooks ra) pos frag stack u r m fin bs \<noteq> Done (Running (Head w) frag' stack' v)"
  by (simp add: bodyStep_def split: prod.split)

lemma feedHead_append:
  "alive u \<Longrightarrow> idle u \<Longrightarrow> stack_ok frag stack \<Longrightarrow> canon u = canon v \<Longrightarrow>
   same_parser (feedHead (hooks ra) pos frag stack u (w @ b)) (feed (hooks rc) pos'' (feedHead (hooks rb) pos' frag stack v w) b)"
proof (induction "length w" arbitrary: pos pos' frag stack u v w rule: less_induct)
  case less
  have v: "alive v" "idle v" using less.prems canon_alive canon_idle by blast+
  show ?case
  proof (cases "incomplete w")
    case True
    then have "feedHead (hooks rb) pos' frag stack v w = Running (Head w) frag stack v"
      by (simp add: feedHead_run feedStep_def)
    then show ?thesis using feedHead_agree [OF less.prems] by simp
  next
    case False
    obtain r u1 where o: "openFrame (hooks ra) w frag stack u = (r, u1)" by (cases "openFrame (hooks ra) w frag stack u")
    then obtain v1 where o': "openFrame (hooks rb) w frag stack v = (r, v1)" "canon u1 = canon v1"
      using agreeD [OF openFrame_agree [OF less.prems(1,2,4)] o] by blast
    show ?thesis
    proof (cases r)
      case None
      with False o o' show ?thesis
        by (simp add: feedHead_run feedStep_def incomplete_append openFrame_append)
    next
      case (Some x)
      obtain n h frag1 stack1 where x: "x = (n, h, frag1, stack1)" by (cases x) auto
      with openFrame_ok [OF less.prems(1-3)] o Some
      have k: "alive u1" "admits (hd stack1) n u1" "body_ok (isFin w) frag1 stack1" by auto
      then have kv: "alive v1" "admits (hd stack1) n v1" using o'(2) canon_alive canon_admits by blast+
      have hb: "4 \<le> h" "h \<le> length w" "length (maskAt w h) = 4"
        using openFrame_header [of "hooks ra" w frag stack u n h frag1 stack1 u1] o Some x header_bounds [OF False]
          length_maskAt by blast+
      define Q where "Q = bodyStep (hooks rb) 0 frag1 stack1 v1 n (maskAt w h) (isFin w) (drop h w)"
      have okQ: "progress_ok Q" unfolding Q_def by (rule bodyStep_ok [OF kv k(3) hb(3)])
      have small: "feedStep (hooks rb) pos' frag stack v w = afterHeader (hooks rb) pos' w n h frag1 stack1 v1"
        using False o' Some x by (simp add: feedStep_def)
      have P: "same_progress (feedStep (hooks rb) pos' frag stack v w) Q"
        unfolding small Q_def by (rule afterHeader_body [OF kv refl])
      have big: "feedStep (hooks ra) pos frag stack u (w @ b) = afterHeader (hooks ra) pos (w @ b) n h frag1 stack1 u1"
        using False o Some x by (simp add: feedStep_def incomplete_append openFrame_append)
      have "same_progress (feedStep (hooks ra) pos frag stack u (w @ b))
          (bodyStep (hooks rb) 0 frag1 stack1 v1 n (maskAt w h) (isFin w) (drop h w @ b))"
        using afterHeader_body [OF k(1,2) o'(2), of ra pos "w @ b" h frag1 rb 0] hb
        by (simp add: big maskAt_append isFin_append [OF False])
      with bodyStep_append [OF kv refl hb(3), of rb 0 frag1 "isFin w" "drop h w" b rc pos'' rb 0]
      have C: "same_progress (feedStep (hooks ra) pos frag stack u (w @ b)) (continued (hooks rc) pos'' Q b)"
        unfolding Q_def using same_progress_trans by blast
      have okC: "progress_ok (feedStep (hooks ra) pos frag stack u (w @ b))"
        using feedStep_agree [OF less.prems(1-3) refl] by blast
      show ?thesis
      proof (cases Q)
        case (More p f s y w1)
        with P obtain p' y' where P': "feedStep (hooks rb) pos' frag stack v w = More p' f s y' w1" "canon y' = canon y"
          by (cases "feedStep (hooks rb) pos' frag stack v w") auto
        from More C obtain p'' y'' where
          C': "feedStep (hooks ra) pos frag stack u (w @ b) = More p'' f s y'' (w1 @ b)" "canon y'' = canon y"
          by (cases "feedStep (hooks ra) pos frag stack u (w @ b)") auto
        have "length w1 < length w" by (rule feedStep_less [OF P'(1)])
        from less.hyps [OF this, of y'' f s y' p'' p'] okC C' P' show ?thesis
          by (simp add: feedHead_run progress_ok_def)
      next
        case (Done q)
        with P obtain q' where P': "feedStep (hooks rb) pos' frag stack v w = Done q'" "same_parser q' q"
          by (cases "feedStep (hooks rb) pos' frag stack v w") auto
        show ?thesis
        proof (cases q)
          case (Stopped y)
          with C P' Done show ?thesis
            by (cases "feedStep (hooks ra) pos frag stack u (w @ b)"; cases q') (auto simp: feedHead_run same_parser_def split: parser.splits)
        next
          case (Running ph f s y)
          with P' obtain y' where q': "q' = Running ph f s y'" "canon y' = canon y"
            by (cases q') auto
          obtain n' m' fin' where ph: "ph = Body n' m' fin'"
            using Done Running bodyStep_not_head by (cases ph) (auto simp: Q_def)
          have ok: "alive y'" "admits (hd s) n' y'"
            using okQ Done Running ph q'(2) canon_alive [of y' y] canon_admits [of y' y "hd s" n']
            by (auto simp: progress_ok_def parser_ok_def)
          have D: "same_progress (feedStep (hooks ra) pos frag stack u (w @ b)) (bodyStep (hooks rc) pos'' f s y' n' m' fin' b)"
            using C Done Running ph same_progress_trans same_progress_sym [OF bodyStep_agree [OF ok q'(2)]] by auto
          from run_agree [OF D okC, of ra rc] P' q' ph show ?thesis
            by (simp add: feedHead_run flip: feed_Body)
        qed
      qed
    qed
  qed
qed

lemma feed_agree:
  assumes "parser_ok p" "same_parser p q"
  shows "same_parser (feed (hooks ra) pos p bs) (feed (hooks rb) pos' q bs)"
proof (cases p)
  case (Stopped u)
  with assms(2) show ?thesis by (cases q) simp_all
next
  case (Running ph frag stack u)
  with assms(2) obtain v where q: "q = Running ph frag stack v" "canon u = canon v" by (cases q) auto
  show ?thesis
  proof (cases ph)
    case (Head w)
    with assms(1) Running q feedHead_agree [of u frag stack v] show ?thesis by (simp add: parser_ok_def)
  next
    case (Body r m fin)
    with assms(1) Running have k: "alive u" "admits (hd stack) r u" "body_ok fin frag stack" "length m = 4"
      by (simp_all add: parser_ok_def)
    from run_agree [OF bodyStep_agree [OF k(1,2) q(2)] bodyStep_ok [OF k]] Running Body q
    show ?thesis by (simp only: feed_Body)
  qed
qed

lemma feed_append:
  assumes "parser_ok p" "same_parser p q"
  shows "same_parser (feed (hooks ra) pos p (a @ b)) (feed (hooks rc) pos'' (feed (hooks rb) pos' q a) b)"
proof (cases p)
  case (Stopped u)
  with assms(2) show ?thesis by (cases q) simp_all
next
  case (Running ph frag stack u)
  with assms(2) obtain v where q: "q = Running ph frag stack v" "canon u = canon v" by (cases q) auto
  show ?thesis
  proof (cases ph)
    case (Head w)
    with assms(1) Running have "alive u" "idle u" "stack_ok frag stack" by (simp_all add: parser_ok_def)
    from feedHead_append [OF this q(2), of ra _ "w @ a" b] Running Head q show ?thesis by simp
  next
    case (Body r m fin)
    with assms(1) Running have k: "alive u" "admits (hd stack) r u" "body_ok fin frag stack" "length m = 4"
      by (simp_all add: parser_ok_def)
    then have kv: "alive v" "admits (hd stack) r v" using q(2) canon_alive canon_admits by blast+
    define P where "P = bodyStep (hooks rb) pos' frag stack v r m fin a"
    have okP: "progress_ok P" unfolding P_def by (rule bodyStep_ok [OF kv k(3,4)])
    have C: "same_progress (bodyStep (hooks ra) pos frag stack u r m fin (a @ b)) (continued (hooks rc) pos'' P b)"
      unfolding P_def by (rule bodyStep_append [OF k(1,2) q(2) k(4)])
    have okC: "progress_ok (bodyStep (hooks ra) pos frag stack u r m fin (a @ b))" by (rule bodyStep_ok [OF k])
    have "same_parser (run (hooks ra) (bodyStep (hooks ra) pos frag stack u r m fin (a @ b))) (feed (hooks rc) pos'' (run (hooks rb) P) b)"
    proof (cases P)
      case (More p1 f s y w)
      with C obtain p2 y2 where C': "bodyStep (hooks ra) pos frag stack u r m fin (a @ b) = More p2 f s y2 (w @ b)" "canon y2 = canon y"
        by (cases "bodyStep (hooks ra) pos frag stack u r m fin (a @ b)") auto
      with okC feedHead_append [of y2 f s y ra p2 w b rc pos'' rb p1] More show ?thesis by (simp add: progress_ok_def)
    next
      case (Done q1)
      show ?thesis
      proof (cases q1)
        case (Stopped y)
        with C Done show ?thesis by (cases "bodyStep (hooks ra) pos frag stack u r m fin (a @ b)") simp_all
      next
        case (Running ph' f s y)
        then obtain n' m' fin' where "ph' = Body n' m' fin'"
          using Done bodyStep_not_head by (cases ph') (auto simp: P_def)
        with run_agree [OF C okC, of ra rc] Done Running show ?thesis by (simp flip: feed_Body)
      qed
    qed
    then show ?thesis using Running Body q by (simp only: feed_Body P_def)
  qed
qed

lemma feed_ok: "parser_ok p \<Longrightarrow> parser_ok (feed (hooks ra) pos p bs)"
proof (cases p)
  case (Running ph frag stack u)
  assume "parser_ok p"
  with Running show ?thesis
  proof (cases ph)
    case (Head w)
    with \<open>parser_ok p\<close> Running feedHead_agree [of u frag stack u] show ?thesis by (simp add: parser_ok_def)
  next
    case (Body r m fin)
    with \<open>parser_ok p\<close> Running have "progress_ok (bodyStep (hooks ra) pos frag stack u r m fin bs)"
      by (intro bodyStep_ok) (simp_all add: parser_ok_def)
    from run_agree [OF same_progress_refl this] Running Body show ?thesis
      by (simp only: feed_Body)
  qed
qed simp

end

section \<open>Invariants of the object behind the hooks\<close>

primrec userOf :: "'u parser \<Rightarrow> 'u" where
  "userOf (Running ph frag stack u) = u"
| "userOf (Stopped u) = u"

text \<open>What every hook keeps, the parser keeps.\<close>

locale sink_invariant = fragment_sink +
  fixes I :: "'b \<Rightarrow> bool"
  assumes compressed_inv: "I u \<Longrightarrow> alive u \<Longrightarrow> setCompressed (hooks ra) u = (b, u') \<Longrightarrow> I u'"
    and refuse_inv: "I u \<Longrightarrow> alive u \<Longrightarrow> refusePayloadLength (hooks ra) n u = (b, u') \<Longrightarrow> I u'"
    and force_inv: "I u \<Longrightarrow> alive u \<Longrightarrow> I (forceClose (hooks ra) u)"
    and handle_inv: "I u \<Longrightarrow> alive u \<Longrightarrow> admits opc (length d + r) u \<Longrightarrow>
          handleFragment (hooks ra) p d r opc fin u = (b, u') \<Longrightarrow> I u'"
begin

definition progress_inv :: "'b progress \<Rightarrow> bool" where
  "progress_inv p \<longleftrightarrow> (case p of Done q \<Rightarrow> I (userOf q) | More _ frag stack u w \<Rightarrow> I u)"

lemma bodyStep_inv:
  assumes "I u" "alive u" "admits (hd stack) r u"
  shows "progress_inv (bodyStep (hooks ra) pos frag stack u r m fin bs)"
proof -
  obtain stop u' where h: "handleFragment (hooks ra) pos (xor_from 0 m (take r bs)) (r - length bs) (hd stack) fin u = (stop, u')"
    by (cases "handleFragment (hooks ra) pos (xor_from 0 m (take r bs)) (r - length bs) (hd stack) fin u")
  have "length (xor_from 0 m (take r bs)) + (r - length bs) = r" by simp
  with assms(3) have "I u'" using handle_inv [OF assms(1,2) _ h] by simp
  then show ?thesis by (simp add: bodyStep_def h progress_inv_def)
qed

lemma openFrame_inv:
  assumes "I u" "alive u" "idle u" "openFrame (hooks ra) w frag stack u = (r, u')"
  shows "I u'"
proof -
  obtain ok u1 where c: "claimCompression (hooks ra) w u = (ok, u1)" by (cases "claimCompression (hooks ra) w u")
  have u1: "I u1" "alive u1" "idle u1"
    using c assms(1-3) compressed_inv [of u ra ok u1] claimCompression_keeps [OF assms(2,3) c]
    by (auto simp: claimCompression_def split: if_splits)
  have rf: "I u2 \<and> alive u2" if "(if getOpCode w \<le> BINARY then refusePayloadLength (hooks ra) n u1 else (False, u1)) = (b, u2)" for n b u2
    using that u1 refuse_inv [of u1 ra n b u2] refuse_keeps [of u1 ra n b u2] by (auto split: if_splits)
  show ?thesis
    using assms(4) c u1 rf force_inv [of u1 ra] force_inv
    by (auto simp: openFrame_def Let_def split: if_splits option.splits prod.splits)
qed

lemma feedStep_inv:
  assumes "I u" "alive u" "idle u" "stack_ok frag stack"
  shows "progress_inv (feedStep (hooks ra) pos frag stack u w)"
proof (cases "incomplete w")
  case True
  with assms show ?thesis by (simp add: feedStep_def progress_inv_def)
next
  case False
  obtain r u1 where o: "openFrame (hooks ra) w frag stack u = (r, u1)" by (cases "openFrame (hooks ra) w frag stack u")
  note i1 = openFrame_inv [OF assms(1-3) o]
  show ?thesis
  proof (cases r)
    case None
    with False o i1 show ?thesis by (simp add: feedStep_def progress_inv_def)
  next
    case (Some x)
    obtain n h frag' stack' where x: "x = (n, h, frag', stack')" by (cases x) auto
    with openFrame_ok [OF assms(2-4)] o Some have k: "alive u1" "admits (hd stack') n u1" by auto
    let ?p = "if n \<le> length w - h then pos + h - 4 else pos"
    let ?d = "xor_from 0 (maskAt w h) (take n (drop h w))"
    obtain stop u2 where hf: "handleFragment (hooks ra) ?p ?d (n - length (drop h w)) (hd stack') (isFin w) u1 = (stop, u2)"
      by (cases "handleFragment (hooks ra) ?p ?d (n - length (drop h w)) (hd stack') (isFin w) u1")
    have "length ?d + (n - length (drop h w)) = n" by simp
    with k(2) have "I u2" using handle_inv [OF i1 k(1) _ hf] by simp
    with False o Some x hf show ?thesis
      by (auto simp: feedStep_def afterHeader_def Let_def progress_inv_def)
  qed
qed

lemma feedHead_inv:
  "I u \<Longrightarrow> alive u \<Longrightarrow> idle u \<Longrightarrow> stack_ok frag stack \<Longrightarrow> I (userOf (feedHead (hooks ra) pos frag stack u w))"
proof (induction "length w" arbitrary: pos frag stack u w rule: less_induct)
  case less
  note i = feedStep_inv [OF less.prems, of ra pos w]
  note o = feedStep_agree [OF less.prems(2-4) refl, of ra pos w, THEN conjunct2]
  show ?case
  proof (cases "feedStep (hooks ra) pos frag stack u w")
    case (Done p)
    with i show ?thesis by (simp add: feedHead_run progress_inv_def)
  next
    case (More pos1 frag1 stack1 u1 w1)
    with i o less.hyps [OF feedStep_less [OF More], of u1 frag1 stack1 pos1] show ?thesis
      by (simp add: feedHead_run progress_inv_def progress_ok_def)
  qed
qed

lemma feed_inv:
  assumes "parser_ok p" "I (userOf p)"
  shows "I (userOf (feed (hooks ra) pos p bs))"
proof (cases p)
  case (Stopped u)
  with assms show ?thesis by simp
next
  case (Running ph frag stack u)
  show ?thesis
  proof (cases ph)
    case (Head w)
    with assms Running feedHead_inv show ?thesis by (simp add: parser_ok_def)
  next
    case (Body r m fin)
    with assms(1) Running have k: "alive u" "admits (hd stack) r u" "body_ok fin frag stack" "length m = 4"
      by (simp_all add: parser_ok_def)
    note i = bodyStep_inv [OF _ k(1,2), of ra pos frag m fin bs]
    note o = bodyStep_ok [OF k, of ra pos bs]
    show ?thesis
    proof (cases "bodyStep (hooks ra) pos frag stack u r m fin bs")
      case (Done q)
      with i assms(2) Running Body show ?thesis by (simp only: feed_Body) (simp add: progress_inv_def)
    next
      case (More p1 f s y w)
      with i o assms(2) Running Body feedHead_inv [of y f s ra p1 w] show ?thesis
        by (simp only: feed_Body) (simp add: progress_inv_def progress_ok_def)
    qed
  qed
qed

end

end
