(* ===== verification/Extensions.thy ===== *)
theory Extensions
  imports Prelude "HOL-Library.Char_ord"
begin

text \<open>
  The \<open>permessage-deflate\<close> negotiation of \<open>Extensions.cpp\<close> and \<open>Extensions.h\<close>: the tokenizer
  and parser of a \<open>Sec-WebSocket-Extensions\<close> header, the test of one offer, and the negotiator.
  A \<open>position\<close> in \<open>input\<close> is the suffix of the input from there on; a function that returns
  \<open>false\<close> is \<open>None\<close>, since every caller then gives up the whole header.
\<close>

section \<open>Tokens\<close>

record ExtensionParameter =
  p_name :: string
  p_value :: string
  hasValue :: bool

record ExtensionOffer =
  o_name :: string
  parameters :: "ExtensionParameter list"

definition isTokenCharacter :: "char \<Rightarrow> bool" where
  "isTokenCharacter character \<longleftrightarrow>
     (CHR ''0'' \<le> character \<and> character \<le> CHR ''9'') \<or>
     (CHR ''A'' \<le> character \<and> character \<le> CHR ''Z'') \<or>
     (CHR ''a'' \<le> character \<and> character \<le> CHR ''z'') \<or>
     character \<in> set ''!#$%&*+-.^_|~'' \<or> character = CHR 0x27 \<or> character = CHR 0x60"

definition lowerChar :: "char \<Rightarrow> char" where
  "lowerChar character =
     (if CHR ''A'' \<le> character \<and> character \<le> CHR ''Z''
      then char_of (of_char character - of_char CHR ''A'' + of_char CHR ''a'' :: nat)
      else character)"

definition lowerAscii :: "string \<Rightarrow> string" where
  "lowerAscii value = map lowerChar value"

definition skipWhitespace :: "string \<Rightarrow> string" where
  "skipWhitespace input = dropWhile (\<lambda>c. c = CHR '' '' \<or> c = CHR 0x09) input"

definition readToken :: "string \<Rightarrow> (string \<times> string) option" where
  "readToken input =
     (let token = takeWhile isTokenCharacter input
      in if token = [] then None else Some (lowerAscii token, dropWhile isTokenCharacter input))"

fun quotedFrom :: "string \<Rightarrow> string \<Rightarrow> (string \<times> string) option" where
  "quotedFrom value [] = None"
| "quotedFrom value (character # input) =
     (if character = CHR 0x22 then Some (value, input)
      else if character = CHR 0x5C then
        (case input of
           [] \<Rightarrow> None
         | escaped # rest \<Rightarrow>
             if escaped < CHR 0x20 \<or> escaped = CHR 0x7F then None
             else quotedFrom (value @ [escaped]) rest)
      else if character = CHR 0x09 \<or> character = CHR 0x20 \<or> character = CHR 0x21 \<or>
              (CHR 0x23 \<le> character \<and> character \<le> CHR 0x5B) \<or>
              (CHR 0x5D \<le> character \<and> character \<noteq> CHR 0x7F)
      then quotedFrom (value @ [character]) input
      else None)"

definition readQuotedString :: "string \<Rightarrow> (string \<times> string) option" where
  "readQuotedString input =
     (case input of
        [] \<Rightarrow> None
      | character # rest \<Rightarrow> if character \<noteq> CHR 0x22 then None else quotedFrom [] rest)"

definition readParameter :: "string \<Rightarrow> (ExtensionParameter \<times> string) option" where
  "readParameter input =
     (case readToken (skipWhitespace input) of
        None \<Rightarrow> None
      | Some (name, rest) \<Rightarrow>
          (let rest = skipWhitespace rest
           in if rest = [] \<or> hd rest \<noteq> CHR ''=''
              then Some (\<lparr>p_name = name, p_value = [], hasValue = False\<rparr>, rest)
              else let rest = skipWhitespace (tl rest)
                   in map_option (\<lambda>(value, rest). (\<lparr>p_name = name, p_value = value, hasValue = True\<rparr>, rest))
                        (if rest \<noteq> [] \<and> hd rest = CHR 0x22 then readQuotedString rest
                         else readToken rest)))"

section \<open>Progress\<close>

lemma length_skipWhitespace: "length (skipWhitespace s) \<le> length s"
  by (simp add: skipWhitespace_def length_dropWhile_le)

lemma readToken_progress: "readToken s = Some (t, r) \<Longrightarrow> length r < length s"
proof -
  assume s: "readToken s = Some (t, r)"
  then have "takeWhile isTokenCharacter s \<noteq> []" "r = dropWhile isTokenCharacter s"
    by (auto simp: readToken_def Let_def split: if_splits)
  moreover have "length s = length (takeWhile isTokenCharacter s) + length (dropWhile isTokenCharacter s)"
    by (metis length_append takeWhile_dropWhile_id)
  ultimately show ?thesis by (simp flip: length_greater_0_conv)
qed

lemma quotedFrom_progress: "quotedFrom v s = Some (t, r) \<Longrightarrow> length r < length s"
  by (induction v s rule: quotedFrom.induct) (auto split: if_splits list.splits)

lemma readParameter_progress: "readParameter s = Some (p, r) \<Longrightarrow> length r < length s"
proof -
  have tl: "length (skipWhitespace (tl u)) \<le> length u" for u
    using length_skipWhitespace [of "tl u"] by simp
  have q: "length r' < length u" if "readQuotedString u = Some (v, r')" for u v r'
    using that quotedFrom_progress by (fastforce simp: readQuotedString_def split: list.splits if_splits)
  assume "readParameter s = Some (p, r)"
  then show ?thesis
    using length_skipWhitespace [of s]
    by (auto simp: readParameter_def Let_def split: option.splits if_splits
          dest!: readToken_progress q
          intro: le_less_trans less_le_trans)
       (meson le_less_trans length_skipWhitespace less_le_trans less_imp_le tl order_trans)+
qed

section \<open>Offers\<close>

function readParameters :: "ExtensionParameter list \<Rightarrow> string \<Rightarrow> (ExtensionParameter list \<times> string) option" where
  "readParameters params input =
     (case skipWhitespace input of
        [] \<Rightarrow> Some (params, [])
      | c # rest \<Rightarrow>
          if c = CHR '','' then Some (params, c # rest)
          else if c \<noteq> CHR '';'' then None
          else (case readParameter rest of
                  None \<Rightarrow> None
                | Some (parameter, rest) \<Rightarrow> readParameters (params @ [parameter]) rest))"
  by auto
termination
proof (relation "measure (length \<circ> snd)", goal_cases)
  case (2 params input c rest r parameter rest')
  then show ?case
    using length_skipWhitespace [of input] readParameter_progress [of rest parameter rest'] by simp
qed simp

declare readParameters.simps [simp del]

lemma readParameters_progress: "readParameters ps s = Some (qs, r) \<Longrightarrow> length r \<le> length s"
proof (induction ps s rule: readParameters.induct)
  case (1 ps s)
  from "1.prems" consider "skipWhitespace s = []" "r = []" | c t where "skipWhitespace s = c # t" "r = c # t"
    | c t p u where "skipWhitespace s = c # t" "c \<noteq> CHR '',''" "\<not> c \<noteq> CHR '';''"
        "readParameter t = Some (p, u)" "readParameters (ps @ [p]) u = Some (qs, r)"
    by (subst (asm) readParameters.simps) (simp split: list.splits if_splits option.splits prod.splits)
  then show ?case
  proof cases
    case 3
    then show ?thesis
      using "1.IH" [OF 3(1-4) refl 3(5)] length_skipWhitespace [of s] readParameter_progress [OF 3(4)] by simp
  qed (use length_skipWhitespace [of s] in simp_all)
qed

function readOffers :: "ExtensionOffer list \<Rightarrow> string \<Rightarrow> ExtensionOffer list option" where
  "readOffers offers input =
     (case readToken input of
        None \<Rightarrow> None
      | Some (name, rest) \<Rightarrow>
          (case readParameters [] rest of
             None \<Rightarrow> None
           | Some (params, rest) \<Rightarrow>
               (let offers = offers @ [\<lparr>o_name = name, parameters = params\<rparr>]
                in case rest of
                     [] \<Rightarrow> Some offers
                   | _ # rest \<Rightarrow>
                       (let rest = skipWhitespace rest
                        in if rest = [] then None else readOffers offers rest))))"
  by auto
termination
proof (relation "measure (length \<circ> snd)", goal_cases)
  case (2 offers input tok name rest pr params rest' offers' c rest'' x)
  then show ?case
    using readToken_progress [of input name rest] readParameters_progress [of "[]" rest params rest']
      length_skipWhitespace [of rest''] by simp
qed simp

declare readOffers.simps [simp del]

definition parse :: "string \<Rightarrow> ExtensionOffer list option" where
  "parse input =
     (let input = skipWhitespace input in if input = [] then Some [] else readOffers [] input)"

section \<open>Negotiation\<close>

text \<open>The \<open>Options\<close> enumeration; \<open>options\<close> is kept as its 32 bits.\<close>

type_synonym options = "32 word"

abbreviation PERMESSAGE_DEFLATE :: options where "PERMESSAGE_DEFLATE \<equiv> 1"
abbreviation SERVER_NO_CONTEXT_TAKEOVER :: options where "SERVER_NO_CONTEXT_TAKEOVER \<equiv> 2"
abbreviation CLIENT_NO_CONTEXT_TAKEOVER :: options where "CLIENT_NO_CONTEXT_TAKEOVER \<equiv> 4"
abbreviation SLIDING_DEFLATE_WINDOW :: options where "SLIDING_DEFLATE_WINDOW \<equiv> 16"

definition has_option :: "options \<Rightarrow> options \<Rightarrow> bool" where
  "has_option opts flag \<longleftrightarrow> opts AND flag \<noteq> 0"

definition isWindowBits :: "ExtensionParameter \<Rightarrow> bool \<Rightarrow> bool" where
  "isWindowBits parameter valueRequired =
     (if \<not> hasValue parameter then \<not> valueRequired
      else if length (p_value parameter) = 1
      then CHR ''8'' \<le> p_value parameter ! 0 \<and> p_value parameter ! 0 \<le> CHR ''9''
      else length (p_value parameter) = 2 \<and> p_value parameter ! 0 = CHR ''1'' \<and>
           CHR ''0'' \<le> p_value parameter ! 1 \<and> p_value parameter ! 1 \<le> CHR ''5'')"

definition windowBitsValue :: "ExtensionParameter \<Rightarrow> nat" where
  "windowBitsValue parameter =
     (if \<not> hasValue parameter \<or> \<not> isWindowBits parameter True then 0
      else if length (p_value parameter) = 1 then of_char (p_value parameter ! 0) - of_char CHR ''0''
      else 10 + of_char (p_value parameter ! 1) - of_char CHR ''0'')"

text \<open>
  The loop of \<open>isCompatibleOffer\<close> with the set \<open>seen\<close> and the two out-parameters; \<open>None\<close> is
  \<open>false\<close>, after which the caller discards the out-parameters.
\<close>

fun compatibleFrom :: "options \<Rightarrow> string set \<Rightarrow> nat \<Rightarrow> bool \<Rightarrow> ExtensionParameter list \<Rightarrow> (nat \<times> bool) option" where
  "compatibleFrom wantedOptions seen bits negotiated [] = Some (bits, negotiated)"
| "compatibleFrom wantedOptions seen bits negotiated (parameter # params) =
     (if p_name parameter \<in> seen then None
      else let seen = insert (p_name parameter) seen
      in if p_name parameter = ''server_no_context_takeover'' then
           (if hasValue parameter \<or> \<not> has_option wantedOptions SERVER_NO_CONTEXT_TAKEOVER then None
            else compatibleFrom wantedOptions seen bits negotiated params)
         else if p_name parameter = ''client_no_context_takeover'' then
           (if hasValue parameter then None
            else compatibleFrom wantedOptions seen bits negotiated params)
         else if p_name parameter = ''server_max_window_bits'' then
           (let windowBits = windowBitsValue parameter
            in if windowBits < 9 then None
               else compatibleFrom wantedOptions seen windowBits True params)
         else if p_name parameter = ''client_max_window_bits'' then
           (if \<not> isWindowBits parameter False then None
            else compatibleFrom wantedOptions seen bits negotiated params)
         else None)"

definition isCompatibleOffer :: "ExtensionOffer \<Rightarrow> options \<Rightarrow> (nat \<times> bool) option" where
  "isCompatibleOffer offer wantedOptions = compatibleFrom wantedOptions {} 15 False (parameters offer)"

record ExtensionsNegotiator =
  opts :: options
  serverMaxWindowBits :: nat
  serverMaxWindowBitsNegotiated :: bool

definition newNegotiator :: "options \<Rightarrow> ExtensionsNegotiator" where
  "newNegotiator wantedOptions =
     \<lparr>opts = wantedOptions, serverMaxWindowBits = 15, serverMaxWindowBitsNegotiated = False\<rparr>"

fun digits :: "nat \<Rightarrow> string" where
  "digits n = (if n < 10 then [char_of (48 + n)] else digits (n div 10) @ [char_of (48 + n mod 10)])"

declare digits.simps [simp del]

definition generateOffer :: "ExtensionsNegotiator \<Rightarrow> string" where
  "generateOffer neg =
     (if has_option (opts neg) PERMESSAGE_DEFLATE then
        ''permessage-deflate'' @
        (if has_option (opts neg) CLIENT_NO_CONTEXT_TAKEOVER then ''; client_no_context_takeover'' else []) @
        (if has_option (opts neg) SERVER_NO_CONTEXT_TAKEOVER then ''; server_no_context_takeover'' else []) @
        (if serverMaxWindowBitsNegotiated neg
         then ''; server_max_window_bits='' @ digits (serverMaxWindowBits neg) else [])
      else [])"

fun firstCompatible :: "options \<Rightarrow> ExtensionOffer list \<Rightarrow> (nat \<times> bool) option" where
  "firstCompatible wantedOptions [] = None"
| "firstCompatible wantedOptions (candidate # offers) =
     (case (if o_name candidate = ''permessage-deflate''
            then isCompatibleOffer candidate wantedOptions else None) of
        Some r \<Rightarrow> Some r
      | None \<Rightarrow> firstCompatible wantedOptions offers)"

definition takeover_flags :: options where
  "takeover_flags = (CLIENT_NO_CONTEXT_TAKEOVER OR SERVER_NO_CONTEXT_TAKEOVER OR SLIDING_DEFLATE_WINDOW)"

definition readOffer :: "ExtensionsNegotiator \<Rightarrow> string \<Rightarrow> ExtensionsNegotiator" where
  "readOffer neg offer =
     (if \<not> has_option (opts neg) PERMESSAGE_DEFLATE
      then neg\<lparr>opts := opts neg AND NOT takeover_flags\<rparr>
      else case (case parse offer of None \<Rightarrow> None | Some offers \<Rightarrow> firstCompatible (opts neg) offers) of
        Some (bits, negotiated) \<Rightarrow>
          neg\<lparr>serverMaxWindowBits := bits, serverMaxWindowBitsNegotiated := negotiated\<rparr>
      | None \<Rightarrow> neg\<lparr>opts := opts neg AND NOT PERMESSAGE_DEFLATE AND NOT takeover_flags\<rparr>)"

definition getNegotiatedOptions :: "ExtensionsNegotiator \<Rightarrow> options" where
  "getNegotiatedOptions neg = opts neg"

definition getServerMaxWindowBits :: "ExtensionsNegotiator \<Rightarrow> nat" where
  "getServerMaxWindowBits neg = serverMaxWindowBits neg"

section \<open>What makes an offer acceptable\<close>

definition acceptableParameter :: "options \<Rightarrow> ExtensionParameter \<Rightarrow> bool" where
  "acceptableParameter wanted p \<longleftrightarrow>
     (p_name p = ''server_no_context_takeover'' \<and> \<not> hasValue p \<and> has_option wanted SERVER_NO_CONTEXT_TAKEOVER) \<or>
     (p_name p = ''client_no_context_takeover'' \<and> \<not> hasValue p) \<or>
     (p_name p = ''server_max_window_bits'' \<and> hasValue p \<and> p_value p \<in> {''9'', ''10'', ''11'', ''12'', ''13'', ''14'', ''15''}) \<or>
     (p_name p = ''client_max_window_bits'' \<and>
        (\<not> hasValue p \<or> p_value p \<in> {''8'', ''9'', ''10'', ''11'', ''12'', ''13'', ''14'', ''15''}))"

definition acceptableOffer :: "options \<Rightarrow> ExtensionOffer \<Rightarrow> bool" where
  "acceptableOffer wanted offer \<longleftrightarrow>
     o_name offer = ''permessage-deflate'' \<and> distinct (map p_name (parameters offer)) \<and>
     list_all (acceptableParameter wanted) (parameters offer)"

text \<open>The window an offer asks the server to keep: that of its \<open>server_max_window_bits\<close>, if any.\<close>

definition requestedBits :: "ExtensionParameter list \<Rightarrow> nat option" where
  "requestedBits params =
     map_option windowBitsValue (List.find (\<lambda>p. p_name p = ''server_max_window_bits'') params)"

lemma char_eq_code: "c = d \<longleftrightarrow> (of_char c :: nat) = of_char d"
  by simp

lemma digit_ranges:
  "CHR ''8'' \<le> c \<and> c \<le> CHR ''9'' \<longleftrightarrow> c \<in> set ''89''"
  "CHR ''0'' \<le> c \<and> c \<le> CHR ''5'' \<longleftrightarrow> c \<in> set ''012345''"
proof -
  have "(56 \<le> n \<and> n \<le> 57) \<longleftrightarrow> n = 56 \<or> n = 57" 
     "(48 \<le> n \<and> n \<le> 53) \<longleftrightarrow> n = 48 \<or> n = 49 \<or> n = 50 \<or> n = 51 \<or> n = 52 \<or> n = 53" for n :: nat
    by arith+
  note * = this [of "of_char c"]
  show   "CHR ''8'' \<le> c \<and> c \<le> CHR ''9'' \<longleftrightarrow> c \<in> set ''89''"
  "CHR ''0'' \<le> c \<and> c \<le> CHR ''5'' \<longleftrightarrow> c \<in> set ''012345''"
    by (simp_all only: less_eq_char_def list.set insert_iff char_eq_code empty_iff) (simp_all add: *)
qed

lemma isWindowBits_eq:
  "isWindowBits p required \<longleftrightarrow>
     (if hasValue p then p_value p \<in> {''8'', ''9'', ''10'', ''11'', ''12'', ''13'', ''14'', ''15''} else \<not> required)"
  by (cases "p_value p" rule: remdups_adj.cases)
     (auto simp: isWindowBits_def digit_ranges length_Suc_conv numeral_2_eq_2)

lemma windowBitsValue_values:
  "windowBitsValue p \<ge> 9 \<longleftrightarrow> hasValue p \<and> p_value p \<in> {''9'', ''10'', ''11'', ''12'', ''13'', ''14'', ''15''}"
  "windowBitsValue p \<le> 15"
  by (auto simp: windowBitsValue_def isWindowBits_eq)

lemma compatibleFrom_eq:
  "compatibleFrom wanted seen bits negotiated params =
    (if distinct (map p_name params) \<and> seen \<inter> p_name ` set params = {} \<and> list_all (acceptableParameter wanted) params
     then Some (case requestedBits params of None \<Rightarrow> (bits, negotiated) | Some b \<Rightarrow> (b, True)) else None)"
proof (induction params arbitrary: seen bits negotiated)
  case (Cons p ps)
  have w: "\<not> windowBitsValue p < 9 \<longleftrightarrow> hasValue p \<and> p_value p \<in> {''9'', ''10'', ''11'', ''12'', ''13'', ''14'', ''15''}"
    using windowBitsValue_values(1) [of p] by (simp add: not_less)
  have none: "requestedBits ps = None" if "''server_max_window_bits'' \<notin> p_name ` set ps"
    using that by (auto simp: requestedBits_def find_None_iff image_iff)
  consider "p_name p = ''server_no_context_takeover''" | "p_name p = ''client_no_context_takeover''"
    | "p_name p = ''server_max_window_bits''" | "p_name p = ''client_max_window_bits''"
    | "p_name p \<notin> {''server_no_context_takeover'', ''client_no_context_takeover'', ''server_max_window_bits'', ''client_max_window_bits''}"
    by blast
  then show ?case
  proof cases
    case 3
    then show ?thesis using w none
      by (auto simp: Cons.IH acceptableParameter_def requestedBits_def Let_def)
  qed (auto simp: Cons.IH acceptableParameter_def isWindowBits_eq requestedBits_def Let_def)
qed (simp add: requestedBits_def)

section \<open>Printing offers\<close>

text \<open>The form in which offers are written: a value is a token where it can be, else quoted.\<close>

definition isToken :: "string \<Rightarrow> bool" where
  "isToken t \<longleftrightarrow> t \<noteq> [] \<and> list_all isTokenCharacter t \<and> lowerAscii t = t"

definition isQuotable :: "char \<Rightarrow> bool" where
  "isQuotable c \<longleftrightarrow> c = CHR 0x09 \<or> CHR 0x20 \<le> c \<and> c \<noteq> CHR 0x7F"

definition escape :: "char \<Rightarrow> string" where
  "escape c = (if c = CHR 0x22 \<or> c = CHR 0x5C then [CHR 0x5C, c] else [c])"

definition printValue :: "string \<Rightarrow> string" where
  "printValue v = (if isToken v then v else CHR 0x22 # concat (map escape v) @ [CHR 0x22])"

definition printParameter :: "ExtensionParameter \<Rightarrow> string" where
  "printParameter p = ''; '' @ p_name p @ (if hasValue p then CHR ''='' # printValue (p_value p) else [])"

definition printOffer :: "ExtensionOffer \<Rightarrow> string" where
  "printOffer offer = o_name offer @ concat (map printParameter (parameters offer))"

fun printOffers :: "ExtensionOffer list \<Rightarrow> string" where
  "printOffers [] = []"
| "printOffers [offer] = printOffer offer"
| "printOffers (offer # offers) = printOffer offer @ '', '' @ printOffers offers"

definition printableParameter :: "ExtensionParameter \<Rightarrow> bool" where
  "printableParameter p \<longleftrightarrow> isToken (p_name p) \<and>
     (if hasValue p then list_all isQuotable (p_value p) else p_value p = [])"

definition printableOffer :: "ExtensionOffer \<Rightarrow> bool" where
  "printableOffer offer \<longleftrightarrow> isToken (o_name offer) \<and> list_all printableParameter (parameters offer)"

definition ends_token :: "string \<Rightarrow> bool" where
  "ends_token r \<longleftrightarrow> r = [] \<or> \<not> isTokenCharacter (hd r)"

lemma ends_token_simps [simp]:
  "ends_token []" "ends_token (c # r) \<longleftrightarrow> \<not> isTokenCharacter c"
  by (simp_all add: ends_token_def)

lemma separators [simp]:
  "\<not> isTokenCharacter CHR '',''" "\<not> isTokenCharacter CHR '';''" "\<not> isTokenCharacter CHR ''=''"
  "\<not> isTokenCharacter CHR '' ''" "\<not> isTokenCharacter CHR 0x22" "\<not> isTokenCharacter CHR 0x09"
  by (simp_all add: isTokenCharacter_def less_eq_char_def)

lemma readToken_append: "isToken t \<Longrightarrow> ends_token r \<Longrightarrow> readToken (t @ r) = Some (t, r)"
proof -
  assume t: "isToken t" and r: "ends_token r"
  then have "takeWhile isTokenCharacter (t @ r) = t" "dropWhile isTokenCharacter (t @ r) = r"
    by (cases r; simp add: isToken_def list_all_iff takeWhile_append dropWhile_append)+
  with t show ?thesis by (simp add: readToken_def isToken_def)
qed

lemma skipWhitespace_simps [simp]:
  "skipWhitespace [] = []"
  "skipWhitespace (CHR '' '' # r) = skipWhitespace r"
  "c \<noteq> CHR '' '' \<Longrightarrow> c \<noteq> CHR 0x09 \<Longrightarrow> skipWhitespace (c # r) = c # r"
  by (simp_all add: skipWhitespace_def)

lemma skipWhitespace_token: "isToken t \<Longrightarrow> skipWhitespace (t @ r) = t @ r"
proof -
  assume "isToken t"
  then obtain c u where "t = c # u" "isTokenCharacter c" by (cases t) (auto simp: isToken_def)
  moreover from this have "c \<noteq> CHR '' ''" "c \<noteq> CHR 0x09" by auto
  ultimately show ?thesis by simp
qed

lemma escape_quotable:
  assumes "isQuotable c"
  shows "quotedFrom v (escape c @ r) = quotedFrom (v @ [c]) r"
proof (cases "c = CHR 0x22 \<or> c = CHR 0x5C")
  case True
  then show ?thesis by (auto simp: escape_def less_char_def)
next
  case False
  have code: "n = 9 \<or> n = 32 \<or> n = 33 \<or> (35 \<le> n \<and> n \<le> 91) \<or> 93 \<le> n"
    if "n = 9 \<or> 32 \<le> n" "n \<noteq> 34" "n \<noteq> 92" for n :: nat
    using that by arith
  from assms False code [of "of_char c"] show ?thesis
    by (auto simp: escape_def isQuotable_def less_eq_char_def char_eq_code simp del: of_char_eq_iff)
qed

lemma quotedFrom_escape:
  "list_all isQuotable u \<Longrightarrow> quotedFrom v (concat (map escape u) @ CHR 0x22 # r) = Some (v @ u, r)"
  by (induction u arbitrary: v) (simp_all add: escape_quotable)


lemma readValue_print:
  assumes "list_all isQuotable v" "ends_token r"
  shows "(let rest = skipWhitespace (printValue v @ r)
          in if rest \<noteq> [] \<and> hd rest = CHR 0x22 then readQuotedString rest else readToken rest) = Some (v, r)"
proof (cases "isToken v")
  case True
  then obtain c u where v: "v = c # u" "isTokenCharacter c" by (cases v) (auto simp: isToken_def)
  then have "c \<noteq> CHR 0x22" by auto
  with True v readToken_append [OF True assms(2)] skipWhitespace_token [OF True] show ?thesis
    by (simp add: printValue_def)
next
  case False
  with quotedFrom_escape [OF assms(1)] show ?thesis
    by (simp add: printValue_def readQuotedString_def)
qed

lemma readParameter_print:
  assumes "printableParameter p" "ends_token r" "r = [] \<or> hd r \<noteq> CHR ''=''" "skipWhitespace r = r"
  shows "readParameter (tl (printParameter p) @ r) = Some (p, r)"
proof -
  have name: "isToken (p_name p)" using assms(1) by (simp add: printableParameter_def)
  show ?thesis
  proof (cases "hasValue p")
    case True
    then have "list_all isQuotable (p_value p)" using assms(1) by (simp add: printableParameter_def)
    from readValue_print [OF this assms(2)] True show ?thesis
      by (simp add: readParameter_def printParameter_def skipWhitespace_token [OF name]
          readToken_append [OF name] Let_def)
  next
    case False
    then have "p_value p = []" using assms(1) by (simp add: printableParameter_def)
    with False assms show ?thesis
      by (simp add: readParameter_def printParameter_def skipWhitespace_token [OF name]
          readToken_append [OF name] Let_def)
  qed
qed

lemma printParameter_start: "printParameter p @ r = CHR '';'' # tl (printParameter p) @ r"
  by (simp add: printParameter_def)

definition ends_offer :: "string \<Rightarrow> bool" where
  "ends_offer r \<longleftrightarrow> r = [] \<or> hd r = CHR '',''"

lemma ends_offer_parameters:
  "ends_offer r \<Longrightarrow> ends_token (concat (map printParameter ps) @ r)"
  "ends_offer r \<Longrightarrow> concat (map printParameter ps) @ r = [] \<or> hd (concat (map printParameter ps) @ r) \<noteq> CHR ''=''"
  "ends_offer r \<Longrightarrow> skipWhitespace (concat (map printParameter ps) @ r) = concat (map printParameter ps) @ r"
  by (cases ps; cases r; auto simp: ends_offer_def printParameter_def)+

lemma readParameters_print:
  "list_all printableParameter ps \<Longrightarrow> ends_offer r \<Longrightarrow>
   readParameters acc (concat (map printParameter ps) @ r) = Some (acc @ ps, r)"
proof (induction ps arbitrary: acc)
  case Nil
  then show ?case by (cases r) (auto simp: readParameters.simps ends_offer_def)
next
  case (Cons p ps)
  have "readParameter (tl (printParameter p) @ concat (map printParameter ps) @ r) =
        Some (p, concat (map printParameter ps) @ r)"
    using Cons.prems by (intro readParameter_print ends_offer_parameters) simp_all
  with Cons show ?case
    by (subst readParameters.simps) (simp add: printParameter_start)
qed

lemma readOffers_print:
  "list_all printableOffer offers \<Longrightarrow> offers \<noteq> [] \<Longrightarrow>
   readOffers acc (printOffers offers) = Some (acc @ offers)"
proof (induction offers arbitrary: acc rule: printOffers.induct)
  case (2 offer)
  then show ?case
    using readToken_append [of "o_name offer" "concat (map printParameter (parameters offer))"]
      readParameters_print [of "parameters offer" "[]" "[]"]
      ends_offer_parameters(1) [of "[]" "parameters offer"]
    by (subst readOffers.simps) (simp add: printOffer_def printableOffer_def ends_offer_def)
next
  case (3 offer offer' offers)
  let ?r = "CHR '','' # CHR '' '' # printOffers (offer' # offers)"
  obtain c u where start: "printOffers (offer' # offers) = c # u" "isTokenCharacter c"
    using 3(2) by (cases offers; cases "o_name offer'")
      (auto simp: printOffer_def printableOffer_def isToken_def)
  then have "c \<noteq> CHR '' ''" "c \<noteq> CHR 0x09" by auto
  then show ?case
    using 3 start readToken_append [of "o_name offer" "concat (map printParameter (parameters offer)) @ ?r"]
      readParameters_print [of "parameters offer" ?r "[]"]
      ends_offer_parameters(1) [of ?r "parameters offer"]
    by (subst readOffers.simps) (simp add: printOffer_def printableOffer_def ends_offer_def)
qed simp

lemma parse_print_nonempty:
  assumes "list_all printableOffer offers" "offers \<noteq> []"
  shows "parse (printOffers offers) = Some offers"
proof -
  obtain offer rest where o: "offers = offer # rest" using assms(2) by (cases offers) auto
  then have "isToken (o_name offer)" using assms(1) by (simp add: printableOffer_def)
  from skipWhitespace_token [OF this] o
  have "skipWhitespace (printOffers offers) = printOffers offers" "printOffers offers \<noteq> []"
    using \<open>isToken (o_name offer)\<close> by (cases rest; simp add: printOffer_def isToken_def)+
  with readOffers_print [OF assms, of "[]"] show ?thesis by (simp add: parse_def)
qed

text \<open>What the negotiator answers, as an offer.\<close>

definition answer :: "ExtensionsNegotiator \<Rightarrow> ExtensionOffer" where
  "answer neg = \<lparr>o_name = ''permessage-deflate'', parameters =
     (if has_option (opts neg) CLIENT_NO_CONTEXT_TAKEOVER
      then [\<lparr>p_name = ''client_no_context_takeover'', p_value = [], hasValue = False\<rparr>] else []) @
     (if has_option (opts neg) SERVER_NO_CONTEXT_TAKEOVER
      then [\<lparr>p_name = ''server_no_context_takeover'', p_value = [], hasValue = False\<rparr>] else []) @
     (if serverMaxWindowBitsNegotiated neg
      then [\<lparr>p_name = ''server_max_window_bits'', p_value = digits (serverMaxWindowBits neg), hasValue = True\<rparr>]
      else [])\<rparr>"

lemma isTokenCharacter_lower:
  "list_all (\<lambda>c. c \<in> set ''abcdefghijklmnopqrstuvwxyz0123456789-_'') t \<Longrightarrow> t \<noteq> [] \<Longrightarrow> isToken t"
proof -
  assume t: "list_all (\<lambda>c. c \<in> set ''abcdefghijklmnopqrstuvwxyz0123456789-_'') t" "t \<noteq> []"
  have "list_all (\<lambda>c. isTokenCharacter c \<and> lowerChar c = c) ''abcdefghijklmnopqrstuvwxyz0123456789-_''"
    by (simp add: isTokenCharacter_def lowerChar_def less_eq_char_def)
  then have "\<forall>c \<in> set ''abcdefghijklmnopqrstuvwxyz0123456789-_''. isTokenCharacter c \<and> lowerChar c = c"
    by (simp only: list_all_iff)
  with t(1) have "\<forall>c \<in> set t. isTokenCharacter c \<and> lowerChar c = c"
    unfolding list_all_iff by blast
  with t(2) show ?thesis by (simp add: isToken_def list_all_iff lowerAscii_def map_idI)
qed

lemma char_of_digit:
  "char_of (48 :: nat) = CHR ''0''" "char_of (49 :: nat) = CHR ''1''" "char_of (50 :: nat) = CHR ''2''"
  "char_of (51 :: nat) = CHR ''3''" "char_of (52 :: nat) = CHR ''4''" "char_of (53 :: nat) = CHR ''5''"
  "char_of (57 :: nat) = CHR ''9''"
  by (subst char_eq_code; simp)+

lemma digits_window: "9 \<le> n \<Longrightarrow> n \<le> 15 \<Longrightarrow> digits n \<in> {''9'', ''10'', ''11'', ''12'', ''13'', ''14'', ''15''}"
proof -
  assume "9 \<le> n" "n \<le> 15"
  then have "n = 9 \<or> n = 10 \<or> n = 11 \<or> n = 12 \<or> n = 13 \<or> n = 14 \<or> n = 15" by arith
  then show ?thesis by (elim disjE) (simp_all add: char_of_digit digits.simps)
qed

lemma isToken_names [simp]:
  "isToken ''permessage-deflate''" "isToken ''client_no_context_takeover''"
  "isToken ''server_no_context_takeover''" "isToken ''server_max_window_bits''"
  by (rule isTokenCharacter_lower; simp)+

lemma isToken_digits: "9 \<le> n \<Longrightarrow> n \<le> 15 \<Longrightarrow> isToken (digits n)"
  using digits_window [of n] by (auto intro!: isTokenCharacter_lower)

lemma isToken_quotable: "isToken t \<Longrightarrow> list_all isQuotable t"
  by (auto simp: isToken_def list_all_iff isQuotable_def isTokenCharacter_def less_eq_char_def)

section \<open>The negotiator\<close>

lemma isCompatibleOffer_eq:
  "o_name offer = ''permessage-deflate'' \<Longrightarrow>
   isCompatibleOffer offer wanted =
     (if acceptableOffer wanted offer
      then Some (case requestedBits (parameters offer) of None \<Rightarrow> (15, False) | Some b \<Rightarrow> (b, True)) else None)"
  by (simp add: isCompatibleOffer_def compatibleFrom_eq acceptableOffer_def)

lemma firstCompatible_eq:
  "firstCompatible wanted offers =
     map_option (\<lambda>offer. case requestedBits (parameters offer) of None \<Rightarrow> (15, False) | Some b \<Rightarrow> (b, True))
       (List.find (acceptableOffer wanted) offers)"
proof (induction offers)
  case (Cons offer offers)
  then show ?case
    by (cases "o_name offer = ''permessage-deflate''") (auto simp: isCompatibleOffer_eq acceptableOffer_def)
qed simp

lemma find_SomeD: "List.find P xs = Some x \<Longrightarrow> x \<in> set xs \<and> P x"
  by (auto simp: find_Some_iff)

lemma requestedBits_bounds:
  assumes "acceptableOffer wanted offer" "requestedBits (parameters offer) = Some b"
  shows "9 \<le> b \<and> b \<le> 15"
proof -
  from assms(2) obtain p where p: "p \<in> set (parameters offer)" "p_name p = ''server_max_window_bits''"
    and b: "b = windowBitsValue p"
    by (auto simp: requestedBits_def dest: find_SomeD)
  with assms(1) have "acceptableParameter wanted p" by (auto simp: acceptableOffer_def list_all_iff)
  with p(2) have "9 \<le> windowBitsValue p"
    by (subst windowBitsValue_values) (auto simp: acceptableParameter_def)
  with b windowBitsValue_values(2) show ?thesis by simp
qed

lemma cleared_options:
  "has_option (w AND NOT PERMESSAGE_DEFLATE AND NOT takeover_flags) PERMESSAGE_DEFLATE = False"
  by (simp add: has_option_def and.assoc and.left_commute takeover_flags_def)

definition window_ok :: "ExtensionsNegotiator \<Rightarrow> bool" where
  "window_ok neg \<longleftrightarrow> 9 \<le> serverMaxWindowBits neg \<and> serverMaxWindowBits neg \<le> 15 \<and>
     (\<not> serverMaxWindowBitsNegotiated neg \<longrightarrow> serverMaxWindowBits neg = 15)"

lemma readOffer_window_ok: "window_ok neg \<Longrightarrow> window_ok (readOffer neg s)"
  by (auto simp: readOffer_def window_ok_def firstCompatible_eq requestedBits_bounds
      split: option.splits prod.splits dest!: find_SomeD dest: requestedBits_bounds)

lemma window_ok_new: "window_ok (newNegotiator w)"
  by (simp add: window_ok_def newNegotiator_def)

lemma printOffer_answer:
  "has_option (opts neg) PERMESSAGE_DEFLATE \<Longrightarrow> window_ok neg \<Longrightarrow> generateOffer neg = printOffer (answer neg)"
  by (simp add: generateOffer_def printOffer_def answer_def printParameter_def printValue_def window_ok_def
      isToken_digits)

lemma printable_answer: "window_ok neg \<Longrightarrow> printableOffer (answer neg)"
  by (simp add: printableOffer_def answer_def printableParameter_def window_ok_def isToken_digits
      isToken_quotable)

lemma parse_generateOffer:
  assumes "window_ok neg"
  shows "parse (generateOffer neg) = Some (if has_option (opts neg) PERMESSAGE_DEFLATE then [answer neg] else [])"
proof (cases "has_option (opts neg) PERMESSAGE_DEFLATE")
  case True
  then show ?thesis
    using parse_print_nonempty [of "[answer neg]"] printable_answer [OF assms] printOffer_answer [OF True assms] by simp
next
  case False
  then show ?thesis by (simp add: generateOffer_def parse_def)
qed

text \<open>
  C35: the parser of \<open>Sec-WebSocket-Extensions\<close> inverts printing: every list of offers with
  token names, and with values that are tokens or any quotable string, is read back exactly, quoting
  and escapes included.
\<close>
theorem parse_printOffers:
  "list_all printableOffer offers \<Longrightarrow> parse (printOffers offers) = Some offers"
proof (cases "offers = []")
  case True
  then show ?thesis by (simp add: parse_def)
qed (rule parse_print_nonempty)

lemma parse_printOffers_witness:
  "parse (printOffers [\<lparr>o_name = ''foo'', parameters = [\<lparr>p_name = ''a'', p_value = ''x; y'', hasValue = True\<rparr>]\<rparr>,
     \<lparr>o_name = ''bar'', parameters = []\<rparr>]) =
   Some [\<lparr>o_name = ''foo'', parameters = [\<lparr>p_name = ''a'', p_value = ''x; y'', hasValue = True\<rparr>]\<rparr>,
     \<lparr>o_name = ''bar'', parameters = []\<rparr>]"
  by (rule parse_printOffers)
     (simp add: printableOffer_def printableParameter_def isTokenCharacter_lower isQuotable_def less_eq_char_def)

text \<open>
  C36: the negotiator accepts the first acceptable offer of the header and no other: names and
  values of the parameters are all known, within range and never repeated; it then keeps the wanted
  options and the window the offer asks for, 15 bits when it asks for none. With no acceptable
  offer, or a header that does not parse, compression and its options are switched off.
\<close>
theorem readOffer_first_acceptable:
  assumes "has_option wanted PERMESSAGE_DEFLATE"
  shows "readOffer (newNegotiator wanted) header =
    (case Option.bind (parse header) (List.find (acceptableOffer wanted)) of
       None \<Rightarrow> newNegotiator (wanted AND NOT PERMESSAGE_DEFLATE AND NOT takeover_flags)
     | Some offer \<Rightarrow>
         \<lparr>opts = wanted,
          serverMaxWindowBits = (case requestedBits (parameters offer) of None \<Rightarrow> 15 | Some b \<Rightarrow> b),
          serverMaxWindowBitsNegotiated = (requestedBits (parameters offer) \<noteq> None)\<rparr>)"
  using assms
  by (cases "parse header") (auto simp: readOffer_def newNegotiator_def firstCompatible_eq split: option.splits)

lemma readOffer_first_acceptable_witness:
  "serverMaxWindowBits (readOffer (newNegotiator 3) ''x'') = 15 \<and> has_option (3 :: options) PERMESSAGE_DEFLATE"
proof -
  have pd: "has_option (3 :: options) PERMESSAGE_DEFLATE" by (simp add: has_option_def)
  have "parse (printOffers [\<lparr>o_name = ''x'', parameters = []\<rparr>]) = Some [\<lparr>o_name = ''x'', parameters = []\<rparr>]"
    by (rule parse_print_nonempty) (simp_all add: printableOffer_def isTokenCharacter_lower)
  then have "parse ''x'' = Some [\<lparr>o_name = ''x'', parameters = []\<rparr>]" by (simp add: printOffer_def)
  with pd readOffer_first_acceptable [OF pd, of "''x''"] show ?thesis
    by (simp add: acceptableOffer_def newNegotiator_def)
qed

text \<open>
  C37: the answer sent to the client is itself a well-formed header: it parses to exactly one
  \<open>permessage-deflate\<close> offer whose parameters are the negotiated ones, each at most once, with a
  window between 9 and 15 bits, which is what zlib honours; nothing is sent after a refusal.
\<close>
theorem generateOffer_answer:
  "let neg = readOffer (newNegotiator wanted) header
   in parse (generateOffer neg) = Some (if has_option (opts neg) PERMESSAGE_DEFLATE then [answer neg] else []) \<and>
      distinct (map p_name (parameters (answer neg))) \<and>
      9 \<le> serverMaxWindowBits neg \<and> serverMaxWindowBits neg \<le> 15"
proof -
  define neg where "neg = readOffer (newNegotiator wanted) header"
  then have ok: "window_ok neg" by (simp add: readOffer_window_ok window_ok_new)
  note parse_generateOffer [OF ok]
  moreover have "distinct (map p_name (parameters (answer neg)))" by (simp add: answer_def)
  ultimately show ?thesis using ok unfolding neg_def [symmetric] Let_def by (simp add: window_ok_def)
qed

end
