(* ===== verification/Compression.thy ===== *)
theory Compression
  imports Extensions
begin

text \<open>
  \<open>CompressionContext\<close> of \<open>StreamWebSocket.cpp\<close>. zlib is not part of the repository: it is the
  parameter \<open>Z\<close>, a record of its functions on an opaque stream state. A call of \<open>inflate\<close> or
  \<open>deflate\<close> receives the unread input (\<open>next_in\<close>, \<open>avail_in\<close>) and the room in the output chunk
  (\<open>avail_out\<close>) and gives back the return code, the state, the input left over and the bytes
  written. Allocation failures are not modelled.
\<close>

section \<open>zlib\<close>

definition Z_OK :: int where "Z_OK = 0"
definition Z_STREAM_END :: int where "Z_STREAM_END = 1"
definition Z_BUF_ERROR :: int where "Z_BUF_ERROR = -5"

record 'z zlib =
  inflateInit2 :: "int \<times> 'z"
  inflate :: "'z \<Rightarrow> byte list \<Rightarrow> nat \<Rightarrow> int \<times> 'z \<times> byte list \<times> byte list"
  inflateReset :: "'z \<Rightarrow> int \<times> 'z"
  inflateGetDictionary :: "'z \<Rightarrow> int \<times> byte list"
  inflateSetDictionary :: "'z \<Rightarrow> byte list \<Rightarrow> int \<times> 'z"
  deflateInit2 :: "nat \<Rightarrow> int \<times> 'z"
  deflate :: "'z \<Rightarrow> byte list \<Rightarrow> nat \<Rightarrow> int \<times> 'z \<times> byte list \<times> byte list"
  deflateReset :: "'z \<Rightarrow> int \<times> 'z"
  zeroStream :: 'z

definition ZLIB_CHUNK_SIZE :: nat where "ZLIB_CHUNK_SIZE = 32 * 1024"
definition DEFLATE_TRAILER :: "byte list" where "DEFLATE_TRAILER = [0x00, 0x00, 0xff, 0xff]"
definition UINT_MAX :: nat where "UINT_MAX = 2 ^ 32 - 1"

lemmas zlib_sizes = Z_OK_def Z_STREAM_END_def Z_BUF_ERROR_def ZLIB_CHUNK_SIZE_def DEFLATE_TRAILER_def UINT_MAX_def

section \<open>The context\<close>

datatype InflateResult = SUCCESS | INVALID_DATA | PAYLOAD_TOO_LARGE | INTERNAL_ERROR

record 'z CompressionContext =
  inflationStream :: 'z
  deflationStream :: 'z
  inflaterInitialized :: bool
  deflaterInitialized :: bool
  deflaterWindowBits :: nat

definition newCompressionContext :: "'z zlib \<Rightarrow> 'z CompressionContext" where
  "newCompressionContext Z =
     \<lparr>inflationStream = zeroStream Z, deflationStream = zeroStream Z, inflaterInitialized = False,
      deflaterInitialized = False, deflaterWindowBits = 0\<rparr>"

definition ensureInflater :: "'z zlib \<Rightarrow> 'z CompressionContext \<Rightarrow> bool \<times> 'z CompressionContext" where
  "ensureInflater Z ctx =
     (if inflaterInitialized ctx then (True, ctx)
      else let (rc, z) = inflateInit2 Z; ctx = ctx\<lparr>inflationStream := z\<rparr>
           in if rc \<noteq> Z_OK then (False, ctx) else (True, ctx\<lparr>inflaterInitialized := True\<rparr>))"

definition ensureDeflater :: "'z zlib \<Rightarrow> nat \<Rightarrow> 'z CompressionContext \<Rightarrow> bool \<times> 'z CompressionContext" where
  "ensureDeflater Z windowBits ctx =
     (if deflaterInitialized ctx \<and> deflaterWindowBits ctx = windowBits then (True, ctx)
      else let ctx = (if deflaterInitialized ctx
                      then ctx\<lparr>deflationStream := zeroStream Z, deflaterInitialized := False, deflaterWindowBits := 0\<rparr>
                      else ctx);
               (rc, z) = deflateInit2 Z windowBits;
               ctx = ctx\<lparr>deflationStream := z\<rparr>
           in if rc \<noteq> Z_OK then (False, ctx)
              else (True, ctx\<lparr>deflaterInitialized := True, deflaterWindowBits := windowBits\<rparr>))"

definition resetInflater :: "'z zlib \<Rightarrow> 'z CompressionContext \<Rightarrow> bool \<times> 'z CompressionContext" where
  "resetInflater Z ctx =
     (if \<not> inflaterInitialized ctx then (True, ctx)
      else let (rc, z) = inflateReset Z (inflationStream ctx)
           in if rc = Z_OK then (True, ctx\<lparr>inflationStream := z\<rparr>)
              else (False, ctx\<lparr>inflationStream := zeroStream Z, inflaterInitialized := False\<rparr>))"

definition restartInflater :: "'z zlib \<Rightarrow> 'z CompressionContext \<Rightarrow> bool \<times> 'z CompressionContext" where
  "restartInflater Z ctx =
     (let (rc, dictionary) = inflateGetDictionary Z (inflationStream ctx)
      in if rc \<noteq> Z_OK then (False, ctx)
      else let (ok, ctx) = resetInflater Z ctx
      in if \<not> ok then (False, ctx)
      else if dictionary = [] then (True, ctx)
      else let (rc, z) = inflateSetDictionary Z (inflationStream ctx) dictionary
           in (rc = Z_OK, ctx\<lparr>inflationStream := z\<rparr>))"

definition resetDeflater :: "'z zlib \<Rightarrow> 'z CompressionContext \<Rightarrow> bool \<times> 'z CompressionContext" where
  "resetDeflater Z ctx =
     (if \<not> deflaterInitialized ctx then (True, ctx)
      else let (rc, z) = deflateReset Z (deflationStream ctx)
           in if rc = Z_OK then (True, ctx\<lparr>deflationStream := z\<rparr>)
              else (False, ctx\<lparr>deflationStream := zeroStream Z, deflaterInitialized := False, deflaterWindowBits := 0\<rparr>))"

section \<open>The loops\<close>

text \<open>A run of the loop that does not end is \<open>None\<close>.\<close>

partial_function (option) inflateLoop ::
  "'z zlib \<Rightarrow> nat \<Rightarrow> 'z CompressionContext \<Rightarrow> byte list \<Rightarrow> byte list \<Rightarrow>
   (InflateResult \<times> 'z CompressionContext \<times> byte list) option" where
  "inflateLoop Z maxPayload ctx input output =
     (let (result, z, rest, produced) = inflate Z (inflationStream ctx) input ZLIB_CHUNK_SIZE;
          ctx = ctx\<lparr>inflationStream := z\<rparr>
      in if produced \<noteq> [] \<and> maxPayload \<noteq> 0 \<and> length output + length produced > maxPayload
         then Some (PAYLOAD_TOO_LARGE, snd (resetInflater Z ctx), output)
         else let output = output @ produced
         in if result \<noteq> Z_OK \<and> result \<noteq> Z_BUF_ERROR \<and> result \<noteq> Z_STREAM_END
            then Some (INVALID_DATA, snd (resetInflater Z ctx), output)
            else if result = Z_STREAM_END then
              (let (ok, ctx) = restartInflater Z ctx
               in if \<not> ok then Some (INTERNAL_ERROR, snd (resetInflater Z ctx), output)
                  else inflateLoop Z maxPayload ctx rest output)
            else if rest = [] \<and> ZLIB_CHUNK_SIZE - length produced \<noteq> 0 then Some (SUCCESS, ctx, output)
            else if length input = length rest \<and> produced = []
            then Some (INVALID_DATA, snd (resetInflater Z ctx), output)
            else inflateLoop Z maxPayload ctx rest output)"

definition inflateMessage ::
  "'z zlib \<Rightarrow> 'z CompressionContext \<Rightarrow> byte list \<Rightarrow> nat \<Rightarrow> bool \<Rightarrow>
   (InflateResult \<times> 'z CompressionContext \<times> byte list) option" where
  "inflateMessage Z ctx dat maxPayload resetAfter =
     (let (ok, ctx) = ensureInflater Z ctx
      in if \<not> ok \<or> length dat > UINT_MAX - length DEFLATE_TRAILER then Some (INTERNAL_ERROR, ctx, [])
      else case inflateLoop Z maxPayload ctx (dat @ DEFLATE_TRAILER) [] of
        None \<Rightarrow> None
      | Some (result, ctx, output) \<Rightarrow>
          if result \<noteq> SUCCESS then Some (result, ctx, output)
          else if resetAfter then
            (let (ok, ctx) = resetInflater Z ctx
             in Some (if \<not> ok then INTERNAL_ERROR else SUCCESS, ctx, output))
          else Some (SUCCESS, ctx, output))"

partial_function (option) deflateLoop ::
  "'z zlib \<Rightarrow> 'z CompressionContext \<Rightarrow> byte list \<Rightarrow> byte list \<Rightarrow> (bool \<times> 'z CompressionContext \<times> byte list) option" where
  "deflateLoop Z ctx input output =
     (let (result, z, rest, produced) = deflate Z (deflationStream ctx) input ZLIB_CHUNK_SIZE;
          ctx = ctx\<lparr>deflationStream := z\<rparr>
      in if result \<noteq> Z_OK then Some (False, snd (resetDeflater Z ctx), output)
         else let output = output @ produced
         in if ZLIB_CHUNK_SIZE - length produced = 0 then deflateLoop Z ctx rest output
            else Some (True, ctx, output))"

definition deflateMessage ::
  "'z zlib \<Rightarrow> 'z CompressionContext \<Rightarrow> byte list \<Rightarrow> nat \<Rightarrow> bool \<Rightarrow>
   (bool \<times> 'z CompressionContext \<times> byte list) option" where
  "deflateMessage Z ctx dat windowBits resetAfter =
     (let (ok, ctx) = ensureDeflater Z windowBits ctx
      in if \<not> ok \<or> length dat > UINT_MAX then Some (False, ctx, [])
      else case deflateLoop Z ctx dat [] of
        None \<Rightarrow> None
      | Some (ok, ctx, output) \<Rightarrow>
          if \<not> ok then Some (False, ctx, output)
          else if length output < length DEFLATE_TRAILER \<or>
                  drop (length output - length DEFLATE_TRAILER) output \<noteq> DEFLATE_TRAILER
          then Some (False, snd (resetDeflater Z ctx), output)
          else let output = take (length output - length DEFLATE_TRAILER) output
               in if resetAfter then (let (ok, ctx) = resetDeflater Z ctx in Some (ok, ctx, output))
                  else Some (True, ctx, output))"

declare inflateLoop.simps [code] deflateLoop.simps [code]

section \<open>Termination and the output bound\<close>

text \<open>
  A stream is running (\<open>runningStream\<close>) from the moment it is initialised, or reset, until a call of \<open>inflate\<close> reports
  its end or an error. What the loop relies on of \<open>inflate\<close> is what \<open>zlib.h\<close> documents of a running
  stream: it writes at most \<open>avail_out\<close> bytes, never gives input back, and the call that reports the end
  of the stream is the one that reached it, so it consumed or produced something. Nothing is supposed
  of a stream that has ended, on which the real \<open>inflate\<close> repeats \<open>Z_STREAM_END\<close> without progress:
  that the loop never calls it there is proved (\<open>usable\<close>), from the restart after every stream end.
\<close>

inductive runningStream :: "'z zlib \<Rightarrow> 'z \<Rightarrow> bool" for Z :: "'z zlib" where
  initialised: "inflateInit2 Z = (Z_OK, z) \<Longrightarrow> runningStream Z z"
| restarted: "inflateReset Z z = (Z_OK, z') \<Longrightarrow> runningStream Z z'"
| primed: "runningStream Z z \<Longrightarrow> inflateSetDictionary Z z dictionary = (Z_OK, z') \<Longrightarrow> runningStream Z z'"
| continued: "runningStream Z z \<Longrightarrow> inflate Z z input ZLIB_CHUNK_SIZE = (rc, z', rest, out) \<Longrightarrow>
    rc = Z_OK \<or> rc = Z_BUF_ERROR \<Longrightarrow> runningStream Z z'"

definition inflate_lawful :: "'z zlib \<Rightarrow> bool" where
  "inflate_lawful Z \<longleftrightarrow> (\<forall>z input rc z' rest out.
     runningStream Z z \<longrightarrow> inflate Z z input ZLIB_CHUNK_SIZE = (rc, z', rest, out) \<longrightarrow>
       length out \<le> ZLIB_CHUNK_SIZE \<and> length rest \<le> length input \<and>
       (rc = Z_STREAM_END \<longrightarrow> length rest < length input \<or> out \<noteq> []))"

text \<open>The stream of a context, once initialised, is running whenever no call is in progress.\<close>

definition usable :: "'z zlib \<Rightarrow> 'z CompressionContext \<Rightarrow> bool" where
  "usable Z ctx \<longleftrightarrow> (inflaterInitialized ctx \<longrightarrow> runningStream Z (inflationStream ctx))"

lemma usable_new [simp]: "usable Z (newCompressionContext Z)"
  by (simp add: usable_def newCompressionContext_def)

lemma ensureInflater_runs:
  "usable Z ctx \<Longrightarrow> ensureInflater Z ctx = (ok, ctx') \<Longrightarrow>
   usable Z ctx' \<and> (ok \<longrightarrow> inflaterInitialized ctx' \<and> runningStream Z (inflationStream ctx'))"
  by (auto simp: ensureInflater_def usable_def Let_def intro: runningStream.initialised split: if_splits prod.splits)

lemma resetInflater_usable [simp]: "usable Z (snd (resetInflater Z ctx))"
  by (auto simp: resetInflater_def usable_def intro: runningStream.restarted split: prod.split)

lemma restartInflater_runs:
  "inflaterInitialized ctx \<Longrightarrow> restartInflater Z ctx = (True, ctx') \<Longrightarrow>
   inflaterInitialized ctx' \<and> runningStream Z (inflationStream ctx')"
  by (auto simp: restartInflater_def resetInflater_def Let_def intro: runningStream.intros split: if_splits prod.splits)

text \<open>
  The measure of the loop is the unread input and the room the limit leaves. A round that goes on made
  progress in one of them: after a stream end by the law of a running stream, elsewhere because the code
  itself refuses a round without progress.
\<close>

lemma inflateLoop_returns:
  assumes "inflate_lawful Z" "0 < maxPayload"
  shows "length acc \<le> maxPayload \<Longrightarrow> inflaterInitialized ctx \<Longrightarrow> runningStream Z (inflationStream ctx) \<Longrightarrow>
    \<exists>res ctx' out. inflateLoop Z maxPayload ctx input acc = Some (res, ctx', out) \<and> length out \<le> maxPayload \<and> usable Z ctx'"
proof (induction "length input + (maxPayload - length acc)" arbitrary: ctx input acc rule: less_induct)
  case less
  obtain rc z rest out where i: "inflate Z (inflationStream ctx) input ZLIB_CHUNK_SIZE = (rc, z, rest, out)"
    by (cases "inflate Z (inflationStream ctx) input ZLIB_CHUNK_SIZE")
  with assms(1) less.prems(3)
  have l: "length rest \<le> length input" "rc = Z_STREAM_END \<Longrightarrow> length rest < length input \<or> out \<noteq> []"
    by (auto simp: inflate_lawful_def)
  have going: "rc = Z_OK \<or> rc = Z_BUF_ERROR \<Longrightarrow> runningStream Z z" using runningStream.continued [OF less.prems(3) i] .
  let ?ctx = "ctx\<lparr>inflationStream := z\<rparr>"
  show ?case
  proof (cases "length acc + length out \<le> maxPayload")
    case True
    have again: "\<exists>res ctx' o'. inflateLoop Z maxPayload c rest (acc @ out) = Some (res, ctx', o') \<and>
        length o' \<le> maxPayload \<and> usable Z ctx'"
      if "length rest < length input \<or> out \<noteq> []" "inflaterInitialized c" "runningStream Z (inflationStream c)" for c
    proof (rule less.hyps [OF _ _ that(2,3)])
      show "length (acc @ out) \<le> maxPayload" using True by simp
      from that l(1) have "length rest < length input \<or> 0 < length out" by auto
      with l(1) True show "length rest + (maxPayload - length (acc @ out)) < length input + (maxPayload - length acc)"
        by (simp only: length_append) linarith
    qed
    obtain ok c where r: "restartInflater Z ?ctx = (ok, c)" by (cases "restartInflater Z ?ctx")
    consider (ended) "rc = Z_STREAM_END" "ok" | (broken) "rc = Z_STREAM_END" "\<not> ok"
      | (going) "rc = Z_OK \<or> rc = Z_BUF_ERROR" "rc \<noteq> Z_STREAM_END" | (refused) "rc \<noteq> Z_OK" "rc \<noteq> Z_BUF_ERROR" "rc \<noteq> Z_STREAM_END"
      by blast
    then show ?thesis
    proof cases
      case ended
      have "inflaterInitialized c \<and> runningStream Z (inflationStream c)"
        using restartInflater_runs [of ?ctx Z c] r ended(2) less.prems(2) by simp
      with again [of c] l(2) ended True assms(2) i r show ?thesis
        by (subst inflateLoop.simps) simp
    next
      case broken
      with True assms(2) i r show ?thesis by (subst inflateLoop.simps) simp
    next
      case running: going
      have "length input \<noteq> length rest \<or> out \<noteq> [] \<Longrightarrow> length rest < length input \<or> out \<noteq> []" using l(1) by auto
      with again [of ?ctx] going running less.prems(2) have progress: "length input \<noteq> length rest \<or> out \<noteq> [] \<Longrightarrow> 
          \<exists>res ctx' o'. inflateLoop Z maxPayload ?ctx rest (acc @ out) = Some (res, ctx', o') \<and> length o' \<le> maxPayload \<and> usable Z ctx'"
        by simp
      have "usable Z ?ctx" using going running by (simp add: usable_def)
      with progress running True assms(2) less.prems(1) i resetInflater_usable [of Z ?ctx] show ?thesis
        by (subst inflateLoop.simps) (auto simp: Let_def)
    next
      case refused
      with True assms(2) i show ?thesis by (subst inflateLoop.simps) (auto simp: Let_def)
    qed
  next
    case False
    with less.prems assms(2) i show ?thesis by (subst inflateLoop.simps) (auto simp: Let_def)
  qed
qed

lemma inflateMessage_bounded:
  assumes "inflate_lawful Z" "0 < maxPayload" "usable Z ctx"
  obtains res ctx' out where "inflateMessage Z ctx dat maxPayload resetAfter = Some (res, ctx', out)"
    "length out \<le> maxPayload" "usable Z ctx'"
proof -
  obtain ok c where e: "ensureInflater Z ctx = (ok, c)" by (cases "ensureInflater Z ctx")
  note c = ensureInflater_runs [OF assms(3) e]
  show thesis
  proof (cases "\<not> ok \<or> length dat > UINT_MAX - length DEFLATE_TRAILER")
    case True
    with e c that [of INTERNAL_ERROR c "[]"] show thesis by (auto simp: inflateMessage_def)
  next
    case False
    with c obtain res c' out where r: "inflateLoop Z maxPayload c (dat @ DEFLATE_TRAILER) [] = Some (res, c', out)"
      "length out \<le> maxPayload" "usable Z c'"
      using inflateLoop_returns [OF assms(1,2), of "[]" c "dat @ DEFLATE_TRAILER"] by auto
    obtain ok' c'' where s: "resetInflater Z c' = (ok', c'')" by (cases "resetInflater Z c'")
    have "usable Z c''" using resetInflater_usable [of Z c'] s by simp
    with that e r s False show thesis
      by (cases "res = SUCCESS"; cases resetAfter; cases ok) (simp_all add: inflateMessage_def)
  qed
qed

text \<open>The deflater of a context leaves its inflater alone.\<close>

lemma resetDeflater_usable [simp]: "usable Z (snd (resetDeflater Z ctx)) = usable Z ctx"
  by (auto simp: resetDeflater_def usable_def split: prod.split)

lemma ensureDeflater_usable: "ensureDeflater Z w ctx = (ok, ctx') \<Longrightarrow> usable Z ctx' = usable Z ctx"
  by (auto simp: ensureDeflater_def usable_def Let_def split: if_splits prod.splits)

lemma deflateLoop_usable:
  fixes Z :: "'z zlib"
  assumes "deflateLoop Z ctx input acc = Some res"
  shows "usable Z (fst (snd res)) = usable Z ctx"
proof (rule deflateLoop.raw_induct [OF _ assms, where P = "\<lambda>Z ctx input acc res. usable Z (fst (snd res)) = usable Z ctx"])
  fix loop and Z :: "'z zlib" and ctx and input acc :: "byte list" and res :: "bool \<times> 'z CompressionContext \<times> byte list"
  assume IH: "\<And>(Z :: 'z zlib) ctx input (acc :: byte list) (res :: bool \<times> 'z CompressionContext \<times> byte list).
      loop Z ctx (input :: byte list) acc = Some res \<Longrightarrow> usable Z (fst (snd res)) = usable Z ctx"
  have same: "usable Z (ctx\<lparr>deflationStream := z\<rparr>) = usable Z ctx" for z by (simp add: usable_def)
  assume "(let (result, z, rest, produced) = deflate Z (deflationStream ctx) input ZLIB_CHUNK_SIZE;
      ctx = ctx\<lparr>deflationStream := z\<rparr>
    in if result \<noteq> Z_OK then Some (False, snd (resetDeflater Z ctx), acc)
       else let acc = acc @ produced
            in if ZLIB_CHUNK_SIZE - length produced = 0 then loop Z ctx rest acc else Some (True, ctx, acc)) = Some res"
  then show "usable Z (fst (snd res)) = usable Z ctx"
    by (auto simp: Let_def same dest: IH split: if_splits prod.splits)
qed

lemma resetDeflater_keeps: "resetDeflater Z ctx = (ok, ctx') \<Longrightarrow> usable Z ctx' = usable Z ctx"
  using resetDeflater_usable [of Z ctx] by simp

lemma deflateMessage_usable:
  "deflateMessage Z ctx dat w resetAfter = Some (ok, ctx', out) \<Longrightarrow> usable Z ctx' = usable Z ctx"
  using ensureDeflater_usable [of Z w ctx] resetDeflater_usable [of Z]
  by (auto simp: deflateMessage_def Let_def dest!: deflateLoop_usable resetDeflater_keeps split: if_splits prod.splits option.splits)

text \<open>An inflater that copies, for the evaluations where compression plays no part.\<close>

definition copyingZlib :: "unit zlib" where
  "copyingZlib =
     \<lparr>inflateInit2 = (Z_OK, ()),
      inflate = (\<lambda>z input room. (if input = [] \<or> room = 0 then Z_BUF_ERROR else Z_OK, (), drop room input, take room input)),
      inflateReset = (\<lambda>z. (Z_OK, ())), inflateGetDictionary = (\<lambda>z. (Z_OK, [])),
      inflateSetDictionary = (\<lambda>z d. (Z_OK, ())), deflateInit2 = (\<lambda>w. (Z_OK, ())),
      deflate = (\<lambda>z input room. (Z_OK, (), drop room input, take room input)),
      deflateReset = (\<lambda>z. (Z_OK, ())), zeroStream = ()\<rparr>"

text \<open>
  An inflater whose streams end: a byte 3 ends the stream, the other bytes stand for themselves except
  0 and 255, which give nothing. Like zlib's, a stream that has ended (\<open>True\<close>) repeats
  \<open>Z_STREAM_END\<close> without consuming or producing anything until it is reset.
\<close>

definition endingZlib :: "bool zlib" where
  "endingZlib =
     \<lparr>inflateInit2 = (Z_OK, False),
      inflate = (\<lambda>ended input room.
        if ended then (Z_STREAM_END, True, input, [])
        else let literal = takeWhile (\<lambda>b. b \<noteq> 3) (take room input); rest = drop (length literal) input;
                 written = filter (\<lambda>b. b \<noteq> 0 \<and> b \<noteq> 255) literal
             in if rest \<noteq> [] \<and> hd rest = 3 then (Z_STREAM_END, True, tl rest, written)
                else (if literal = [] then Z_BUF_ERROR else Z_OK, False, rest, written)),
      inflateReset = (\<lambda>_. (Z_OK, False)), inflateGetDictionary = (\<lambda>_. (Z_OK, [104])),
      inflateSetDictionary = (\<lambda>z _. (Z_OK, z)), deflateInit2 = (\<lambda>_. (Z_OK, False)),
      deflate = (\<lambda>z input room. (Z_OK, z, drop room input, take room input)),
      deflateReset = (\<lambda>z. (Z_OK, z)), zeroStream = False\<rparr>"

lemma inflate_endingZlib:
  "inflate endingZlib ended input room =
     (if ended then (Z_STREAM_END, True, input, [])
      else let literal = takeWhile (\<lambda>b. b \<noteq> 3) (take room input); rest = drop (length literal) input;
               written = filter (\<lambda>b. b \<noteq> 0 \<and> b \<noteq> 255) literal
           in if rest \<noteq> [] \<and> hd rest = 3 then (Z_STREAM_END, True, tl rest, written)
              else (if literal = [] then Z_BUF_ERROR else Z_OK, False, rest, written))"
  by (simp add: endingZlib_def)

lemma endingZlib_running: "runningStream endingZlib z \<Longrightarrow> \<not> z"
proof (induction rule: runningStream.induct)
  case (continued z input rc z' rest out)
  then show ?case
    by (auto simp: inflate_endingZlib Let_def Z_STREAM_END_def Z_BUF_ERROR_def Z_OK_def split: if_splits)
qed (simp_all add: endingZlib_def)

lemma endingZlib_lawful: "inflate_lawful endingZlib"
proof -
  have "length (filter P (takeWhile Q (take n xs))) \<le> n" for P Q and n and xs :: "byte list"
    by (rule le_trans [OF length_filter_le le_trans [OF length_takeWhile_le]]) simp
  then show ?thesis
    by (auto simp: inflate_lawful_def inflate_endingZlib Let_def Z_STREAM_END_def Z_BUF_ERROR_def Z_OK_def
        dest!: endingZlib_running split: if_splits)
qed

text \<open>
  C38: with a payload limit, \<open>inflateMessage\<close> returns on every input, however the compressed bytes are
  crafted and wherever streams end in them, and the message it hands out, or had built when it gave up,
  never exceeds the limit. It leaves the context as the next message needs it.
\<close>
theorem inflateMessage_returns:
  assumes "inflate_lawful Z" "0 < maxPayload" "usable Z ctx"
  shows "\<exists>res ctx' out. inflateMessage Z ctx dat maxPayload resetAfter = Some (res, ctx', out) \<and>
    length out \<le> maxPayload \<and> usable Z ctx'"
  using assms by (rule inflateMessage_bounded) blast

lemma inflateMessage_returns_witness:
  "\<exists>res ctx' out. inflateMessage endingZlib (newCompressionContext endingZlib) [104, 3, 105, 3, 3, 106] 4 True = Some (res, ctx', out) \<and>
     length out \<le> 4 \<and> usable endingZlib ctx'"
  by (rule inflateMessage_returns) (simp_all add: endingZlib_lawful)

lemma crossing_stream_ends:
  "inflateMessage endingZlib (newCompressionContext endingZlib) [104, 3, 105, 3, 3, 106] 4 True =
     Some (SUCCESS, (newCompressionContext endingZlib)\<lparr>inflaterInitialized := True\<rparr>, [104, 105, 106])"
  by (simp add: inflateMessage_def ensureInflater_def newCompressionContext_def endingZlib_def inflateLoop.simps
      restartInflater_def resetInflater_def zlib_sizes)

end
