(* ===== verification/Stream_WebSocket.thy ===== *)
theory Stream_WebSocket
  imports Chunking Compression
begin

text \<open>
  \<open>StreamWebSocket\<close>: the object behind the parser's hooks. It assembles messages, answers pings and
  closes, and queues the events of one read. \<open>cpu\<close> selects the vector unit, \<open>Z\<close> is zlib. The spare
  capacity of strings and vectors, which \<open>trimBuffer\<close> and \<open>releaseEvents\<close> give back, is not modelled.
\<close>

section \<open>State\<close>

datatype EventType = MESSAGE | FRAME | CLOSED

datatype region = InputBuffer | HeaderBuffer

text \<open>
  A view is a pointer into a buffer; the model keeps with it the bytes it designates when the event
  is queued.
\<close>

record StreamWebSocketEvent =
  ev_type :: EventType
  ev_data :: "byte list"
  ev_opCode :: OpCode
  ev_code :: nat
  view :: "((region \<times> nat) \<times> byte list) option"

definition payloadData :: "StreamWebSocketEvent \<Rightarrow> byte list" where
  "payloadData e = (case view e of Some (_, bytes) \<Rightarrow> bytes | None \<Rightarrow> ev_data e)"

datatype CompressionStatus = DISABLED | ENABLED | COMPRESSED_FRAME

record 'z StreamWebSocket =
  maxPayload :: nat
  extensionOptions :: options
  windowBits :: nat
  compressionStatus :: CompressionStatus
  fragmentBuffer :: "byte list"
  controlTipLength :: nat
  events :: "StreamWebSocketEvent list"
  sharedCompressionContext :: "'z CompressionContext option"
  privateCompressionContext :: "'z CompressionContext option"
  closing :: bool
  closeSent :: bool
  failureCode :: nat

definition newStreamWebSocket ::
  "'z zlib \<Rightarrow> options \<Rightarrow> nat \<Rightarrow> nat \<Rightarrow> 'z CompressionContext option \<Rightarrow> 'z StreamWebSocket" where
  "newStreamWebSocket Z negotiatedOptions bits limit context =
     (let status = (if has_option negotiatedOptions PERMESSAGE_DEFLATE then ENABLED else DISABLED)
      in \<lparr>maxPayload = limit, extensionOptions = negotiatedOptions, windowBits = bits,
          compressionStatus = status, fragmentBuffer = [], controlTipLength = 0, events = [],
          sharedCompressionContext =
            (if status \<noteq> DISABLED \<and> context = None then Some (newCompressionContext Z) else context),
          privateCompressionContext =
            (if status \<noteq> DISABLED \<and>
                (\<not> has_option negotiatedOptions CLIENT_NO_CONTEXT_TAKEOVER \<or>
                 \<not> has_option negotiatedOptions SERVER_NO_CONTEXT_TAKEOVER)
             then Some (newCompressionContext Z) else None),
          closing = False, closeSent = False, failureCode = 1002\<rparr>)"

section \<open>Events\<close>

definition emitFrame :: "byte list \<Rightarrow> 'z StreamWebSocket \<Rightarrow> 'z StreamWebSocket" where
  "emitFrame fr s = s\<lparr>events := events s @
     [\<lparr>ev_type = FRAME, ev_data = fr, ev_opCode = NONE, ev_code = 0, view = None\<rparr>]\<rparr>"

definition emitClose :: "nat \<Rightarrow> byte list \<Rightarrow> 'z StreamWebSocket \<Rightarrow> 'z StreamWebSocket" where
  "emitClose code message s = s\<lparr>events := events s @
     [\<lparr>ev_type = CLOSED, ev_data = message, ev_opCode = NONE, ev_code = code, view = None\<rparr>]\<rparr>"

definition emitMessage ::
  "OpCode \<Rightarrow> byte list \<Rightarrow> ((region \<times> nat) \<times> byte list) option \<Rightarrow> 'z StreamWebSocket \<Rightarrow> 'z StreamWebSocket" where
  "emitMessage opc dat vw s = s\<lparr>events := events s @
     [\<lparr>ev_type = MESSAGE, ev_data = dat, ev_opCode = opc, ev_code = 0, view = vw\<rparr>]\<rparr>"

definition fail :: "simd \<Rightarrow> nat \<Rightarrow> 'z StreamWebSocket \<Rightarrow> 'z StreamWebSocket" where
  "fail cpu code s =
     (if closing s then s
      else let s = s\<lparr>closing := True\<rparr>;
               s = (if \<not> closeSent s then emitFrame (formatClose cpu code None) (s\<lparr>closeSent := True\<rparr>) else s)
           in emitClose 1006 [] s)"

definition failWith :: "simd \<Rightarrow> nat \<Rightarrow> 'z StreamWebSocket \<Rightarrow> 'z StreamWebSocket" where
  "failWith cpu code s = (let s = s\<lparr>failureCode := code\<rparr> in fail cpu (failureCode s) s)"

section \<open>Compression\<close>

definition closeCodeForInflateResult :: "InflateResult \<Rightarrow> nat" where
  "closeCodeForInflateResult result =
     (if result = PAYLOAD_TOO_LARGE then 1009 else if result = INTERNAL_ERROR then 1011 else 1007)"

text \<open>
  A run of zlib's loop that does not return is given the value \<open>INTERNAL_ERROR\<close>; with a payload
  limit there is none (\<open>inflateMessage_returns\<close> of theory \<open>Compression\<close>).
\<close>

definition sw_inflateMessage ::
  "'z zlib \<Rightarrow> byte list \<Rightarrow> 'z StreamWebSocket \<Rightarrow> InflateResult \<times> byte list \<times> 'z StreamWebSocket" where
  "sw_inflateMessage Z dat s =
     (let noTakeover = has_option (extensionOptions s) CLIENT_NO_CONTEXT_TAKEOVER
      in case (if noTakeover then sharedCompressionContext s else privateCompressionContext s) of
           None \<Rightarrow> (INTERNAL_ERROR, [], s)
         | Some ctx \<Rightarrow>
             (case inflateMessage Z ctx dat (maxPayload s) noTakeover of
                None \<Rightarrow> (INTERNAL_ERROR, [], s)
              | Some (result, ctx, out) \<Rightarrow>
                  (result, out,
                   if noTakeover then s\<lparr>sharedCompressionContext := Some ctx\<rparr>
                   else s\<lparr>privateCompressionContext := Some ctx\<rparr>)))"

definition sw_deflateMessage ::
  "'z zlib \<Rightarrow> byte list \<Rightarrow> 'z StreamWebSocket \<Rightarrow> bool \<times> byte list \<times> 'z StreamWebSocket" where
  "sw_deflateMessage Z dat s =
     (let noTakeover = has_option (extensionOptions s) SERVER_NO_CONTEXT_TAKEOVER
      in case (if noTakeover then sharedCompressionContext s else privateCompressionContext s) of
           None \<Rightarrow> (False, [], s)
         | Some ctx \<Rightarrow>
             (case deflateMessage Z ctx dat (windowBits s) noTakeover of
                None \<Rightarrow> (False, [], s)
              | Some (ok, ctx, out) \<Rightarrow>
                  (ok, out,
                   if noTakeover then s\<lparr>sharedCompressionContext := Some ctx\<rparr>
                   else s\<lparr>privateCompressionContext := Some ctx\<rparr>)))"

section \<open>The hooks\<close>

definition sw_refusePayloadLength :: "nat \<Rightarrow> 'z StreamWebSocket \<Rightarrow> bool \<times> 'z StreamWebSocket" where
  "sw_refusePayloadLength n s =
     (if (maxPayload s \<noteq> 0 \<and> n > maxPayload s) \<or> n > UINT_MAX
      then (True, s\<lparr>failureCode := 1009\<rparr>) else (False, s))"

definition sw_setCompressed :: "'z StreamWebSocket \<Rightarrow> bool \<times> 'z StreamWebSocket" where
  "sw_setCompressed s =
     (if compressionStatus s = ENABLED then (True, s\<lparr>compressionStatus := COMPRESSED_FRAME\<rparr>) else (False, s))"

definition sw_forceClose :: "simd \<Rightarrow> 'z StreamWebSocket \<Rightarrow> 'z StreamWebSocket" where
  "sw_forceClose cpu s = fail cpu (failureCode s) s"

definition appendFragment :: "simd \<Rightarrow> byte list \<Rightarrow> nat \<Rightarrow> 'z StreamWebSocket \<Rightarrow> bool \<times> 'z StreamWebSocket" where
  "appendFragment cpu dat remaining s =
     (let required = length (fragmentBuffer s) + length dat + remaining
      in if (maxPayload s \<noteq> 0 \<and> required > maxPayload s) \<or> required > UINT_MAX
         then (False, failWith cpu 1009 s)
         else (True, s\<lparr>fragmentBuffer := fragmentBuffer s @ dat\<rparr>))"

text \<open>
  A complete message \<open>dat\<close>: inflated if it is compressed, checked if it is text. \<open>None\<close> if it was
  refused; the flag says whether the bytes are a fresh inflated string.
\<close>

definition decodeMessage ::
  "simd \<Rightarrow> 'z zlib \<Rightarrow> byte list \<Rightarrow> OpCode \<Rightarrow> 'z StreamWebSocket \<Rightarrow> (byte list \<times> bool) option \<times> 'z StreamWebSocket" where
  "decodeMessage cpu Z dat opc s =
     (let (result, dat, inflated, s) =
        (if compressionStatus s = COMPRESSED_FRAME then
           (let (result, out, s) = sw_inflateMessage Z dat (s\<lparr>compressionStatus := ENABLED\<rparr>)
            in (result, out, True, s))
         else (SUCCESS, dat, False, s))
      in if result \<noteq> SUCCESS then (None, failWith cpu (closeCodeForInflateResult result) s)
         else if opc = TEXT \<and> \<not> isValidUtf8 cpu dat then (None, failWith cpu 1007 s)
         else (Some (dat, inflated), s))"

definition controlFrame ::
  "simd \<Rightarrow> byte list \<Rightarrow> OpCode \<Rightarrow> 'z StreamWebSocket \<Rightarrow> bool \<times> 'z StreamWebSocket" where
  "controlFrame cpu dat opc s =
     (if opc = CLOSE then
        let closeFrame = parseClosePayload cpu dat
        in if cf_code closeFrame = 1006 then (True, failWith cpu 1002 s)
           else let s = s\<lparr>closing := True\<rparr>;
                    s = (if \<not> closeSent s
                         then emitFrame (formatClose cpu (cf_code closeFrame) (Some (cf_message closeFrame)))
                                (s\<lparr>closeSent := True\<rparr>)
                         else s)
                in (True, emitClose (cf_code closeFrame) (cf_message closeFrame) s)
      else if opc = PING then (False, emitFrame (formatFrame dat PONG False) s)
      else (False, s))"

text \<open>The two halves of \<open>handleFragment\<close>: data frames and control frames.\<close>

definition dataFragment ::
  "simd \<Rightarrow> 'z zlib \<Rightarrow> region \<Rightarrow> nat \<Rightarrow> byte list \<Rightarrow> nat \<Rightarrow> OpCode \<Rightarrow> bool \<Rightarrow> 'z StreamWebSocket \<Rightarrow>
   bool \<times> 'z StreamWebSocket" where
  "dataFragment cpu Z reg p dat remaining opc fin s =
     (if remaining = 0 \<and> fin \<and> fragmentBuffer s = [] then
        (case decodeMessage cpu Z dat opc s of
           (None, s) \<Rightarrow> (True, s)
         | (Some (bytes, inflated), s) \<Rightarrow>
             (False, if inflated then emitMessage opc bytes None s
                     else emitMessage opc [] (Some ((reg, p), bytes)) s))
      else case appendFragment cpu dat remaining s of
        (False, s) \<Rightarrow> (True, s)
      | (True, s) \<Rightarrow>
          if remaining = 0 \<and> fin then
            (case decodeMessage cpu Z (fragmentBuffer s) opc s of
               (None, s) \<Rightarrow> (True, s)
             | (Some (bytes, inflated), s) \<Rightarrow>
                 (False, (emitMessage opc bytes None s)\<lparr>fragmentBuffer := []\<rparr>))
          else (False, s))"

definition controlFragment ::
  "simd \<Rightarrow> byte list \<Rightarrow> nat \<Rightarrow> OpCode \<Rightarrow> bool \<Rightarrow> 'z StreamWebSocket \<Rightarrow> bool \<times> 'z StreamWebSocket" where
  "controlFragment cpu dat remaining opc fin s =
     (if remaining = 0 \<and> fin \<and> controlTipLength s = 0 then controlFrame cpu dat opc s
      else let s = s\<lparr>fragmentBuffer := fragmentBuffer s @ dat,
                     controlTipLength := (controlTipLength s + length dat mod 256) mod 256\<rparr>
      in if remaining = 0 \<and> fin then
           (let controlBuffer = drop (length (fragmentBuffer s) - controlTipLength s) (fragmentBuffer s);
                (stop, s) = controlFrame cpu controlBuffer opc s
            in if stop then (True, s)
               else (False, s\<lparr>fragmentBuffer := take (length (fragmentBuffer s) - controlTipLength s) (fragmentBuffer s),
                              controlTipLength := 0\<rparr>))
         else (False, s))"

definition sw_handleFragment ::
  "simd \<Rightarrow> 'z zlib \<Rightarrow> region \<Rightarrow> nat \<Rightarrow> byte list \<Rightarrow> nat \<Rightarrow> OpCode \<Rightarrow> bool \<Rightarrow> 'z StreamWebSocket \<Rightarrow>
   bool \<times> 'z StreamWebSocket" where
  "sw_handleFragment cpu Z reg p dat remaining opc fin s =
     (if closing s then (True, s)
      else if closeSent s \<and> opc \<noteq> CLOSE \<and> opc \<noteq> PING \<and> opc \<noteq> PONG then (False, s)
      else if opc < 3 then dataFragment cpu Z reg p dat remaining opc fin s
      else controlFragment cpu dat remaining opc fin s)"

definition protocolHooks :: "simd \<Rightarrow> 'z zlib \<Rightarrow> region \<Rightarrow> 'z StreamWebSocket WebSocketProtocolHooks" where
  "protocolHooks cpu Z reg =
     \<lparr>refusePayloadLength = sw_refusePayloadLength, setCompressed = sw_setCompressed,
      forceClose = sw_forceClose cpu, handleFragment = sw_handleFragment cpu Z reg\<rparr>"

section \<open>The operations of the class\<close>

record 'z Session =
  base :: WebSocketState
  sock :: "'z StreamWebSocket"
  headerBuffer :: "byte list"

text \<open>The contents of uninitialised members are arguments.\<close>

definition newSession ::
  "'z zlib \<Rightarrow> options \<Rightarrow> nat \<Rightarrow> nat \<Rightarrow> 'z CompressionContext option \<Rightarrow> byte list \<Rightarrow> byte list \<Rightarrow> 'z Session" where
  "newSession Z negotiatedOptions bits limit context mask0 header0 =
     \<lparr>base = newWebSocketState mask0, sock = newStreamWebSocket Z negotiatedOptions bits limit context,
      headerBuffer = header0\<rparr>"

definition releaseEvents :: "'z Session \<Rightarrow> 'z Session" where
  "releaseEvents x = x\<lparr>sock := (sock x)\<lparr>events := []\<rparr>\<rparr>"

definition consumeIn ::
  "simd \<Rightarrow> 'z zlib \<Rightarrow> region \<Rightarrow> byte list \<Rightarrow> nat \<Rightarrow> nat \<Rightarrow> 'z Session \<Rightarrow> 'z Session \<times> byte list" where
  "consumeIn cpu Z reg buffer start n x =
     (let m = consume cpu (protocolHooks cpu Z reg)
                \<lparr>mem = buffer, src = start, len = n, ws = base x, user = sock x\<rparr>
      in (x\<lparr>base := ws m, sock := user m\<rparr>, mem m))"

text \<open>\<open>consume(data, length)\<close> with \<open>data\<close> at offset \<open>start\<close> of the input buffer.\<close>

definition sw_consume ::
  "simd \<Rightarrow> 'z zlib \<Rightarrow> byte list \<Rightarrow> nat \<Rightarrow> nat \<Rightarrow> 'z Session \<Rightarrow> 'z Session \<times> byte list" where
  "sw_consume cpu Z buffer start n x =
     (let x = releaseEvents x; x = x\<lparr>sock := (sock x)\<lparr>failureCode := 1002\<rparr>\<rparr>
      in if closing (sock x) \<or> n = 0 then (x, buffer)
      else if n > UINT_MAX then (x\<lparr>sock := failWith cpu 1009 (sock x)\<rparr>, buffer)
      else if spillLength (base x) \<noteq> 0 then
        (let marker = unat ((if spillLength (base x) \<ge> 2 then spill (base x) ! 1 else buffer ! start) AND 0x7f);
             headerLength = (if marker < 126 then SHORT_MESSAGE_HEADER
                             else if marker = 126 then MEDIUM_MESSAGE_HEADER else LONG_MESSAGE_HEADER);
             copied = min n (headerLength - spillLength (base x));
             header = blit (headerBuffer x) CONSUME_PRE_PADDING (window buffer start copied);
             (x, header) = consumeIn cpu Z HeaderBuffer header CONSUME_PRE_PADDING copied x;
             x = x\<lparr>headerBuffer := header\<rparr>
         in if \<not> closing (sock x) \<and> copied < n
            then consumeIn cpu Z InputBuffer buffer (start + copied) (n - copied) x
            else (x, buffer))
      else consumeIn cpu Z InputBuffer buffer start n x)"

definition createFrame ::
  "simd \<Rightarrow> 'z zlib \<Rightarrow> byte list \<Rightarrow> OpCode \<Rightarrow> bool \<Rightarrow> 'z StreamWebSocket \<Rightarrow> byte list option \<times> 'z StreamWebSocket" where
  "createFrame cpu Z dat opc compress s =
     (if closing s \<or> closeSent s \<or> (opc \<noteq> TEXT \<and> opc \<noteq> BINARY) then (None, s)
      else if opc = TEXT \<and> \<not> isValidUtf8 cpu dat then (None, s)
      else if compress \<and> compressionStatus s \<noteq> DISABLED then
        (let (ok, deflated, s) = sw_deflateMessage Z dat s
         in if \<not> ok then (None, s) else (Some (formatFrame deflated opc True), s))
      else (Some (formatFrame dat opc False), s))"

definition createCloseFrame ::
  "simd \<Rightarrow> nat \<Rightarrow> byte list option \<Rightarrow> 'z StreamWebSocket \<Rightarrow> byte list option \<times> 'z StreamWebSocket" where
  "createCloseFrame cpu code message s =
     (if closing s \<or> closeSent s then (None, s)
      else (Some (formatClose cpu code message), s\<lparr>closeSent := True\<rparr>))"

definition isClosing :: "'z StreamWebSocket \<Rightarrow> bool" where
  "isClosing s \<longleftrightarrow> closing s \<or> closeSent s"

end
