(* ===== verification/Stream_Parser.thy ===== *)
theory Stream_Parser
  imports Stream_WebSocket
begin

text \<open>
  \<open>StreamWebSocket\<close> is a sink for the parser's fragments: the laws of \<open>fragment_sink\<close> hold for its
  hooks, and \<open>StreamWebSocket::consume\<close>, with its reassembly of split headers, then delivers the
  same events however the input is cut.
\<close>

section \<open>Earlier events do not matter\<close>

definition addEvents :: "StreamWebSocketEvent list \<Rightarrow> 'z StreamWebSocket \<Rightarrow> 'z StreamWebSocket" where
  "addEvents es s = s\<lparr>events := es @ events s\<rparr>"

named_theorems add_events \<open>adding earlier events commutes\<close>

lemma addEvents_fields [simp]:
  "maxPayload (addEvents es s) = maxPayload s" "extensionOptions (addEvents es s) = extensionOptions s"
  "windowBits (addEvents es s) = windowBits s" "compressionStatus (addEvents es s) = compressionStatus s"
  "fragmentBuffer (addEvents es s) = fragmentBuffer s" "controlTipLength (addEvents es s) = controlTipLength s"
  "events (addEvents es s) = es @ events s"
  "sharedCompressionContext (addEvents es s) = sharedCompressionContext s"
  "privateCompressionContext (addEvents es s) = privateCompressionContext s"
  "closing (addEvents es s) = closing s" "closeSent (addEvents es s) = closeSent s"
  "failureCode (addEvents es s) = failureCode s"
  by (simp_all add: addEvents_def)

lemma addEvents_update [add_events]:
  "(addEvents es s)\<lparr>compressionStatus := a\<rparr> = addEvents es (s\<lparr>compressionStatus := a\<rparr>)"
  "(addEvents es s)\<lparr>fragmentBuffer := b\<rparr> = addEvents es (s\<lparr>fragmentBuffer := b\<rparr>)"
  "(addEvents es s)\<lparr>controlTipLength := c\<rparr> = addEvents es (s\<lparr>controlTipLength := c\<rparr>)"
  "(addEvents es s)\<lparr>sharedCompressionContext := d\<rparr> = addEvents es (s\<lparr>sharedCompressionContext := d\<rparr>)"
  "(addEvents es s)\<lparr>privateCompressionContext := d\<rparr> = addEvents es (s\<lparr>privateCompressionContext := d\<rparr>)"
  "(addEvents es s)\<lparr>closing := e\<rparr> = addEvents es (s\<lparr>closing := e\<rparr>)"
  "(addEvents es s)\<lparr>closeSent := e\<rparr> = addEvents es (s\<lparr>closeSent := e\<rparr>)"
  "(addEvents es s)\<lparr>failureCode := c\<rparr> = addEvents es (s\<lparr>failureCode := c\<rparr>)"
  by (simp_all add: addEvents_def)

lemma addEvents_emit [add_events]:
  "emitFrame fr (addEvents es s) = addEvents es (emitFrame fr s)"
  "emitClose n message (addEvents es s) = addEvents es (emitClose n message s)"
  "emitMessage opc dat vw (addEvents es s) = addEvents es (emitMessage opc dat vw s)"
  by (simp_all add: addEvents_def emitFrame_def emitClose_def emitMessage_def)

lemma addEvents_fail [add_events]:
  "fail cpu code (addEvents es s) = addEvents es (fail cpu code s)"
  "failWith cpu code (addEvents es s) = addEvents es (failWith cpu code s)"
  by (simp_all add: fail_def failWith_def Let_def add_events)

lemma addEvents_inflate [add_events]:
  "sw_inflateMessage Z dat (addEvents es s) =
     (case sw_inflateMessage Z dat s of (r, out, s) \<Rightarrow> (r, out, addEvents es s))"
  by (simp add: sw_inflateMessage_def Let_def add_events split: option.split prod.split)

lemma addEvents_append [add_events]:
  "appendFragment cpu dat r (addEvents es s) = map_prod id (addEvents es) (appendFragment cpu dat r s)"
  by (simp add: appendFragment_def Let_def add_events)

lemma addEvents_decode [add_events]:
  "decodeMessage cpu Z dat opc (addEvents es s) = map_prod id (addEvents es) (decodeMessage cpu Z dat opc s)"
  by (cases "sw_inflateMessage Z dat (s\<lparr>compressionStatus := ENABLED\<rparr>)")
    (simp add: decodeMessage_def Let_def add_events)

lemma addEvents_control [add_events]:
  "controlFrame cpu dat opc (addEvents es s) = map_prod id (addEvents es) (controlFrame cpu dat opc s)"
  by (simp add: controlFrame_def Let_def add_events)

lemma addEvents_data [add_events]:
  "dataFragment cpu Z reg p dat r opc fin (addEvents es s) =
     map_prod id (addEvents es) (dataFragment cpu Z reg p dat r opc fin s)"
proof -
  obtain d s1 where d: "decodeMessage cpu Z dat opc s = (d, s1)" by (cases "decodeMessage cpu Z dat opc s")
  obtain ok s2 where a: "appendFragment cpu dat r s = (ok, s2)" by (cases "appendFragment cpu dat r s")
  obtain e s3 where e: "decodeMessage cpu Z (fragmentBuffer s2) opc s2 = (e, s3)"
    by (cases "decodeMessage cpu Z (fragmentBuffer s2) opc s2")
  have a0: "r = 0 \<Longrightarrow> appendFragment cpu dat 0 s = (ok, s2)" using a by simp
  show ?thesis
    by (cases d; cases ok; cases e) (auto simp: dataFragment_def add_events d a a0 e)
qed

lemma addEvents_controlFragment [add_events]:
  "controlFragment cpu dat r opc fin (addEvents es s) = map_prod id (addEvents es) (controlFragment cpu dat r opc fin s)"
  by (simp add: controlFragment_def Let_def add_events split: prod.split)

lemma addEvents_handle [add_events]:
  "sw_handleFragment cpu Z reg p dat r opc fin (addEvents es s) =
     map_prod id (addEvents es) (sw_handleFragment cpu Z reg p dat r opc fin s)"
  by (simp add: sw_handleFragment_def add_events)

lemma addEvents_hooks [add_events]:
  "sw_refusePayloadLength n (addEvents es s) = map_prod id (addEvents es) (sw_refusePayloadLength n s)"
  "sw_setCompressed (addEvents es s) = map_prod id (addEvents es) (sw_setCompressed s)"
  "sw_forceClose cpu (addEvents es s) = addEvents es (sw_forceClose cpu s)"
  by (simp_all add: sw_refusePayloadLength_def sw_setCompressed_def sw_forceClose_def add_events)

section \<open>What can be observed\<close>

definition erase :: "StreamWebSocketEvent \<Rightarrow> StreamWebSocketEvent" where
  "erase e = e\<lparr>ev_data := payloadData e, view := None\<rparr>"

text \<open>A closed socket no longer uses what it had buffered, nor its failure code.\<close>

definition canon :: "'z StreamWebSocket \<Rightarrow> 'z StreamWebSocket" where
  "canon s = (let s = s\<lparr>events := map erase (events s)\<rparr>
              in if closing s then s\<lparr>fragmentBuffer := [], controlTipLength := 0, failureCode := 0\<rparr> else s)"

definition alive :: "'z StreamWebSocket \<Rightarrow> bool" where
  "alive s \<longleftrightarrow> \<not> closing s"

definition idle :: "'z StreamWebSocket \<Rightarrow> bool" where
  "idle s \<longleftrightarrow> controlTipLength s = 0 \<and> failureCode s = 1002"

definition admits :: "OpCode \<Rightarrow> nat \<Rightarrow> 'z StreamWebSocket \<Rightarrow> bool" where
  "admits opc n s \<longleftrightarrow> failureCode s = 1002 \<and>
     (if opc < 3 then controlTipLength s = 0 \<and> (maxPayload s \<noteq> 0 \<longrightarrow> n \<le> maxPayload s) \<and> n \<le> UINT_MAX
      else controlTipLength s + n \<le> 125 \<and>
        (closeSent s \<and> opc \<noteq> CLOSE \<and> opc \<noteq> PING \<and> opc \<noteq> PONG \<longrightarrow> controlTipLength s = 0))"

lemma closing_canon [simp]: "closing (canon s) = closing s"
  by (simp add: canon_def Let_def)

lemma canon_addEvents: "canon (addEvents es s) = addEvents (map erase es) (canon s)"
  by (simp add: canon_def addEvents_def Let_def)

text \<open>Two live states with the same observation differ only in how their events hold their bytes.\<close>

lemma canon_alive_eq:
  assumes "alive u" "canon u = canon v"
  shows "\<exists>w. u = addEvents (events u) w \<and> v = addEvents (events v) w \<and> events w = [] \<and>
    map erase (events u) = map erase (events v)"
proof -
  have c: "closing v = closing u" using assms(2) by (metis closing_canon)
  with assms have e: "u\<lparr>events := map erase (events u)\<rparr> = v\<lparr>events := map erase (events v)\<rparr>"
    by (simp add: canon_def alive_def)
  then have "map erase (events u) = map erase (events v)" by (metis StreamWebSocket.select_convs(7) StreamWebSocket.surjective StreamWebSocket.update_convs(7))
  moreover from e have "u\<lparr>events := []\<rparr> = v\<lparr>events := []\<rparr>"
    by (cases u; cases v) simp
  then have "v = addEvents (events v) (u\<lparr>events := []\<rparr>)"
    by (cases u; cases v) (simp add: addEvents_def)
  moreover have "u = addEvents (events u) (u\<lparr>events := []\<rparr>)" by (simp add: addEvents_def)
  ultimately show ?thesis by (metis StreamWebSocket.select_convs(7) StreamWebSocket.surjective StreamWebSocket.update_convs(7))
qed

section \<open>The buffers do not matter to the rest\<close>

definition withBuffer :: "byte list \<Rightarrow> nat \<Rightarrow> 'z StreamWebSocket \<Rightarrow> 'z StreamWebSocket" where
  "withBuffer b t s = s\<lparr>fragmentBuffer := b, controlTipLength := t\<rparr>"

named_theorems with_buffer \<open>replacing the buffers commutes\<close>

lemma withBuffer_fields [simp]:
  "maxPayload (withBuffer b t s) = maxPayload s" "extensionOptions (withBuffer b t s) = extensionOptions s"
  "windowBits (withBuffer b t s) = windowBits s" "compressionStatus (withBuffer b t s) = compressionStatus s"
  "fragmentBuffer (withBuffer b t s) = b" "controlTipLength (withBuffer b t s) = t"
  "events (withBuffer b t s) = events s"
  "sharedCompressionContext (withBuffer b t s) = sharedCompressionContext s"
  "privateCompressionContext (withBuffer b t s) = privateCompressionContext s"
  "closing (withBuffer b t s) = closing s" "closeSent (withBuffer b t s) = closeSent s"
  "failureCode (withBuffer b t s) = failureCode s"
  by (simp_all add: withBuffer_def)

lemma withBuffer_self [simp]: "withBuffer (fragmentBuffer s) (controlTipLength s) s = s"
  by (simp add: withBuffer_def)

lemma withBuffer_twice [simp]: "withBuffer b t (withBuffer b' t' s) = withBuffer b t s"
  by (simp add: withBuffer_def)

lemma withBuffer_update [with_buffer]:
  "(withBuffer b t s)\<lparr>compressionStatus := a\<rparr> = withBuffer b t (s\<lparr>compressionStatus := a\<rparr>)"
  "(withBuffer b t s)\<lparr>sharedCompressionContext := d\<rparr> = withBuffer b t (s\<lparr>sharedCompressionContext := d\<rparr>)"
  "(withBuffer b t s)\<lparr>privateCompressionContext := d\<rparr> = withBuffer b t (s\<lparr>privateCompressionContext := d\<rparr>)"
  "(withBuffer b t s)\<lparr>closing := e\<rparr> = withBuffer b t (s\<lparr>closing := e\<rparr>)"
  "(withBuffer b t s)\<lparr>closeSent := e\<rparr> = withBuffer b t (s\<lparr>closeSent := e\<rparr>)"
  "(withBuffer b t s)\<lparr>failureCode := c\<rparr> = withBuffer b t (s\<lparr>failureCode := c\<rparr>)"
  by (simp_all add: withBuffer_def)

lemma withBuffer_emit [with_buffer]:
  "emitFrame fr (withBuffer b t s) = withBuffer b t (emitFrame fr s)"
  "emitClose n message (withBuffer b t s) = withBuffer b t (emitClose n message s)"
  "emitMessage opc dat vw (withBuffer b t s) = withBuffer b t (emitMessage opc dat vw s)"
  by (simp_all add: withBuffer_def emitFrame_def emitClose_def emitMessage_def)

lemma withBuffer_fail [with_buffer]:
  "fail cpu code (withBuffer b t s) = withBuffer b t (fail cpu code s)"
  "failWith cpu code (withBuffer b t s) = withBuffer b t (failWith cpu code s)"
  by (simp_all add: fail_def failWith_def Let_def with_buffer)

lemma withBuffer_inflate [with_buffer]:
  "sw_inflateMessage Z dat (withBuffer b t s) =
     (case sw_inflateMessage Z dat s of (r, out, s) \<Rightarrow> (r, out, withBuffer b t s))"
  by (simp add: sw_inflateMessage_def Let_def with_buffer split: option.split prod.split)

lemma withBuffer_decode [with_buffer]:
  "decodeMessage cpu Z dat opc (withBuffer b t s) = map_prod id (withBuffer b t) (decodeMessage cpu Z dat opc s)"
  by (cases "sw_inflateMessage Z dat (s\<lparr>compressionStatus := ENABLED\<rparr>)")
    (simp add: decodeMessage_def Let_def with_buffer)

lemma withBuffer_control [with_buffer]:
  "controlFrame cpu dat opc (withBuffer b t s) = map_prod id (withBuffer b t) (controlFrame cpu dat opc s)"
  by (simp add: controlFrame_def Let_def with_buffer)

section \<open>What the steps keep\<close>

lemma fail_fields [simp]:
  "closing (fail cpu code s)" "fragmentBuffer (fail cpu code s) = fragmentBuffer s"
  "controlTipLength (fail cpu code s) = controlTipLength s"
  by (auto simp: fail_def Let_def emitClose_def emitFrame_def)

lemma failWith_fields [simp]: "closing (failWith cpu code s)"
  "fragmentBuffer (failWith cpu code s) = fragmentBuffer s"
  "controlTipLength (failWith cpu code s) = controlTipLength s"
  by (simp_all add: failWith_def Let_def)

lemma inflate_fields:
  assumes "sw_inflateMessage Z dat s = (r, out, s')"
  shows "closing s' = closing s \<and> closeSent s' = closeSent s \<and> fragmentBuffer s' = fragmentBuffer s \<and>
    controlTipLength s' = controlTipLength s \<and> failureCode s' = failureCode s \<and> events s' = events s \<and>
    maxPayload s' = maxPayload s \<and> compressionStatus s' = compressionStatus s"
  using assms by (auto simp: sw_inflateMessage_def Let_def split: option.splits if_splits)

lemma decode_accepted:
  assumes "decodeMessage cpu Z dat opc s = (Some (bytes, inflated), s')"
  shows "closing s' = closing s \<and> closeSent s' = closeSent s \<and> fragmentBuffer s' = fragmentBuffer s \<and>
    controlTipLength s' = controlTipLength s \<and> failureCode s' = failureCode s \<and> events s' = events s \<and>
    maxPayload s' = maxPayload s \<and> (\<not> inflated \<longrightarrow> bytes = dat) \<and> (opc = TEXT \<longrightarrow> isValidUtf8 cpu bytes)"
proof (cases "compressionStatus s = COMPRESSED_FRAME")
  case True
  obtain r out s1 where i: "sw_inflateMessage Z dat (s\<lparr>compressionStatus := ENABLED\<rparr>) = (r, out, s1)"
    by (cases "sw_inflateMessage Z dat (s\<lparr>compressionStatus := ENABLED\<rparr>)")
  from inflate_fields [OF this] True assms i show ?thesis
    by (auto simp: decodeMessage_def Let_def split: if_splits)
next
  case False
  with assms show ?thesis by (auto simp: decodeMessage_def Let_def split: if_splits)
qed

lemma decode_refused: "decodeMessage cpu Z dat opc s = (None, s') \<Longrightarrow> closing s'"
  by (auto simp: decodeMessage_def Let_def split: if_splits prod.splits)

lemma emit_fields [simp]:
  "closing (emitMessage opc d vw s) = closing s" "closing (emitFrame fr s) = closing s"
  "closing (emitClose n d s) = closing s"
  "controlTipLength (emitMessage opc d vw s) = controlTipLength s" "controlTipLength (emitFrame fr s) = controlTipLength s"
  "fragmentBuffer (emitMessage opc d vw s) = fragmentBuffer s" "fragmentBuffer (emitFrame fr s) = fragmentBuffer s"
  "failureCode (emitMessage opc d vw s) = failureCode s" "failureCode (emitFrame fr s) = failureCode s"
  "maxPayload (emitMessage opc d vw s) = maxPayload s" "maxPayload (emitFrame fr s) = maxPayload s"
  "closeSent (emitMessage opc d vw s) = closeSent s" "closeSent (emitFrame fr s) = closeSent s"
  "closeSent (emitClose n d s) = closeSent s"
  by (simp_all add: emitMessage_def emitFrame_def emitClose_def)

lemma controlFrame_stop: "controlFrame cpu dat opc s = (True, s') \<Longrightarrow> closing s'"
  by (auto simp: controlFrame_def Let_def split: if_splits)

lemma controlFrame_goes_on:
  "controlFrame cpu dat opc s = (False, s') \<Longrightarrow> s' = (if opc = PING then emitFrame (formatFrame dat PONG False) s else s)"
  by (auto simp: controlFrame_def Let_def split: if_splits)

lemma append_cases:
  "appendFragment cpu dat r s = (ok, s') \<Longrightarrow>
     s' = (if ok then s\<lparr>fragmentBuffer := fragmentBuffer s @ dat\<rparr> else failWith cpu 1009 s)"
  by (auto simp: appendFragment_def Let_def split: if_splits)

lemma data_stop: "dataFragment cpu Z reg p dat r opc fin s = (True, s') \<Longrightarrow> closing s'"
  by (auto simp: dataFragment_def dest!: append_cases dest: decode_refused
      split: if_splits prod.splits option.splits bool.splits)

text \<open>A data fragment that is not refused: a message delivered at once or after buffering, or bytes kept.\<close>

lemma data_goes_on:
  assumes "dataFragment cpu Z reg p dat r opc fin s = (False, s')"
  obtains (direct) bytes inflated s1 where "r = 0" "fin" "fragmentBuffer s = []"
      "decodeMessage cpu Z dat opc s = (Some (bytes, inflated), s1)"
      "s' = (if inflated then emitMessage opc bytes None s1 else emitMessage opc [] (Some ((reg, p), bytes)) s1)"
  | (buffered) bytes inflated s1 where "r = 0" "fin"
      "decodeMessage cpu Z (fragmentBuffer s @ dat) opc (s\<lparr>fragmentBuffer := fragmentBuffer s @ dat\<rparr>) = (Some (bytes, inflated), s1)"
      "s' = (emitMessage opc bytes None s1)\<lparr>fragmentBuffer := []\<rparr>"
  | (kept) "r \<noteq> 0 \<or> \<not> fin" "s' = s\<lparr>fragmentBuffer := fragmentBuffer s @ dat\<rparr>"
proof (cases "r = 0 \<and> fin \<and> fragmentBuffer s = []")
  case True
  obtain d s1 where d: "decodeMessage cpu Z dat opc s = (d, s1)" by (cases "decodeMessage cpu Z dat opc s")
  with True assms show ?thesis by (cases d) (auto simp: dataFragment_def intro: direct)
next
  case False
  obtain ok s1 where a: "appendFragment cpu dat r s = (ok, s1)" by (cases "appendFragment cpu dat r s")
  have ok: "ok" using assms False a by (cases ok) (simp_all add: dataFragment_def)
  with append_cases [OF a] have s1: "s1 = s\<lparr>fragmentBuffer := fragmentBuffer s @ dat\<rparr>" by simp
  show ?thesis
  proof (cases "r = 0 \<and> fin")
    case True
    obtain d s2 where d: "decodeMessage cpu Z (fragmentBuffer s1) opc s1 = (d, s2)"
      by (cases "decodeMessage cpu Z (fragmentBuffer s1) opc s1")
    have a0: "appendFragment cpu dat 0 s = (ok, s1)" using a True by simp
    from d a0 ok s1 True False assms show ?thesis by (cases d) (auto simp: dataFragment_def intro: buffered)
  next
    case no: False
    have "dataFragment cpu Z reg p dat r opc fin s = (False, s1)"
      using no ok a by (cases fin; cases "r = 0") (simp_all add: dataFragment_def)
    with assms s1 no show ?thesis by (intro kept) auto
  qed
qed

lemma data_fields:
  assumes "dataFragment cpu Z reg p dat r opc fin s = (False, s')"
  shows "closing s' = closing s \<and> failureCode s' = failureCode s \<and> maxPayload s' = maxPayload s \<and>
    closeSent s' = closeSent s \<and> controlTipLength s' = controlTipLength s"
  using assms by (cases rule: data_goes_on) (auto dest!: decode_accepted)

lemma control_stop: "controlFragment cpu dat r opc fin s = (True, s') \<Longrightarrow> closing s'"
  by (auto simp: controlFragment_def Let_def dest: controlFrame_stop split: if_splits prod.splits)

lemma control_fields:
  assumes "controlFragment cpu dat r opc fin s = (False, s')"
  shows "closing s' = closing s \<and> failureCode s' = failureCode s \<and> maxPayload s' = maxPayload s \<and>
    closeSent s' = closeSent s \<and>
    controlTipLength s' = (if r = 0 \<and> fin then 0 else (controlTipLength s + length dat mod 256) mod 256)"
  using assms
  by (auto simp: controlFragment_def Let_def dest!: controlFrame_goes_on split: if_splits prod.splits)

lemma handle_closes: "sw_handleFragment cpu Z reg p dat r opc fin s = (True, s') \<Longrightarrow> closing s'"
  by (auto simp: sw_handleFragment_def dest: data_stop control_stop split: if_splits)

lemma handle_fields:
  assumes "sw_handleFragment cpu Z reg p dat r opc fin s = (False, s')"
  shows "\<not> closing s \<and> \<not> closing s' \<and> failureCode s' = failureCode s \<and> maxPayload s' = maxPayload s \<and>
    closeSent s' = closeSent s \<and>
    controlTipLength s' = (if opc < 3 then controlTipLength s
      else if \<not> (closeSent s \<and> opc \<noteq> CLOSE \<and> opc \<noteq> PING \<and> opc \<noteq> PONG)
      then (if r = 0 \<and> fin then 0 else (controlTipLength s + length dat mod 256) mod 256)
      else controlTipLength s)"
proof -
  have open_: "\<not> closing s" using assms by (simp add: sw_handleFragment_def split: if_splits)
  consider "closeSent s \<and> opc \<noteq> CLOSE \<and> opc \<noteq> PING \<and> opc \<noteq> PONG"
    | "\<not> (closeSent s \<and> opc \<noteq> CLOSE \<and> opc \<noteq> PING \<and> opc \<noteq> PONG)" "opc < 3"
    | "\<not> (closeSent s \<and> opc \<noteq> CLOSE \<and> opc \<noteq> PING \<and> opc \<noteq> PONG)" "\<not> opc < 3" by blast
  then show ?thesis
  proof cases
    case 1
    with assms open_ have "s' = s" by (simp add: sw_handleFragment_def)
    with 1 open_ show ?thesis by simp
  next
    case 2
    with assms open_ have "dataFragment cpu Z reg p dat r opc fin s = (False, s')"
      by (auto simp: sw_handleFragment_def)
    from data_fields [OF this] 2 open_ show ?thesis by simp
  next
    case 3
    with assms open_ have "controlFragment cpu dat r opc fin s = (False, s')"
      by (auto simp: sw_handleFragment_def)
    from control_fields [OF this] 3 open_ show ?thesis by simp
  qed
qed

section \<open>The laws of a sink\<close>

lemma canon_withBuffer: "closing s \<Longrightarrow> canon (withBuffer b t s) = canon s"
  by (simp add: canon_def withBuffer_def Let_def)

lemma canon_emitMessage:
  "bytes = payloadData \<lparr>ev_type = MESSAGE, ev_data = d, ev_opCode = opc, ev_code = 0, view = vw\<rparr> \<Longrightarrow>
   canon (emitMessage opc d vw s) = canon (emitMessage opc bytes None s)"
  by (simp add: canon_def emitMessage_def erase_def payloadData_def Let_def)

lemma payloadData_simps [simp]:
  "payloadData \<lparr>ev_type = a, ev_data = d, ev_opCode = b, ev_code = c, view = None\<rparr> = d"
  "payloadData \<lparr>ev_type = a, ev_data = d, ev_opCode = b, ev_code = c, view = Some (p, bytes)\<rparr> = bytes"
  by (simp_all add: payloadData_def)

lemma handle_pointer:
  "agree canon (sw_handleFragment cpu Z reg p dat r opc fin s) (sw_handleFragment cpu Z reg' q dat r opc fin s)"
proof -
  obtain d s1 where d: "decodeMessage cpu Z dat opc s = (d, s1)" by (cases "decodeMessage cpu Z dat opc s")
  have "agree canon (dataFragment cpu Z reg p dat r opc fin s) (dataFragment cpu Z reg' q dat r opc fin s)"
  proof (cases "r = 0 \<and> fin \<and> fragmentBuffer s = []")
    case True
    with d show ?thesis
      by (cases d) (auto simp: dataFragment_def agree_def canon_emitMessage [of _ "[]" _ "Some x" for x])
  next
    case False
    then show ?thesis by (auto simp: dataFragment_def agree_def)
  qed
  then show ?thesis by (simp add: sw_handleFragment_def agree_def)
qed

lemma agree_addEvents:
  "agree canon r r' \<Longrightarrow> map erase es = map erase es' \<Longrightarrow>
   agree canon (map_prod id (addEvents es) r) (map_prod id (addEvents es') r')"
  by (cases r; cases r') (simp add: agree_def canon_addEvents)

lemma agree_refl [simp]: "agree c r r"
  by (simp add: agree_def)

text \<open>A step that only adds events acts alike on states that are observed alike.\<close>

lemma agree_step:
  assumes "alive u" "canon u = canon v" "\<And>es s. f (addEvents es s) = map_prod id (addEvents es) (f s)"
    "\<And>es s. g (addEvents es s) = map_prod id (addEvents es) (g s)" "\<And>s. agree canon (f s) (g s)"
  shows "agree canon (f u) (g v)"
proof -
  obtain w where w: "u = addEvents (events u) w" "v = addEvents (events v) w" "map erase (events u) = map erase (events v)"
    using canon_alive_eq [OF assms(1,2)] by blast
  have "agree canon (map_prod id (addEvents (events u)) (f w)) (map_prod id (addEvents (events v)) (g w))"
    using assms(5) w(3) by (rule agree_addEvents)
  then show ?thesis using assms(3,4) w(1,2) by metis
qed

lemma canon_alive_fields:
  assumes "alive u" "canon u = canon v"
  shows "maxPayload v = maxPayload u" "controlTipLength v = controlTipLength u" "failureCode v = failureCode u"
    "closing v = closing u" "closeSent v = closeSent u" "compressionStatus v = compressionStatus u"
    "fragmentBuffer v = fragmentBuffer u"
proof -
  obtain w where w: "u = addEvents (events u) w" "v = addEvents (events v) w"
    using canon_alive_eq [OF assms] by blast
  show "maxPayload v = maxPayload u" "controlTipLength v = controlTipLength u" "failureCode v = failureCode u"
    "closing v = closing u" "closeSent v = closeSent u" "compressionStatus v = compressionStatus u"
    "fragmentBuffer v = fragmentBuffer u"
    by (subst w(1), subst w(2), simp)+
qed

lemma opcode_data: "isData opc \<Longrightarrow> opc < 3" "\<not> isData opc \<Longrightarrow> opc \<noteq> NONE \<Longrightarrow> \<not> opc < 3"
proof -
  have "opc < 3 \<longleftrightarrow> opc \<le> 2"
    by (auto simp: word_less_nat_alt word_le_nat_alt)
  then show "isData opc \<Longrightarrow> opc < 3" "\<not> isData opc \<Longrightarrow> opc \<noteq> NONE \<Longrightarrow> \<not> opc < 3"
    by (auto simp: isData_def opcode_le_2)
qed

lemma append_within:
  "(maxPayload s \<noteq> 0 \<longrightarrow> length (fragmentBuffer s) + length dat + r \<le> maxPayload s) \<Longrightarrow>
   length (fragmentBuffer s) + length dat + r \<le> UINT_MAX \<Longrightarrow>
   appendFragment cpu dat r s = (True, s\<lparr>fragmentBuffer := fragmentBuffer s @ dat\<rparr>)"
  by (auto simp: appendFragment_def Let_def)

lemma append_refused:
  "\<not> ((maxPayload s \<noteq> 0 \<longrightarrow> length (fragmentBuffer s) + length dat + r \<le> maxPayload s) \<and>
      length (fragmentBuffer s) + length dat + r \<le> UINT_MAX) \<Longrightarrow>
   appendFragment cpu dat r s = (False, failWith cpu 1009 s)"
  by (auto simp: appendFragment_def Let_def)

lemma data_kept:
  assumes "r \<noteq> 0 \<or> \<not> fin"
  shows "dataFragment cpu Z reg p dat r opc fin s =
     (case appendFragment cpu dat r s of (ok, s') \<Rightarrow> (\<not> ok, s'))"
  using assms by (auto simp: dataFragment_def split: prod.split bool.split)

lemma data_buffered:
  assumes "fragmentBuffer s \<noteq> []" "appendFragment cpu dat 0 s = (True, s1)"
  shows "dataFragment cpu Z reg p dat 0 opc True s =
     (case decodeMessage cpu Z (fragmentBuffer s1) opc s1 of
        (None, s) \<Rightarrow> (True, s)
      | (Some (bytes, inflated), s) \<Rightarrow> (False, (emitMessage opc bytes None s)\<lparr>fragmentBuffer := []\<rparr>))"
  using assms by (simp add: dataFragment_def)

lemma decode_fb:
  "decodeMessage cpu Z dat opc (s\<lparr>fragmentBuffer := b\<rparr>) =
     map_prod id (\<lambda>s. s\<lparr>fragmentBuffer := b\<rparr>) (decodeMessage cpu Z dat opc s)"
proof -
  have u: "s\<lparr>fragmentBuffer := b\<rparr> = withBuffer b (controlTipLength s) s" for s :: "'a StreamWebSocket"
    by (simp add: withBuffer_def)
  obtain d s1 where d: "decodeMessage cpu Z dat opc s = (d, s1)" by (cases "decodeMessage cpu Z dat opc s")
  have "controlTipLength s1 = controlTipLength s"
  proof (cases d)
    case (Some x)
    with d decode_accepted show ?thesis by (cases x) blast
  next
    case None
    with d show ?thesis
      by (auto simp: decodeMessage_def Let_def dest!: inflate_fields split: if_splits prod.splits)
  qed
  with d show ?thesis by (simp add: u with_buffer)
qed

lemma data_split:
  assumes adm: "maxPayload u \<noteq> 0 \<longrightarrow> length d + length e + r \<le> maxPayload u" "length d + length e + r \<le> UINT_MAX"
    and pos: "0 < length e + r"
    and first: "dataFragment cpu Z ra p d (length e + r) opc fin u = (stop, u')"
  shows "agree canon (dataFragment cpu Z rb q (d @ e) r opc fin u)
           (if stop then (True, u') else dataFragment cpu Z rc p' e r opc fin u')"
proof -
  let ?B = "fragmentBuffer u"
  let ?fits = "(maxPayload u \<noteq> 0 \<longrightarrow> length ?B + length d + (length e + r) \<le> maxPayload u) \<and>
      length ?B + length d + (length e + r) \<le> UINT_MAX"
  show ?thesis
  proof (cases ?fits)
    case False
    with first pos append_refused [of u d "length e + r" cpu]
    have s: "stop" "u' = failWith cpu 1009 u" by (simp_all add: data_kept)
    have B: "?B \<noteq> []" using False adm by auto
    have "appendFragment cpu (d @ e) r u = (False, failWith cpu 1009 u)"
      using False by (intro append_refused) (auto simp: add.assoc)
    then have "dataFragment cpu Z rb q (d @ e) r opc fin u = (True, failWith cpu 1009 u)"
      using B by (simp add: dataFragment_def)
    with s show ?thesis by simp
  next
    case fits: True
    with first pos append_within [of u d "length e + r" cpu]
    have s: "\<not> stop" "u' = u\<lparr>fragmentBuffer := ?B @ d\<rparr>" by (simp_all add: data_kept)
    have a: "appendFragment cpu (d @ e) r u = (True, u\<lparr>fragmentBuffer := ?B @ d @ e\<rparr>)"
      using fits by (subst append_within) (auto simp: add.assoc)
    have b: "appendFragment cpu e r u' = (True, u\<lparr>fragmentBuffer := ?B @ d @ e\<rparr>)"
      using fits s by (subst append_within) (auto simp: add.assoc)
    show ?thesis
    proof (cases "r = 0 \<and> fin")
      case False
      then show ?thesis using s a b by (simp add: data_kept)
    next
      case fin: True
      let ?whole = "u\<lparr>fragmentBuffer := ?B @ d @ e\<rparr>"
      show ?thesis
      proof (cases "?B @ d = []")
        case True
        with s have "u' = u" by simp
        show ?thesis
        proof -
          have "agree canon (dataFragment cpu Z rb q e 0 opc True u) (dataFragment cpu Z rc p' e 0 opc True u)"
            using True by (cases "decodeMessage cpu Z e opc u"; cases "fst (decodeMessage cpu Z e opc u)")
              (auto simp: dataFragment_def agree_def canon_emitMessage [of _ "[]" _ "Some x" for x])
          with True s fin \<open>u' = u\<close> show ?thesis by simp
        qed
      next
        case False
        have second: "dataFragment cpu Z rc p' e r opc fin u' =
           (case decodeMessage cpu Z (?B @ d @ e) opc ?whole of
              (None, s) \<Rightarrow> (True, s)
            | (Some (bytes, inflated), s) \<Rightarrow> (False, (emitMessage opc bytes None s)\<lparr>fragmentBuffer := []\<rparr>))"
          using False s fin data_buffered [of u' cpu e ?whole Z rc p' opc] b by simp
        show ?thesis
        proof (cases "?B = []")
          case nil: True
          obtain m s1 where m: "decodeMessage cpu Z (d @ e) opc u = (m, s1)" by (cases "decodeMessage cpu Z (d @ e) opc u")
          have fb: "m = Some x \<Longrightarrow> fragmentBuffer s1 = []" for x
            using m nil decode_accepted [of cpu Z "d @ e" opc u "fst x" "snd x" s1] by simp
          have cl: "m = None \<Longrightarrow> closing s1" using m decode_refused by auto
          show ?thesis
          proof (cases m)
            case None
            with second s nil fin m cl show ?thesis
              by (simp add: dataFragment_def decode_fb agree_def canon_def Let_def)
          next
            case (Some x)
            obtain bytes inflated where x: "x = (bytes, inflated)" by (cases x)
            have "(emitMessage opc bytes None (s1\<lparr>fragmentBuffer := d @ e\<rparr>))\<lparr>fragmentBuffer := []\<rparr> = emitMessage opc bytes None s1"
              using fb [OF Some] by (cases s1) (simp add: emitMessage_def)
            with second s nil fin m Some x show ?thesis
              by (simp add: dataFragment_def decode_fb agree_def canon_emitMessage [of _ "[]" _ "Some x" for x])
          qed
        next
          case cons: False
          have "dataFragment cpu Z rb q (d @ e) r opc fin u = dataFragment cpu Z rc p' e r opc fin u'"
            using cons fin a data_buffered [of u cpu "d @ e" ?whole Z rb q opc] by (subst second) simp
          with s show ?thesis by simp
        qed
      qed
    qed
  qed
qed

text \<open>A control frame half received: its bytes are at the end of the buffer, counted by the tip.\<close>

definition holdTip :: "byte list \<Rightarrow> 'z StreamWebSocket \<Rightarrow> 'z StreamWebSocket" where
  "holdTip dat s = withBuffer (fragmentBuffer s @ dat) (controlTipLength s + length dat) s"

lemma withBuffer_id: "fragmentBuffer s = b \<Longrightarrow> controlTipLength s = t \<Longrightarrow> withBuffer b t s = s"
  using withBuffer_self [of s] by simp

lemma holdTip_append: "holdTip e (holdTip d s) = holdTip (d @ e) s"
  by (simp add: holdTip_def)

lemma control_kept:
  "r \<noteq> 0 \<or> \<not> fin \<Longrightarrow> controlTipLength s + length dat \<le> 125 \<Longrightarrow>
   controlFragment cpu dat r opc fin s = (False, holdTip dat s)"
  by (auto simp: controlFragment_def holdTip_def withBuffer_def Let_def)

lemma control_last:
  "controlTipLength s + length dat \<le> 125 \<Longrightarrow>
   controlFragment cpu dat 0 opc True s =
     (if controlTipLength s = 0 then controlFrame cpu dat opc s
      else let h = holdTip dat s;
               at = length (fragmentBuffer h) - controlTipLength h;
               (stop, s) = controlFrame cpu (drop at (fragmentBuffer h)) opc h
           in if stop then (True, s)
              else (False, withBuffer (take (length (fragmentBuffer s) - controlTipLength s) (fragmentBuffer s)) 0 s))"
  by (simp add: controlFragment_def holdTip_def withBuffer_def Let_def split: prod.split)

lemma control_split:
  assumes adm: "controlTipLength u + length d + length e + r \<le> 125"
    and pos: "0 < length e + r"
    and first: "controlFragment cpu d (length e + r) opc fin u = (stop, u')"
  shows "agree canon (controlFragment cpu (d @ e) r opc fin u)
           (if stop then (True, u') else controlFragment cpu e r opc fin u')"
proof -
  from first pos adm have s: "\<not> stop" "u' = holdTip d u" by (simp_all add: control_kept)
  have t: "controlTipLength u' = controlTipLength u + length d" using s by (simp add: holdTip_def)
  show ?thesis
  proof (cases "r \<noteq> 0 \<or> \<not> fin")
    case True
    then show ?thesis using s t adm by (simp add: control_kept holdTip_append)
  next
    case last: False
    show ?thesis
    proof (cases "controlTipLength u = 0")
      case False
      then show ?thesis using s t adm last by (simp add: control_last holdTip_append)
    next
      case zero: True
      show ?thesis
      proof (cases "d = []")
        case True
        with s zero have "u' = u" by (simp add: holdTip_def withBuffer_def)
        with True s last show ?thesis by simp
      next
        case False
        obtain st w where w: "controlFrame cpu (d @ e) opc u = (st, w)" by (cases "controlFrame cpu (d @ e) opc u")
        have h: "holdTip e u' = withBuffer (fragmentBuffer u @ d @ e) (length (d @ e)) u"
          using s zero by (simp add: holdTip_append holdTip_def)
        have "controlFragment cpu e 0 opc True u' =
           (st, if st then withBuffer (fragmentBuffer u @ d @ e) (length (d @ e)) w else withBuffer (fragmentBuffer u) 0 w)"
        proof -
          have "controlTipLength u' + length e \<le> 125" "controlTipLength u' \<noteq> 0"
            using t zero adm False by simp_all
          then show ?thesis by (simp add: control_last h Let_def with_buffer w)
        qed
        moreover have "\<not> st \<Longrightarrow> withBuffer (fragmentBuffer u) 0 w = w"
          using controlFrame_goes_on [of cpu "d @ e" opc u w] w zero
          by (cases "opc = PING") (simp_all add: withBuffer_id)
        moreover have "st \<Longrightarrow> closing w" using w controlFrame_stop by auto
        ultimately show ?thesis
          using last s zero w adm by (simp add: control_last agree_def canon_withBuffer)
      qed
    qed
  qed
qed

lemma handle_split:
  assumes "alive u" "admits opc (length d + length e + r) u" "0 < length e + r"
    "sw_handleFragment cpu Z ra p d (length e + r) opc fin u = (stop, u')"
  shows "agree canon (sw_handleFragment cpu Z rb q (d @ e) r opc fin u)
            (if stop then (True, u') else sw_handleFragment cpu Z rc p' e r opc fin u')"
proof -
  have open_: "\<not> closing u" using assms(1) by (simp add: alive_def)
  consider "closeSent u \<and> opc \<noteq> CLOSE \<and> opc \<noteq> PING \<and> opc \<noteq> PONG"
    | "\<not> (closeSent u \<and> opc \<noteq> CLOSE \<and> opc \<noteq> PING \<and> opc \<noteq> PONG)" "opc < 3"
    | "\<not> (closeSent u \<and> opc \<noteq> CLOSE \<and> opc \<noteq> PING \<and> opc \<noteq> PONG)" "\<not> opc < 3" by blast
  then show ?thesis
  proof cases
    case 1
    then show ?thesis using assms(4) open_ by (auto simp: sw_handleFragment_def)
  next
    case 2
    then have f: "dataFragment cpu Z ra p d (length e + r) opc fin u = (stop, u')"
      using assms(4) open_ by (auto simp: sw_handleFragment_def)
    have "\<not> stop \<Longrightarrow> \<not> closing u' \<and> closeSent u' = closeSent u" using f open_ data_fields [of cpu Z ra p d "length e + r" opc fin u u'] by simp
    then have "sw_handleFragment cpu Z rc p' e r opc fin u' = dataFragment cpu Z rc p' e r opc fin u'" if "\<not> stop"
      using 2 that by (auto simp: sw_handleFragment_def)
    then show ?thesis
      using 2 open_ assms(2,3) data_split [OF _ _ _ f, where rb = rb and q = q and rc = rc and p' = p']
      by (auto simp: sw_handleFragment_def admits_def split: if_splits)
  next
    case 3
    then have f: "controlFragment cpu d (length e + r) opc fin u = (stop, u')"
      using assms(4) open_ by (auto simp: sw_handleFragment_def)
    have "\<not> stop \<Longrightarrow> \<not> closing u' \<and> closeSent u' = closeSent u" using f open_ control_fields [of cpu d "length e + r" opc fin u u'] by simp
    then have "sw_handleFragment cpu Z rc p' e r opc fin u' = controlFragment cpu e r opc fin u'" if "\<not> stop"
      using 3 that by (auto simp: sw_handleFragment_def)
    then show ?thesis
      using 3 open_ assms(2,3) control_split [OF _ _ f]
      by (auto simp: sw_handleFragment_def admits_def split: if_splits)
  qed
qed

lemma hooks_simps [simp]:
  "refusePayloadLength (protocolHooks cpu Z reg) = sw_refusePayloadLength"
  "setCompressed (protocolHooks cpu Z reg) = sw_setCompressed"
  "forceClose (protocolHooks cpu Z reg) = sw_forceClose cpu"
  "handleFragment (protocolHooks cpu Z reg) = sw_handleFragment cpu Z reg"
  by (simp_all add: protocolHooks_def)

lemma limited_hooks: "limited (protocolHooks cpu Z reg)"
  by (auto simp: limited_def sw_refusePayloadLength_def UINT_MAX_def split: if_splits)

lemma sink_alive: "canon u = canon v \<Longrightarrow> alive u = alive v"
  by (metis alive_def closing_canon)

lemma sink_idle: "alive u \<Longrightarrow> canon u = canon v \<Longrightarrow> idle u = idle v"
  and sink_admits: "alive u \<Longrightarrow> canon u = canon v \<Longrightarrow> admits opc n u = admits opc n v"
  using canon_alive_fields [of u v] by (simp_all add: idle_def admits_def)

lemma sink_compressed: "alive u \<Longrightarrow> canon u = canon v \<Longrightarrow> agree canon (sw_setCompressed u) (sw_setCompressed v)"
  and sink_refuse: "alive u \<Longrightarrow> canon u = canon v \<Longrightarrow> agree canon (sw_refusePayloadLength n u) (sw_refusePayloadLength n v)"
  and sink_handle: "alive u \<Longrightarrow> canon u = canon v \<Longrightarrow>
    agree canon (sw_handleFragment cpu Z ra p d r opc fin u) (sw_handleFragment cpu Z rb q d r opc fin v)"
  by (erule (1) agree_step; simp add: add_events handle_pointer)+

lemma sink_force:
  assumes "alive u" "canon u = canon v"
  shows "canon (sw_forceClose cpu u) = canon (sw_forceClose cpu v)"
  using agree_step [OF assms, of "\<lambda>s. (True, sw_forceClose cpu s)" "\<lambda>s. (True, sw_forceClose cpu s)"]
  by (simp add: add_events agree_def)

lemma sink_handle_alive: "sw_handleFragment cpu Z ra p d r opc fin u = (False, u') \<Longrightarrow> alive u'"
  by (auto simp: alive_def dest: handle_fields)

lemma sink_handle_admits:
  assumes "admits opc (length d + r) u" "0 < r" "sw_handleFragment cpu Z ra p d r opc fin u = (False, u')"
  shows "admits opc r u'"
proof -
  have "controlTipLength u + length d mod 256 < 256" if "\<not> opc < 3"
    using assms(1) that by (simp add: admits_def)
  with handle_fields [OF assms(3)] assms(1,2) show ?thesis
    by (cases "opc < 3") (auto simp: admits_def)
qed

lemma sink_handle_idle:
  assumes "admits opc (length d) u" "isData opc \<or> fin" "sw_handleFragment cpu Z ra p d 0 opc fin u = (False, u')"
  shows "idle u'"
  using handle_fields [OF assms(3)] assms(1,2) opcode_data(1) [of opc]
  by (cases "opc < 3") (auto simp: admits_def idle_def)

lemma sink_steps:
  "alive u \<Longrightarrow> idle u \<Longrightarrow> sw_setCompressed u = (b, u') \<Longrightarrow> alive u' \<and> idle u'"
  "alive u \<Longrightarrow> idle u \<Longrightarrow> sw_refusePayloadLength n u = (b, u') \<Longrightarrow> alive u' \<and> (b \<or> idle u')"
  "alive u \<Longrightarrow> idle u \<Longrightarrow> sw_refusePayloadLength n u = (False, u') \<Longrightarrow> isData opc \<Longrightarrow> admits opc n u'"
  "alive u \<Longrightarrow> idle u \<Longrightarrow> n \<le> 125 \<Longrightarrow> \<not> isData opc \<Longrightarrow> opc \<noteq> NONE \<Longrightarrow> admits opc n u"
  using opcode_data [of opc]
  by (auto simp: sw_setCompressed_def sw_refusePayloadLength_def alive_def idle_def admits_def split: if_splits)

text \<open>The contract of \<open>fragment_sink\<close>, for the hooks of \<open>StreamWebSocket\<close>.\<close>

interpretation stream: fragment_sink "protocolHooks cpu Z" canon alive idle admits for cpu Z
  by (unfold_locales, unfold hooks_simps)
    (rule sink_alive sink_idle sink_admits sink_compressed sink_refuse sink_handle sink_force sink_handle_alive
       sink_handle_admits sink_handle_idle sink_steps handle_split; assumption)+

end
