(* ===== verification/Stream_Session.thy ===== *)
theory Stream_Session
  imports Stream_Parser
begin

text \<open>
  \<open>StreamWebSocket::consume\<close> refines the abstract parser: a session between two reads is an abstract
  parser state, a header split between reads is put together in the header buffer, and no byte outside
  the read is written. Chunk independence of the delivered events follows.
\<close>

section \<open>The session as an abstract parser\<close>

definition phaseOf :: "WebSocketState \<Rightarrow> phase" where
  "phaseOf w = (if wantsHead w then Head (take (spillLength w) (spill w))
                else Body (remainingBytes w) (msk w) (lastFin w))"

definition parserOf :: "'z Session \<Rightarrow> 'z StreamWebSocket parser" where
  "parserOf x = (if closing (sock x) then Stopped (sock x)
     else Running (phaseOf (base x)) (fragmentedMessage (base x)) (stackOf (base x)) (sock x))"

text \<open>What holds of a session between two reads.\<close>

definition session_ok :: "'z Session \<Rightarrow> bool" where
  "session_ok x \<longleftrightarrow> length (headerBuffer x) = CONSUME_PRE_PADDING + LONG_MESSAGE_HEADER \<and>
     (\<not> closing (sock x) \<longrightarrow>
        represents (base x) (phaseOf (base x)) (fragmentedMessage (base x)) (stackOf (base x)) \<and>
        stream.parser_ok (parserOf x) \<and>
        (wantsHead (base x) \<longrightarrow> incomplete (take (spillLength (base x)) (spill (base x)))))"

lemma represents_phase: "represents w ph frag stack \<Longrightarrow> ph = phaseOf w \<and> frag = fragmentedMessage w \<and> stack = stackOf w"
  by (auto simp: represents_def phaseOf_def split: phase.splits)

lemma newSession_ok:
  assumes "length mask0 = 4" "length header0 = CONSUME_PRE_PADDING + LONG_MESSAGE_HEADER"
  shows "session_ok (newSession Z negotiated bits limit context mask0 header0)"
  using assms
  by (auto simp: session_ok_def newSession_def newStreamWebSocket_def newWebSocketState_def represents_def
      shapes_def phaseOf_def stackOf_def parserOf_def stream.parser_ok_def alive_def idle_def stack_ok_def
      incomplete_def header_sizes Let_def)

section \<open>The parser stops only when the socket closes\<close>

lemma openFrame_closes:
  "openFrame (protocolHooks cpu Z reg) w frag stack u = (None, u') \<Longrightarrow> closing u'"
  by (auto simp: openFrame_def Let_def sw_forceClose_def split: option.splits prod.splits if_splits)

definition stops_closed :: "'z StreamWebSocket parser \<Rightarrow> bool" where
  "stops_closed p \<longleftrightarrow> (case p of Stopped u \<Rightarrow> closing u | Running ph frag stack u \<Rightarrow> True)"

lemma feedStep_closes:
  assumes "feedStep (protocolHooks cpu Z reg) pos frag stack u w = Done p"
  shows "stops_closed p"
  using assms
  by (auto simp: feedStep_def afterHeader_def Let_def stops_closed_def dest: openFrame_closes handle_closes
      split: if_splits option.splits prod.splits)

lemma feedHead_closes: "stops_closed (feedHead (protocolHooks cpu Z reg) pos frag stack u w)"
proof (induction "length w" arbitrary: pos frag stack u w rule: less_induct)
  case less
  show ?case
  proof (cases "feedStep (protocolHooks cpu Z reg) pos frag stack u w")
    case (More pos1 frag1 stack1 u1 w1)
    then show ?thesis using less [OF feedStep_less [OF More]] by (simp add: feedHead_run)
  next
    case (Done p)
    then show ?thesis using feedStep_closes by (simp add: feedHead_run)
  qed
qed

lemma feed_closes: "stops_closed p \<Longrightarrow> stops_closed (feed (protocolHooks cpu Z reg) pos p bs)"
proof (induction "protocolHooks cpu Z reg" pos p bs rule: feed.induct)
  case (3 pos r m fin frag stack u bs)
  show ?case
    using handle_closes feedHead_closes by (auto simp: stops_closed_def split: prod.split dest: handle_closes)
qed (simp_all add: feedHead_closes)

section \<open>The header that is put together\<close>

lemma feedStep_exact:
  assumes "\<not> incomplete w" "length w = headerLengthOf w"
  shows "feedStep hooks pos frag stack u w = More pos' frag' stack' u' w' \<Longrightarrow> w' = []"
    "feedStep hooks pos frag stack u w \<noteq> Done (Running (Head pending) frag' stack' u')"
  using assms
  by (auto simp: feedStep_def afterHeader_def Let_def dest!: openFrame_header
      split: if_splits option.splits prod.splits)

lemma feedHead_Nil: "feedHead hooks pos frag stack u [] = Running (Head []) frag stack u"
  by (simp add: feedHead_run feedStep_def incomplete_def header_sizes)

lemma feedHead_exact:
  assumes "\<not> incomplete w" "length w = headerLengthOf w"
    "feedHead hooks pos frag stack u w = Running (Head pending) frag' stack' u'"
  shows "pending = []"
  using assms feedStep_exact [OF assms(1,2), of hooks pos frag stack u]
  by (cases "feedStep hooks pos frag stack u w") (auto simp: feedHead_run [of hooks pos frag stack u w] feedHead_Nil simp flip: feedHead_run)

lemma marker_byte:
  assumes "incomplete w" "w \<noteq> []" "bs \<noteq> []"
  shows "(if 2 \<le> length w then w ! 1 else hd bs) = (w @ bs) ! 1"
  using assms by (cases w; cases bs; cases "tl w") auto

lemma feedHead_incomplete:
  "feedHead hooks pos frag stack u w = Running (Head pending) frag' stack' u' \<Longrightarrow> incomplete pending"
proof (induction "length w" arbitrary: pos frag stack u w rule: less_induct)
  case less
  show ?case
  proof (cases "feedStep hooks pos frag stack u w")
    case (More pos1 frag1 stack1 u1 w1)
    then show ?thesis using less.hyps [OF feedStep_less [OF More]] less.prems by (simp add: feedHead_run)
  next
    case (Done p)
    with less.prems have p: "p = Running (Head pending) frag' stack' u'" by (simp add: feedHead_run)
    show ?thesis
      using Done p by (auto simp: feedStep_def afterHeader_def Let_def split: if_splits option.splits prod.splits)
  qed
qed

lemma feed_incomplete:
  "feed hooks pos p bs = Running (Head pending) frag stack u \<Longrightarrow>
   (\<And>w f s v. p \<noteq> Running (Head w) f s v \<or> incomplete w) \<Longrightarrow> incomplete pending"
  by (cases "(hooks, pos, p, bs)" rule: feed.cases)
    (auto split: if_splits prod.splits dest: feedHead_incomplete)

lemma consumeIn_refines:
  assumes ok: "session_ok x" and open_: "\<not> closing (sock x)"
    and b: "start + n \<le> length buffer" "spillLength (base x) \<le> start" "n + spillLength (base x) < 2 ^ 32"
    and c: "consumeIn cpu Z reg buffer start n x = (x', buffer')"
  shows "session_ok x'"
    and "parserOf x' = feed (protocolHooks cpu Z reg) start (parserOf x) (window buffer start n)"
    and "confined (start - spillLength (base x)) (spillLength (base x) + n) buffer buffer'"
    and "headerBuffer x' = headerBuffer x"
proof -
  let ?m = "\<lparr>mem = buffer, src = start, len = n, ws = base x, user = sock x\<rparr>"
  let ?m' = "consume cpu (protocolHooks cpu Z reg) ?m"
  let ?p = "feed (protocolHooks cpu Z reg) start (parserOf x) (window buffer start n)"
  have x': "x' = x\<lparr>base := ws ?m', sock := user ?m'\<rparr>" and buffer': "buffer' = mem ?m'"
    using c by (simp_all add: consumeIn_def Let_def)
  have px: "parserOf x = Running (phaseOf (base x)) (fragmentedMessage (base x)) (stackOf (base x)) (sock x)"
    using open_ by (simp add: parserOf_def)
  have "consumable ?m (phaseOf (base x)) (fragmentedMessage (base x)) (stackOf (base x))"
    using ok open_ b by (simp add: consumable_def session_ok_def)
  from consume_refines [OF this limited_hooks, of cpu cpu Z reg]
  have o: "outcome ?m' ?p" and conf: "confined (start - spillLength (base x)) (spillLength (base x) + n) buffer (mem ?m')"
    by (simp_all add: px unread_def)
  have okp: "stream.parser_ok ?p"
    using ok open_ by (intro stream.feed_ok) (simp add: session_ok_def)
  have cl: "stops_closed ?p" by (rule feed_closes) (simp add: px stops_closed_def)
  show h: "headerBuffer x' = headerBuffer x" and "confined (start - spillLength (base x)) (spillLength (base x) + n) buffer buffer'"
    using conf by (simp_all add: x' buffer')
  have "session_ok x' \<and> parserOf x' = ?p"
  proof (cases ?p)
    case (Stopped u)
    with o cl have "user ?m' = u" "closing u" by (simp_all add: outcome_def stops_closed_def)
    with ok h Stopped show ?thesis by (simp add: session_ok_def parserOf_def x')
  next
    case (Running ph frag stack u)
    with o have u: "user ?m' = u" and rep: "represents (ws ?m') ph frag stack" by (simp_all add: outcome_def)
    from okp Running have "\<not> closing u" by (auto simp: stream.parser_ok_def alive_def split: phase.splits)
    then have p': "parserOf x' = ?p"
      using u represents_phase [OF rep] Running by (simp add: parserOf_def x')
    moreover have "wantsHead (ws ?m') \<Longrightarrow> incomplete (take (spillLength (ws ?m')) (spill (ws ?m')))"
      using feed_incomplete [of "protocolHooks cpu Z reg" start "parserOf x" "window buffer start n"
          "take (spillLength (ws ?m')) (spill (ws ?m'))" frag stack u]
        represents_phase [OF rep] Running ok open_
      by (auto simp: phaseOf_def px session_ok_def split: if_splits)
    moreover have "represents (ws ?m') (phaseOf (ws ?m')) (fragmentedMessage (ws ?m')) (stackOf (ws ?m'))"
      using rep represents_phase [OF rep] by simp
    ultimately show ?thesis
      using okp ok h u \<open>\<not> closing u\<close> by (simp add: session_ok_def x')
  qed
  then show "session_ok x'" "parserOf x' = ?p" by simp_all
qed

section \<open>A read\<close>

lemma releaseEvents_fields [simp]:
  "base (releaseEvents x) = base x" "headerBuffer (releaseEvents x) = headerBuffer x"
  "closing (sock (releaseEvents x)) = closing (sock x)" "events (sock (releaseEvents x)) = []"
  by (simp_all add: releaseEvents_def)

lemma alive_events [simp]:
  "alive (u\<lparr>events := es\<rparr>) = alive u" "idle (u\<lparr>events := es\<rparr>) = idle u"
  "admits opc n (u\<lparr>events := es\<rparr>) = admits opc n u"
  by (simp_all add: alive_def idle_def admits_def)

lemma releaseEvents_ok: "session_ok x \<Longrightarrow> session_ok (releaseEvents x)"
  by (auto simp: session_ok_def releaseEvents_def parserOf_def stream.parser_ok_def split: phase.splits)

lemma session_failureCode: "session_ok x \<Longrightarrow> \<not> closing (sock x) \<Longrightarrow> failureCode (sock x) = 1002"
  by (auto simp: session_ok_def parserOf_def stream.parser_ok_def idle_def admits_def split: phase.splits)

lemma session_spill: "session_ok x \<Longrightarrow> \<not> closing (sock x) \<Longrightarrow> spillLength (base x) \<le> 13 \<and> length (spill (base x)) = 13"
  by (auto simp: session_ok_def represents_def shapes_def)

text \<open>The bytes that \<open>consume\<close> copies behind a spilled header complete it, or are all there are.\<close>

lemma header_completion:
  assumes ok: "session_ok x" and open_: "\<not> closing (sock x)" and spilled: "spillLength (base x) \<noteq> 0"
    and bs: "bs \<noteq> []"
  defines "w \<equiv> take (spillLength (base x)) (spill (base x))"
  defines "marker \<equiv> unat ((if spillLength (base x) \<ge> 2 then spill (base x) ! 1 else bs ! 0) AND 0x7f)"
  defines "headerLength \<equiv> (if marker < 126 then SHORT_MESSAGE_HEADER
                             else if marker = 126 then MEDIUM_MESSAGE_HEADER else LONG_MESSAGE_HEADER)"
  shows "headerLength = headerLengthOf (w @ bs)" "length w = spillLength (base x)" "length w < headerLength"
    "headerLength \<le> LONG_MESSAGE_HEADER" "parserOf x = Running (Head w) (fragmentedMessage (base x)) (stackOf (base x)) (sock x)"
proof -
  note sp = session_spill [OF ok open_]
  have rep: "represents (base x) (phaseOf (base x)) (fragmentedMessage (base x)) (stackOf (base x))"
    using ok open_ by (simp add: session_ok_def)
  have wh: "wantsHead (base x)"
  proof (rule ccontr)
    assume "\<not> wantsHead (base x)"
    with rep spilled show False by (simp add: phaseOf_def represents_def)
  qed
  with ok open_ have inc: "incomplete w" by (simp add: session_ok_def w_def)
  show lw: "length w = spillLength (base x)" using sp by (simp add: w_def)
  then have ne: "w \<noteq> []" using spilled by auto
  have "(w @ bs) ! 1 = (if spillLength (base x) \<ge> 2 then spill (base x) ! 1 else bs ! 0)"
    using marker_byte [OF inc ne bs] lw bs sp by (auto simp: w_def hd_conv_nth)
  then have m: "marker = payloadLength (w @ bs)" by (simp add: marker_def payloadLength_def)
  show h: "headerLength = headerLengthOf (w @ bs)" by (simp add: headerLength_def m headerLengthOf_def)
  show "headerLength \<le> LONG_MESSAGE_HEADER" by (simp add: headerLength_def header_sizes)
  show "parserOf x = Running (Head w) (fragmentedMessage (base x)) (stackOf (base x)) (sock x)"
    using open_ wh by (simp add: parserOf_def phaseOf_def w_def)
  show "length w < headerLength"
  proof (cases "length w < SHORT_MESSAGE_HEADER")
    case True
    then show ?thesis by (auto simp: headerLength_def header_sizes)
  next
    case False
    then have "payloadLength (w @ bs) = payloadLength w" by (simp add: payloadLength_def nth_append header_sizes)
    with inc False show ?thesis by (auto simp: h incomplete_def headerLengthOf_def split: if_splits)
  qed
qed

lemma completed_spill:
  assumes ok: "session_ok x'" and open_: "\<not> closing (sock x')"
    and p: "parserOf x' = feedHead hooks pos frag stack u w" "\<not> incomplete w" "length w = headerLengthOf w"
  shows "spillLength (base x') = 0"
proof (cases "wantsHead (base x')")
  case True
  with p open_ have "take (spillLength (base x')) (spill (base x')) = []"
    by (intro feedHead_exact [OF p(2,3), of hooks pos frag stack u _ "fragmentedMessage (base x')" "stackOf (base x')" "sock x'"])
      (simp add: parserOf_def phaseOf_def)
  then show ?thesis using session_spill [OF ok open_] by auto
next
  case False
  with ok open_ show ?thesis by (simp add: session_ok_def represents_def phaseOf_def)
qed

text \<open>A read is one run of the parser, or one over the header buffer and then, if it goes on, one over the rest of the input.\<close>

lemma sw_consume_parts:
  assumes ok: "session_ok x" and open_: "\<not> closing (sock x)" and n: "n \<noteq> 0" "n \<le> UINT_MAX"
    and b: "start + n \<le> length buffer" and c: "sw_consume cpu Z buffer start n x = (x', buffer')"
  obtains (direct) "spillLength (base (releaseEvents x)) = 0"
      "consumeIn cpu Z InputBuffer buffer start n (releaseEvents x) = (x', buffer')"
  | (header) hb copied x1 hb' x2 where "0 < copied" "copied \<le> n" "copied \<le> 13" "length hb = 27"
      "window hb CONSUME_PRE_PADDING copied = take copied (window buffer start n)"
      "consumeIn cpu Z HeaderBuffer hb CONSUME_PRE_PADDING copied (releaseEvents x) = (x1, hb')"
      "x2 = x1\<lparr>headerBuffer := hb'\<rparr>" "session_ok x2" "parserOf x2 = parserOf x1"
      "(closing (sock x2) \<or> copied = n) \<and> x' = x2 \<and> buffer' = buffer \<or>
       \<not> closing (sock x2) \<and> copied < n \<and> spillLength (base x2) = 0 \<and>
         consumeIn cpu Z InputBuffer buffer (start + copied) (n - copied) x2 = (x', buffer')"
proof -
  define bs where "bs = window buffer start n"
  define x0 where "x0 = releaseEvents x"
  have x0: "session_ok x0" "\<not> closing (sock x0)" using ok open_ by (simp_all add: x0_def releaseEvents_ok)
  then have same: "x0\<lparr>sock := (sock x0)\<lparr>failureCode := 1002\<rparr>\<rparr> = x0"
    using session_failureCode [of x0] by simp
  have sp: "spillLength (base x0) \<le> 13" using session_spill [OF x0] by simp
  show thesis
  proof (cases "spillLength (base x0) = 0")
    case True
    have "consumeIn cpu Z InputBuffer buffer start n x0 = (x', buffer')"
      using c n x0(2) True same by (simp add: sw_consume_def Let_def flip: x0_def)
    with True show thesis by (intro direct) (simp_all add: x0_def)
  next
    case False
    have bs: "bs \<noteq> []" "bs ! 0 = buffer ! start" "length bs = n"
      using n b by (auto simp: window_def bs_def)
    define w where "w = take (spillLength (base x0)) (spill (base x0))"
    define hl where "hl = headerLengthOf (w @ bs)"
    define copied where "copied = min n (hl - spillLength (base x0))"
    note h = header_completion [OF x0 False bs(1), unfolded bs(2), folded w_def]
    have hl: "length w = spillLength (base x0)" "length w < hl" "hl \<le> LONG_MESSAGE_HEADER" "hl = headerLengthOf (w @ bs)"
      "parserOf x0 = Running (Head w) (fragmentedMessage (base x0)) (stackOf (base x0)) (sock x0)"
      using h by (simp_all add: hl_def)
    define hb where "hb = blit (headerBuffer x0) CONSUME_PRE_PADDING (window buffer start copied)"
    have cp: "copied \<le> n" "copied \<le> 13" "0 < copied" using hl n False by (auto simp: copied_def header_sizes)
    have lb: "length (headerBuffer x0) = 27" using x0 by (simp add: session_ok_def header_sizes)
    have lw: "length (window buffer start copied) = copied" using b cp by simp
    have lhb: "length hb = 27" using lb lw cp by (simp add: hb_def header_sizes)
    obtain x1 hb' where c1: "consumeIn cpu Z HeaderBuffer hb CONSUME_PRE_PADDING copied x0 = (x1, hb')"
      by (cases "consumeIn cpu Z HeaderBuffer hb CONSUME_PRE_PADDING copied x0")
    have win: "window hb CONSUME_PRE_PADDING copied = take copied bs"
      using window_blit_same [of CONSUME_PRE_PADDING "window buffer start copied" "headerBuffer x0"] lw lb cp
      by (simp add: hb_def header_sizes window_def bs_def min_def)
    note r1 = consumeIn_refines [OF x0 _ _ _ c1, unfolded win lhb]
    have b1: "CONSUME_PRE_PADDING + copied \<le> 27" "spillLength (base x0) \<le> CONSUME_PRE_PADDING"
      "copied + spillLength (base x0) < 2 ^ 32"
      using cp sp by (simp_all add: header_sizes)
    define x2 where "x2 = x1\<lparr>headerBuffer := hb'\<rparr>"
    have "length hb' = 27" using r1(3) [OF b1] lhb by (simp add: confined_def)
    then have x2: "session_ok x2" "parserOf x2 = parserOf x1" "closing (sock x2) = closing (sock x1)"
      using r1(1) [OF b1] by (simp_all add: x2_def session_ok_def parserOf_def header_sizes)
    have p2: "parserOf x2 = feed (protocolHooks cpu Z HeaderBuffer) CONSUME_PRE_PADDING (parserOf x0) (take copied bs)"
      using r1(2) [OF b1] x2 by simp
    have res: "(x', buffer') = (if \<not> closing (sock x2) \<and> copied < n
            then consumeIn cpu Z InputBuffer buffer (start + copied) (n - copied) x2 else (x2, buffer))"
      using c [unfolded sw_consume_def Let_def, folded x0_def, unfolded same h(1), folded hl_def, folded copied_def,
          folded hb_def, unfolded c1] n x0(2) False
      by (auto simp: x2_def split: if_splits)
    have "spillLength (base x2) = 0" if go: "\<not> closing (sock x2)" "copied < n"
    proof -
      have cut: "take hl (w @ bs) = w @ take copied bs" "length (w @ take copied bs) = hl"
        using go hl bs by (auto simp: copied_def)
      have "6 \<le> hl" using hl(4) by (simp add: headerLengthOf_def header_sizes)
      then have "headerLengthOf (w @ take copied bs) = hl"
        using header_take(7) [of hl "w @ bs"] cut hl(4) by simp
      then show ?thesis
        using x2(1) go p2 cut(2) \<open>6 \<le> hl\<close> hl(5)
        by (intro completed_spill [of x2 "protocolHooks cpu Z HeaderBuffer" _ _ _ _ "w @ take copied bs"])
          (simp_all add: incomplete_def header_sizes)
    qed
    with res cp have "(closing (sock x2) \<or> copied = n) \<and> x' = x2 \<and> buffer' = buffer \<or>
       \<not> closing (sock x2) \<and> copied < n \<and> spillLength (base x2) = 0 \<and>
         consumeIn cpu Z InputBuffer buffer (start + copied) (n - copied) x2 = (x', buffer')"
      by (auto split: if_splits)
    then show thesis
      using header [OF cp(3,1,2) lhb win [unfolded bs_def] c1 [unfolded x0_def] x2_def x2(1,2)] by blast
  qed
qed

lemma sw_consume_feeds:
  assumes ok: "session_ok x" and open_: "\<not> closing (sock x)" and n: "n \<noteq> 0" "n \<le> UINT_MAX"
    and b: "start + n \<le> length buffer" and c: "sw_consume cpu Z buffer start n x = (x', buffer')"
  defines "p \<equiv> parserOf (releaseEvents x)" and "bs \<equiv> window buffer start n"
  shows "session_ok x'" "confined start n buffer buffer'"
    "parserOf x' = feed (protocolHooks cpu Z InputBuffer) start p bs \<or>
     parserOf x' = feed (protocolHooks cpu Z HeaderBuffer) CONSUME_PRE_PADDING p bs \<or>
     (\<exists>k. parserOf x' = feed (protocolHooks cpu Z InputBuffer) (start + k)
            (feed (protocolHooks cpu Z HeaderBuffer) CONSUME_PRE_PADDING p (take k bs)) (drop k bs))"
proof -
  have x0: "session_ok (releaseEvents x)" "\<not> closing (sock (releaseEvents x))"
    using ok open_ by (simp_all add: releaseEvents_ok)
  have sp: "spillLength (base (releaseEvents x)) \<le> 13" using session_spill [OF x0] by simp
  have all: "session_ok x' \<and> confined start n buffer buffer' \<and>
    (parserOf x' = feed (protocolHooks cpu Z InputBuffer) start p bs \<or>
     parserOf x' = feed (protocolHooks cpu Z HeaderBuffer) CONSUME_PRE_PADDING p bs \<or>
     (\<exists>k. parserOf x' = feed (protocolHooks cpu Z InputBuffer) (start + k)
            (feed (protocolHooks cpu Z HeaderBuffer) CONSUME_PRE_PADDING p (take k bs)) (drop k bs)))"
    using ok open_ n b c
  proof (cases rule: sw_consume_parts)
    case direct
    from consumeIn_refines [OF x0 b _ _ direct(2)] direct(1) n show ?thesis
      by (simp add: UINT_MAX_def p_def bs_def)
  next
    case (header hb copied x1 hb' x2)
    have b1: "CONSUME_PRE_PADDING + copied \<le> length hb" "spillLength (base (releaseEvents x)) \<le> CONSUME_PRE_PADDING"
      "copied + spillLength (base (releaseEvents x)) < 2 ^ 32"
      using header(3,4) sp by (simp_all add: header_sizes)
    have p2: "parserOf x2 = feed (protocolHooks cpu Z HeaderBuffer) CONSUME_PRE_PADDING p (take copied bs)"
      using consumeIn_refines(2) [OF x0 b1 header(6)] header(5,9) by (simp add: p_def bs_def)
    from header(10) show ?thesis
    proof
      assume e: "(closing (sock x2) \<or> copied = n) \<and> x' = x2 \<and> buffer' = buffer"
      show ?thesis
      proof (cases "copied = n")
        case True
        with e header(8) p2 b show ?thesis by (simp add: bs_def)
      next
        case False
        with e have "closing (sock x2)" by simp
        then have "parserOf x2 = feed (protocolHooks cpu Z InputBuffer) (start + copied) (parserOf x2) (drop copied bs)"
          by (simp add: parserOf_def)
        then have "parserOf x2 = feed (protocolHooks cpu Z InputBuffer) (start + copied)
            (feed (protocolHooks cpu Z HeaderBuffer) CONSUME_PRE_PADDING p (take copied bs)) (drop copied bs)"
          by (subst (asm) p2) (simp only: p2)
        then show ?thesis using e header(8) by auto
      qed
    next
      assume e: "\<not> closing (sock x2) \<and> copied < n \<and> spillLength (base x2) = 0 \<and>
         consumeIn cpu Z InputBuffer buffer (start + copied) (n - copied) x2 = (x', buffer')"
      have w: "window buffer (start + copied) (n - copied) = drop copied bs"
        by (simp add: window_def bs_def drop_take add.commute)
      have "session_ok x'" "confined (start + copied) (n - copied) buffer buffer'"
        "parserOf x' = feed (protocolHooks cpu Z InputBuffer) (start + copied) (parserOf x2) (drop copied bs)"
        using consumeIn_refines [OF header(8), of "start + copied" "n - copied" buffer cpu Z InputBuffer x' buffer'] e w b n header(2)
        by (simp_all add: UINT_MAX_def)
      then show ?thesis
        using confined_trans [OF confined_refl, of "start + copied" "n - copied" buffer buffer' start n] header(2) p2 by auto
    qed
  qed
  then show "session_ok x'" "confined start n buffer buffer'" by simp_all
  show "parserOf x' = feed (protocolHooks cpu Z InputBuffer) start p bs \<or>
     parserOf x' = feed (protocolHooks cpu Z HeaderBuffer) CONSUME_PRE_PADDING p bs \<or>
     (\<exists>k. parserOf x' = feed (protocolHooks cpu Z InputBuffer) (start + k)
            (feed (protocolHooks cpu Z HeaderBuffer) CONSUME_PRE_PADDING p (take k bs)) (drop k bs))"
    using all by blast
qed

lemma session_parser_ok: "session_ok x \<Longrightarrow> stream.parser_ok (parserOf x)"
  by (cases "closing (sock x)") (simp_all add: session_ok_def parserOf_def stream.parser_ok_def)

lemma sw_consume_open:
  assumes ok: "session_ok x" and open_: "\<not> closing (sock x)" and n: "n \<noteq> 0" "n \<le> UINT_MAX"
    and b: "start + n \<le> length buffer" and c: "sw_consume cpu Z buffer start n x = (x', buffer')"
  shows "stream.same_parser (feed (protocolHooks cpu Z InputBuffer) start (parserOf (releaseEvents x)) (window buffer start n)) (parserOf x')"
proof -
  have okp: "stream.parser_ok (parserOf (releaseEvents x))" using ok by (intro session_parser_ok releaseEvents_ok)
  note f = sw_consume_feeds(3) [OF assms]
  show ?thesis
    using f stream.feed_agree [OF okp stream.same_parser_refl]
      stream.feed_append [OF okp stream.same_parser_refl, of cpu Z InputBuffer start "take k (window buffer start n)"
        "drop k (window buffer start n)" InputBuffer _ HeaderBuffer for k]
    by (auto simp only: append_take_drop_id)
qed

text \<open>A read of any length, in any state.\<close>

lemma sw_consume_refines:
  assumes ok: "session_ok x" and n: "n \<le> UINT_MAX" and b: "start + n \<le> length buffer"
    and c: "sw_consume cpu Z buffer start n x = (x', buffer')"
  shows "session_ok x' \<and> confined start n buffer buffer' \<and>
    (if n = 0 then sock x' = (sock x)\<lparr>events := [], failureCode := 1002\<rparr> \<and> base x' = base x
     else stream.same_parser
       (feed (protocolHooks cpu Z InputBuffer) start (parserOf (releaseEvents x)) (window buffer start n)) (parserOf x'))"
proof (cases "closing (sock x) \<or> n = 0")
  case False
  with sw_consume_open [OF ok _ _ n b c] sw_consume_feeds(1,2) [OF ok _ _ n b c] show ?thesis by simp
next
  case True
  define x0 where "x0 = releaseEvents x"
  have x': "x' = x0\<lparr>sock := (sock x0)\<lparr>failureCode := 1002\<rparr>\<rparr>" "buffer' = buffer"
    using c True by (auto simp: sw_consume_def Let_def x0_def)
  have same: "\<not> closing (sock x0) \<Longrightarrow> x' = x0"
    using session_failureCode [of x0] ok by (simp add: x' x0_def releaseEvents_ok)
  have "session_ok x'"
  proof (cases "closing (sock x0)")
    case True
    then show ?thesis using ok by (simp add: x' session_ok_def x0_def)
  next
    case False
    then show ?thesis using same ok by (simp add: x0_def releaseEvents_ok)
  qed
  moreover have "closing (sock x) \<Longrightarrow> stream.same_parser (parserOf x0) (parserOf x')"
    by (simp add: parserOf_def x' x0_def canon_def Let_def)
  moreover have "closing (sock x) \<Longrightarrow> parserOf x0 = Stopped (sock x0)"
    by (simp add: parserOf_def x0_def)
  ultimately show ?thesis
    using True x' by (auto simp: x0_def releaseEvents_def)
qed

section \<open>A sequence of reads\<close>

text \<open>What the caller sees of a read are its events, with the bytes of their payload.\<close>

definition observed :: "'z Session \<Rightarrow> StreamWebSocketEvent list" where
  "observed x = map erase (events (sock x))"

primrec reads :: "simd \<Rightarrow> 'z zlib \<Rightarrow> byte list list \<Rightarrow> 'z Session \<Rightarrow> 'z Session \<times> StreamWebSocketEvent list" where
  "reads cpu Z [] x = (x, [])"
| "reads cpu Z (chunk # chunks) x =
     (let (x, _) = sw_consume cpu Z chunk 0 (length chunk) x;
          (y, es) = reads cpu Z chunks x
      in (y, observed x @ es))"

text \<open>A change of the user state that commutes with the hooks commutes with the parser.\<close>

definition natural :: "'u WebSocketProtocolHooks \<Rightarrow> ('u \<Rightarrow> 'u) \<Rightarrow> bool" where
  "natural hooks f \<longleftrightarrow>
     (\<forall>n u. refusePayloadLength hooks n (f u) = map_prod id f (refusePayloadLength hooks n u)) \<and>
     (\<forall>u. setCompressed hooks (f u) = map_prod id f (setCompressed hooks u)) \<and>
     (\<forall>u. forceClose hooks (f u) = f (forceClose hooks u)) \<and>
     (\<forall>p d r opc fin u. handleFragment hooks p d r opc fin (f u) = map_prod id f (handleFragment hooks p d r opc fin u))"

lemma naturalD:
  assumes "natural hooks f"
  shows "refusePayloadLength hooks n (f u) = map_prod id f (refusePayloadLength hooks n u)"
    "setCompressed hooks (f u) = map_prod id f (setCompressed hooks u)"
    "forceClose hooks (f u) = f (forceClose hooks u)"
    "handleFragment hooks p d r opc fin (f u) = map_prod id f (handleFragment hooks p d r opc fin u)"
  using assms by (simp_all add: natural_def)

lemma openFrame_natural:
  assumes f: "natural hooks f"
  shows "openFrame hooks w frag stack (f u) = map_prod id f (openFrame hooks w frag stack u)"
proof -
  note [simp] = naturalD [OF f]
  obtain ok u1 where c: "claimCompression hooks w u = (ok, u1)" by (cases "claimCompression hooks w u")
  then have c': "claimCompression hooks w (f u) = (ok, f u1)"
    by (auto simp: claimCompression_def split: if_splits)
  show ?thesis
  proof (cases "announced w")
    case None
    then show ?thesis by (cases "\<not> ok \<or> badHeader w") (simp_all add: openFrame_def c c')
  next
    case (Some x)
    obtain n h where x: "x = (n, h)" by (cases x)
    obtain r u2 where r: "(if getOpCode w \<le> BINARY then refusePayloadLength hooks n u1 else (False, u1)) = (r, u2)"
      by fastforce
    then have r': "(if getOpCode w \<le> BINARY then refusePayloadLength hooks n (f u1) else (False, f u1)) = (r, f u2)"
      by (cases "getOpCode w \<le> BINARY") simp_all
    show ?thesis
      by (cases "\<not> ok \<or> badHeader w"; cases "allowed (getOpCode w) frag stack"; cases r)
        (simp_all add: openFrame_def Let_def c c' Some x r r' split del: if_split)
  qed
qed

lemma feedStep_natural:
  assumes f: "natural hooks f"
  shows "feedStep hooks pos frag stack (f u) w = map_progress f (feedStep hooks pos frag stack u w)"
proof (cases "incomplete w")
  case True
  then show ?thesis by (simp add: feedStep_def)
next
  case False
  obtain r u1 where o: "openFrame hooks w frag stack u = (r, u1)" by (cases "openFrame hooks w frag stack u")
  show ?thesis
  proof (cases r)
    case None
    with False o show ?thesis by (simp add: feedStep_def openFrame_natural [OF f])
  next
    case (Some x)
    obtain n h frag' stack' where x: "x = (n, h, frag', stack')" by (cases x) auto
    have a: "afterHeader hooks pos w n h frag' stack' (f u1) = map_progress f (afterHeader hooks pos w n h frag' stack' u1)"
      by (cases "n \<le> length (drop h w)") (simp_all add: afterHeader_def Let_def naturalD [OF f] split: prod.split)
    from False o Some x show ?thesis by (simp add: feedStep_def openFrame_natural [OF f] a)
  qed
qed

lemma feedHead_natural:
  assumes f: "natural hooks f"
  shows "feedHead hooks pos frag stack (f u) w = map_parser f (feedHead hooks pos frag stack u w)"
proof (induction "length w" arbitrary: pos frag stack u w rule: less_induct)
  case less
  show ?case
  proof (cases "feedStep hooks pos frag stack u w")
    case (More pos1 frag1 stack1 u1 w1)
    from less [OF feedStep_less [OF More]] More show ?thesis
      by (simp add: feedHead_run [of _ _ _ _ _ w] feedStep_natural [OF f])
  next
    case (Done p)
    then show ?thesis by (simp add: feedHead_run [of _ _ _ _ _ w] feedStep_natural [OF f])
  qed
qed

lemma feed_natural:
  assumes f: "natural hooks f"
  shows "feed hooks pos (map_parser f p) bs = map_parser f (feed hooks pos p bs)"
  by (cases "(hooks, pos, p, bs)" rule: feed.cases)
    (auto simp: naturalD [OF f] feedHead_natural [OF f] split: prod.split)

lemma natural_events: "natural (protocolHooks cpu Z reg) (addEvents es)"
  by (simp add: natural_def add_events)

section \<open>The cut into reads does not matter\<close>

definition earlier :: "StreamWebSocketEvent list \<Rightarrow> 'z StreamWebSocket parser \<Rightarrow> 'z StreamWebSocket parser" where
  "earlier es = map_parser (addEvents es)"

lemma earlier_simps [simp]:
  "earlier es (Stopped u) = Stopped (addEvents es u)"
  "earlier es (Running ph frag stack u) = Running ph frag stack (addEvents es u)"
  by (simp_all add: earlier_def)

lemma feed_earlier: "feed (protocolHooks cpu Z reg) pos (earlier es p) bs = earlier es (feed (protocolHooks cpu Z reg) pos p bs)"
  unfolding earlier_def by (rule feed_natural [OF natural_events])

lemma same_earlier: "stream.same_parser p q \<Longrightarrow> map erase es = map erase es' \<Longrightarrow> stream.same_parser (earlier es p) (earlier es' q)"
  by (cases p; cases q) (auto simp: canon_addEvents)

lemma earlier_ok: "stream.parser_ok (earlier es p) = stream.parser_ok p"
  by (cases p) (auto simp: stream.parser_ok_def alive_def idle_def admits_def split: phase.splits)

lemma earlier_release: "parserOf x = earlier (events (sock x)) (parserOf (releaseEvents x))"
  by (simp add: parserOf_def releaseEvents_def addEvents_def)

lemma earlier_append: "earlier es (earlier es' p) = earlier (es @ es') p"
  by (cases p) (simp_all add: addEvents_def)

lemma earlier_Nil: "earlier [] p = p"
  by (cases p) (simp_all add: addEvents_def)

lemma same_observed: "stream.same_parser (parserOf x) (parserOf y) \<Longrightarrow> observed x = observed y"
proof -
  have e: "map erase (events u) = events (canon u)" for u :: "'b StreamWebSocket"
    by (simp add: canon_def Let_def)
  show "stream.same_parser (parserOf x) (parserOf y) \<Longrightarrow> observed x = observed y"
    by (auto simp: parserOf_def observed_def e split: if_splits)
qed

definition fed ::
  "simd \<Rightarrow> 'z zlib \<Rightarrow> 'z StreamWebSocket parser \<Rightarrow> byte list \<Rightarrow> 'z StreamWebSocket parser" where
  "fed cpu Z p bs = (if bs = [] then p else feed (protocolHooks cpu Z InputBuffer) 0 p bs)"

lemma fed_agree: "stream.parser_ok p \<Longrightarrow> stream.same_parser p q \<Longrightarrow> stream.same_parser (fed cpu Z p bs) (fed cpu Z q bs)"
  by (simp add: fed_def stream.feed_agree)

lemma fed_append:
  assumes "stream.parser_ok p"
  shows "stream.same_parser (fed cpu Z p (a @ b)) (fed cpu Z (fed cpu Z p a) b)"
  using stream.feed_append [OF assms stream.same_parser_refl] by (simp add: fed_def)

lemma fed_earlier: "fed cpu Z (earlier es p) bs = earlier es (fed cpu Z p bs)"
  by (simp add: fed_def feed_earlier)

lemma fed_ok: "stream.parser_ok p \<Longrightarrow> stream.parser_ok (fed cpu Z p bs)"
  by (simp add: fed_def stream.feed_ok)

lemma erase_erase [simp]: "erase (erase e) = erase e"
  by (simp add: erase_def payloadData_def)

lemma read_fed:
  assumes ok: "session_ok x" and n: "length c \<le> UINT_MAX"
    and c: "sw_consume cpu Z c 0 (length c) x = (y, b)"
  shows "session_ok y"
    "stream.same_parser (fed cpu Z (parserOf (releaseEvents x)) c) (earlier (observed y) (parserOf (releaseEvents y)))"
proof -
  note r = sw_consume_refines [OF ok n _ c, simplified]
  show "session_ok y" using r by simp
  have e: "stream.same_parser (earlier (events (sock y)) (parserOf (releaseEvents y)))
      (earlier (observed y) (parserOf (releaseEvents y)))"
    by (rule same_earlier) (simp_all add: observed_def)
  have f: "window c 0 (length c) = c" by (simp add: window_def)
  have "stream.same_parser (fed cpu Z (parserOf (releaseEvents x)) c) (parserOf y)"
  proof (cases "c = []")
    case True
    with r have y: "sock y = (sock x)\<lparr>events := [], failureCode := 1002\<rparr>" "base y = base x" by simp_all
    have "\<not> closing (sock x) \<Longrightarrow> sock y = (sock x)\<lparr>events := []\<rparr>"
      using session_failureCode [OF ok] by (simp add: y)
    then show ?thesis using True y by (auto simp: fed_def parserOf_def releaseEvents_def canon_def Let_def)
  next
    case False
    with r f show ?thesis by (simp add: fed_def)
  qed
  with e show "stream.same_parser (fed cpu Z (parserOf (releaseEvents x)) c) (earlier (observed y) (parserOf (releaseEvents y)))"
    using stream.same_parser_trans earlier_release [of y] by metis
qed

lemma reads_fed:
  assumes "session_ok x" "\<forall>c \<in> set chunks. length c \<le> UINT_MAX" "reads cpu Z chunks x = (y, es)"
  shows "session_ok y \<and> stream.same_parser (fed cpu Z (parserOf (releaseEvents x)) (concat chunks))
      (earlier es (parserOf (releaseEvents y)))"
  using assms
proof (induction chunks arbitrary: x es)
  case (Cons c cs)
  obtain x1 b1 where c1: "sw_consume cpu Z c 0 (length c) x = (x1, b1)" by (cases "sw_consume cpu Z c 0 (length c) x")
  obtain es1 where r: "reads cpu Z cs x1 = (y, es1)" "es = observed x1 @ es1"
    using Cons.prems(3) c1 by (auto split: prod.splits)
  have rf: "session_ok x1"
    "stream.same_parser (fed cpu Z (parserOf (releaseEvents x)) c) (earlier (observed x1) (parserOf (releaseEvents x1)))"
    using read_fed [OF Cons.prems(1) _ c1] Cons.prems(2) by simp_all
  have IH: "session_ok y" "stream.same_parser (fed cpu Z (parserOf (releaseEvents x1)) (concat cs))
      (earlier es1 (parserOf (releaseEvents y)))"
    using Cons.IH [OF rf(1) _ r(1)] Cons.prems(2) by simp_all
  have okx: "stream.parser_ok (parserOf (releaseEvents x))"
    using Cons.prems(1) by (intro session_parser_ok releaseEvents_ok)
  have a: "stream.same_parser (fed cpu Z (parserOf (releaseEvents x)) (c @ concat cs))
      (fed cpu Z (earlier (observed x1) (parserOf (releaseEvents x1))) (concat cs))"
    using stream.same_parser_trans [OF fed_append [OF okx] fed_agree [OF fed_ok [OF okx] rf(2)]] .
  have b: "stream.same_parser (earlier (observed x1) (fed cpu Z (parserOf (releaseEvents x1)) (concat cs)))
      (earlier (observed x1) (earlier es1 (parserOf (releaseEvents y))))"
    by (rule same_earlier [OF IH(2) refl])
  show ?case
    using stream.same_parser_trans [OF a [unfolded fed_earlier] b] IH(1) by (simp add: earlier_append r(2))
qed (simp add: fed_def earlier_Nil)

lemma reads_erased: "map erase (snd (reads cpu Z chunks x)) = snd (reads cpu Z chunks x)"
  by (induction chunks arbitrary: x) (simp_all add: observed_def split: prod.split, metis snd_conv)

lemma same_earlier_events:
  assumes "stream.same_parser (earlier es (parserOf (releaseEvents y))) (earlier es' (parserOf (releaseEvents y')))"
  shows "map erase es = map erase es'" "closing (sock y) = closing (sock y')"
proof -
  have e: "events (canon (addEvents es u)) = map erase es" if "events u = []" for u :: "'a StreamWebSocket" and es
    using that by (simp add: canon_def Let_def)
  show "closing (sock y) = closing (sock y')"
    using assms by (auto simp: parserOf_def split: if_splits)
  have "canon (addEvents es (sock (releaseEvents y))) = canon (addEvents es' (sock (releaseEvents y')))"
    using assms by (auto simp: parserOf_def split: if_splits)
  then show "map erase es = map erase es'" using e by (metis releaseEvents_fields(4))
qed

text \<open>
  C2: however the bytes are cut into reads, the same frames, messages and closures are delivered, with
  the same payload, as if they came in one read, and the socket is closed after the one if it is after the other.
\<close>

theorem chunk_independence:
  assumes "session_ok x" "\<forall>c \<in> set chunks. length c \<le> UINT_MAX" "length (concat chunks) \<le> UINT_MAX"
    "reads cpu Z chunks x = (y, es)" "reads cpu Z [concat chunks] x = (y', es')"
  shows "es = es' \<and> closing (sock y) = closing (sock y')"
proof -
  have "stream.same_parser (earlier es (parserOf (releaseEvents y))) (earlier es' (parserOf (releaseEvents y')))"
    using reads_fed [OF assms(1,2,4)] reads_fed [OF assms(1) _ assms(5)] assms(3)
      stream.same_parser_trans stream.same_parser_sym by fastforce
  note same_earlier_events [OF this]
  then show ?thesis
    using reads_erased [of cpu Z chunks x] reads_erased [of cpu Z "[concat chunks]" x] assms(4,5) by auto
qed

end
