(* ===== verification/Session_Safety.thy ===== *)
theory Session_Safety
  imports Stream_Session
begin

text \<open>
  Safety of a connection against any client: at most one closure, delivered last; messages within the
  payload limit and text messages valid; a bound on what is buffered. Each is an invariant of the hooks
  (\<open>sink_invariant\<close>) that the parser, a read and a sequence of reads keep.
\<close>

section \<open>Invariants of a session\<close>

lemma sock_userOf: "sock x = userOf (parserOf x)"
  by (simp add: parserOf_def)

lemma sw_consume_keeps:
  assumes inv: "sink_invariant (protocolHooks cpu Z) canon alive idle admits I"
    and ok: "session_ok x" and open_: "\<not> closing (sock x)" and n: "n \<noteq> 0" "n \<le> UINT_MAX"
    and b: "start + n \<le> length buffer" and c: "sw_consume cpu Z buffer start n x = (x', buffer')"
    and I: "I ((sock x)\<lparr>events := []\<rparr>)"
  shows "I (sock x')"
proof -
  have okp: "stream.parser_ok (parserOf (releaseEvents x))" using ok by (intro session_parser_ok releaseEvents_ok)
  have Ip: "I (userOf (parserOf (releaseEvents x)))" using I by (simp flip: sock_userOf) (simp add: releaseEvents_def)
  note f = sink_invariant.feed_inv [OF inv]
  note k = f [OF okp Ip]
  show ?thesis
    unfolding sock_userOf
    using sw_consume_feeds(3) [OF ok open_ n b c] k f [OF stream.feed_ok [OF okp] k]
    by metis
qed

text \<open>An invariant of the hooks of \<open>StreamWebSocket\<close>, hook by hook.\<close>

lemma stream_invariant:
  assumes "\<And>u. I u \<Longrightarrow> I (u\<lparr>failureCode := 1009\<rparr>)" "\<And>u. I u \<Longrightarrow> I (u\<lparr>compressionStatus := COMPRESSED_FRAME\<rparr>)"
    "\<And>u. I u \<Longrightarrow> alive u \<Longrightarrow> I (fail cpu (failureCode u) u)"
    "\<And>u reg p d r opc fin b u'. I u \<Longrightarrow> alive u \<Longrightarrow> admits opc (length d + r) u \<Longrightarrow>
       sw_handleFragment cpu Z reg p d r opc fin u = (b, u') \<Longrightarrow> I u'"
  shows "sink_invariant (protocolHooks cpu Z) canon alive idle admits I"
  using assms
  by unfold_locales (auto simp: sw_setCompressed_def sw_refusePayloadLength_def sw_forceClose_def split: if_splits)

section \<open>At most one closure, and nothing after it\<close>

definition closures :: "StreamWebSocketEvent list \<Rightarrow> StreamWebSocketEvent list" where
  "closures = filter (\<lambda>e. ev_type e = CLOSED)"

definition orderly :: "'z StreamWebSocket \<Rightarrow> bool" where
  "orderly s \<longleftrightarrow> (if closing s
     then \<exists>es e. events s = es @ [e] \<and> ev_type e = CLOSED \<and> closures es = []
     else closures (events s) = [])"

lemma closures_append [simp]: "closures (xs @ ys) = closures xs @ closures ys" "closures [] = []"
  by (simp_all add: closures_def)

lemma orderly_emit:
  "closing (emitClose n d s) \<Longrightarrow> closures (events s) = [] \<Longrightarrow> orderly (emitClose n d s)"
  "\<not> closing s \<Longrightarrow> orderly s \<Longrightarrow> orderly (emitMessage opc d vw s)" "\<not> closing s \<Longrightarrow> orderly s \<Longrightarrow> orderly (emitFrame fr s)"
  by (simp_all add: orderly_def emitClose_def emitMessage_def emitFrame_def closures_def)

lemma closures_emitFrame [simp]: "closures (events (emitFrame fr s)) = closures (events s)"
  by (simp add: emitFrame_def closures_def)

lemma orderly_fail: "orderly s \<Longrightarrow> orderly (fail cpu code s)"
  by (auto simp: fail_def Let_def intro!: orderly_emit) (auto simp: orderly_def)

lemma orderly_same: "events s' = events s \<Longrightarrow> closing s' = closing s \<Longrightarrow> orderly s' = orderly s"
  by (simp add: orderly_def)

lemma orderly_failWith: "orderly s \<Longrightarrow> orderly (failWith cpu code s)"
  by (simp add: failWith_def Let_def orderly_fail orderly_same [of "s\<lparr>failureCode := code\<rparr>" s])

lemma orderly_decode: "orderly s \<Longrightarrow> decodeMessage cpu Z dat opc s = (m, s') \<Longrightarrow> orderly s'"
proof -
  assume o: "orderly s" and d: "decodeMessage cpu Z dat opc s = (m, s')"
  obtain r out s1 where i: "sw_inflateMessage Z dat (s\<lparr>compressionStatus := ENABLED\<rparr>) = (r, out, s1)"
    by (cases "sw_inflateMessage Z dat (s\<lparr>compressionStatus := ENABLED\<rparr>)")
  have "orderly s1" using inflate_fields [OF i] o orderly_same [of s1 s] by simp
  with d o i show ?thesis by (auto simp: decodeMessage_def Let_def intro: orderly_failWith split: if_splits)
qed

lemma orderly_controlFrame: "orderly s \<Longrightarrow> \<not> closing s \<Longrightarrow> controlFrame cpu dat opc s = (b, s') \<Longrightarrow> orderly s'"
  by (auto simp: controlFrame_def Let_def orderly_def [of s] intro!: orderly_emit orderly_failWith split: if_splits)
    (simp_all add: orderly_def)

lemma data_stops:
  assumes "dataFragment cpu Z reg p dat r opc fin s = (True, s')"
  obtains (refused) "s' = failWith cpu 1009 s"
  | (direct) "decodeMessage cpu Z dat opc s = (None, s')"
  | (buffered) "decodeMessage cpu Z (fragmentBuffer s @ dat) opc (s\<lparr>fragmentBuffer := fragmentBuffer s @ dat\<rparr>) = (None, s')"
      "\<exists>s1. appendFragment cpu dat r s = (True, s1)"
proof (cases "r = 0 \<and> fin \<and> fragmentBuffer s = []")
  case True
  obtain d s1 where d: "decodeMessage cpu Z dat opc s = (d, s1)" by (cases "decodeMessage cpu Z dat opc s")
  with True assms show ?thesis by (cases d) (auto simp: dataFragment_def intro: direct)
next
  case False
  obtain ok s1 where a: "appendFragment cpu dat r s = (ok, s1)" by (cases "appendFragment cpu dat r s")
  note s1 = append_cases [OF a]
  show ?thesis
  proof (cases ok)
    case True
    obtain d s2 where d: "decodeMessage cpu Z (fragmentBuffer s1) opc s1 = (d, s2)"
      by (cases "decodeMessage cpu Z (fragmentBuffer s1) opc s1")
    have a0: "r = 0 \<Longrightarrow> appendFragment cpu dat 0 s = (ok, s1)" using a by simp
    show ?thesis
      using assms False True a a0 d s1 by (cases d; cases "r = 0"; cases fin) (auto simp: dataFragment_def intro: buffered)
  next
    case no: False
    have a0: "r = 0 \<Longrightarrow> appendFragment cpu dat 0 s = (ok, s1)" using a by simp
    show ?thesis using assms False no a a0 s1 by (cases "r = 0") (auto simp: dataFragment_def intro: refused)
  qed
qed

lemma orderly_data:
  assumes "orderly s" "\<not> closing s" "dataFragment cpu Z reg p dat r opc fin s = (b, s')"
  shows "orderly s'"
proof (cases b)
  case False
  with assms have "dataFragment cpu Z reg p dat r opc fin s = (False, s')" by simp
  then show ?thesis
  proof (cases rule: data_goes_on)
    case (direct bytes inflated s1)
    with orderly_decode [OF assms(1) direct(4)] decode_accepted [OF direct(4)] assms(2) show ?thesis
      by (simp add: orderly_emit)
  next
    case (buffered bytes inflated s1)
    have "orderly (s\<lparr>fragmentBuffer := fragmentBuffer s @ dat\<rparr>)" using assms(1) by (simp add: orderly_def)
    from orderly_decode [OF this buffered(3)] decode_accepted [OF buffered(3)] assms(2)
    have "orderly (emitMessage opc bytes None s1)" by (simp add: orderly_emit)
    then show ?thesis by (simp add: buffered(4) orderly_def)
  next
    case kept
    with assms(1) show ?thesis by (simp add: orderly_def)
  qed
next
  case True
  with assms have "dataFragment cpu Z reg p dat r opc fin s = (True, s')" by simp
  then show ?thesis
  proof (cases rule: data_stops)
    case refused
    with assms(1) show ?thesis by (simp add: orderly_failWith)
  next
    case direct
    with orderly_decode assms(1) show ?thesis by blast
  next
    case buffered
    have "orderly (s\<lparr>fragmentBuffer := fragmentBuffer s @ dat\<rparr>)" using assms(1) by (simp add: orderly_def)
    from orderly_decode [OF this buffered(1)] show ?thesis .
  qed
qed

lemma orderly_handle:
  assumes "orderly s" "\<not> closing s" "sw_handleFragment cpu Z reg p dat r opc fin s = (b, s')"
  shows "orderly s'"
proof -
  have c: "orderly s''" if "controlFragment cpu dat r opc fin s = (b, s'')" for s''
  proof -
    let ?s = "s\<lparr>fragmentBuffer := fragmentBuffer s @ dat,
                     controlTipLength := (controlTipLength s + length dat mod 256) mod 256\<rparr>"
    have s: "orderly ?s" "\<not> closing ?s" using assms(1,2) by (simp_all add: orderly_def)
    have same: "orderly (u\<lparr>fragmentBuffer := x, controlTipLength := 0\<rparr>) = orderly u" for u :: "'a StreamWebSocket" and x
      by (simp add: orderly_def)
    show ?thesis
      using that orderly_controlFrame [OF assms(1,2)] orderly_controlFrame [OF s] s(1)
      by (auto simp: controlFragment_def Let_def same split: if_splits prod.splits)
  qed
  show ?thesis
    using assms c orderly_data [OF assms(1,2)]
    by (auto simp: sw_handleFragment_def split: if_splits)
qed

lemma orderly_invariant: "sink_invariant (protocolHooks cpu Z) canon alive idle admits orderly"
proof (rule stream_invariant)
  fix u :: "'a StreamWebSocket"
  assume "orderly u"
  then show "orderly (u\<lparr>failureCode := 1009\<rparr>)" "orderly (u\<lparr>compressionStatus := COMPRESSED_FRAME\<rparr>)"
    "orderly (fail cpu (failureCode u) u)"
    by (simp_all add: orderly_fail) (simp_all add: orderly_def)
qed (auto simp: alive_def intro: orderly_handle)

lemma one_closure:
  assumes "session_ok x" "\<not> closing (sock x)" "n \<noteq> 0" "n \<le> UINT_MAX" "start + n \<le> length buffer"
    "sw_consume cpu Z buffer start n x = (x', buffer')"
  shows "orderly (sock x')"
proof -
  have "orderly ((sock x)\<lparr>events := []\<rparr>)" using assms(2) by (simp add: orderly_def)
  from sw_consume_keeps [OF orderly_invariant assms this] show ?thesis .
qed

lemma sw_consume_closed:
  assumes "closing (sock x) \<or> n = 0" "sw_consume cpu Z buffer start n x = (x', buffer')"
  shows "sock x' = (sock x)\<lparr>events := [], failureCode := 1002\<rparr>"
  using assms by (auto simp: sw_consume_def Let_def releaseEvents_def)

lemma closures_erase [simp]: "closures (map erase es) = map erase (closures es)"
  by (induction es) (auto simp: closures_def erase_def)

lemma reads_closed: "closing (sock x) \<Longrightarrow> reads cpu Z chunks x = (y, es) \<Longrightarrow> es = [] \<and> closing (sock y)"
proof (induction chunks arbitrary: x es)
  case (Cons c cs)
  obtain x1 b1 where c1: "sw_consume cpu Z c 0 (length c) x = (x1, b1)" by (cases "sw_consume cpu Z c 0 (length c) x")
  have s: "closing (sock x1)" "observed x1 = []"
    using sw_consume_closed [OF _ c1] Cons.prems(1) by (simp_all add: observed_def)
  obtain es1 where r: "reads cpu Z cs x1 = (y, es1)" "es = observed x1 @ es1"
    using Cons.prems(2) c1 by (auto split: prod.splits)
  with Cons.IH [OF s(1) r(1)] s show ?case by simp
qed simp

text \<open>
  C7: over the whole life of a connection at most one closure is delivered. Nothing is delivered after
  it, and it is delivered exactly when the socket closes.
\<close>

theorem closure_is_last:
  assumes "session_ok x" "\<not> closing (sock x)" "\<forall>c \<in> set chunks. length c \<le> UINT_MAX"
    "reads cpu Z chunks x = (y, es)"
  shows "if closing (sock y) then \<exists>before e. es = before @ [e] \<and> ev_type e = CLOSED \<and> closures before = []
    else closures es = []"
  using assms
proof (induction chunks arbitrary: x es)
  case Nil
  then show ?case by simp
next
  case (Cons c cs)
  obtain x1 b1 where c1: "sw_consume cpu Z c 0 (length c) x = (x1, b1)" by (cases "sw_consume cpu Z c 0 (length c) x")
  obtain es1 where r: "reads cpu Z cs x1 = (y, es1)" "es = observed x1 @ es1"
    using Cons.prems(4) c1 by (auto split: prod.splits)
  have ok: "session_ok x1" using sw_consume_refines [OF Cons.prems(1) _ _ c1] Cons.prems(3) by simp
  have o: "orderly (sock x1)"
  proof (cases "c = []")
    case True
    with sw_consume_closed [OF _ c1] Cons.prems(2) show ?thesis by (simp add: orderly_def)
  next
    case False
    then show ?thesis using one_closure [OF Cons.prems(1,2) _ _ _ c1] Cons.prems(3) by simp
  qed
  show ?case
  proof (cases "closing (sock x1)")
    case True
    then obtain ev e where e: "events (sock x1) = ev @ [e]" "ev_type e = CLOSED" "closures ev = []"
      using o by (auto simp: orderly_def)
    have "es1 = []" "closing (sock y)" using reads_closed [OF True r(1)] by simp_all
    with e r(2) have "es = map erase ev @ [erase e]" "ev_type (erase e) = CLOSED" "closures (map erase ev) = []"
      by (simp_all add: observed_def erase_def)
    with \<open>closing (sock y)\<close> show ?thesis by auto
  next
    case False
    then have n: "closures (observed x1) = []" using o by (simp add: orderly_def observed_def)
    have IH: "if closing (sock y) then \<exists>before e. es1 = before @ [e] \<and> ev_type e = CLOSED \<and> closures before = []
        else closures es1 = []"
      using Cons.IH [OF ok False _ r(1)] Cons.prems(3) by simp
    show ?thesis
    proof (cases "closing (sock y)")
      case True
      with IH obtain before e where "es1 = before @ [e]" "ev_type e = CLOSED" "closures before = []" by auto
      then have "es = (observed x1 @ before) @ [e]" "closures (observed x1 @ before) = []"
        using n r(2) by simp_all
      with True \<open>ev_type e = CLOSED\<close> show ?thesis by metis
    qed (use IH n r(2) in simp)
  qed
qed

section \<open>What is delivered and what is held\<close>

definition delivered_ok :: "simd \<Rightarrow> nat \<Rightarrow> StreamWebSocketEvent \<Rightarrow> bool" where
  "delivered_ok cpu limit e \<longleftrightarrow> (ev_type e = MESSAGE \<longrightarrow>
     length (payloadData e) \<le> limit \<and> (ev_opCode e = TEXT \<longrightarrow> isValidUtf8 cpu (payloadData e)))"

text \<open>
  With the payload limit \<open>limit\<close>, no more than it, and one control frame, is ever buffered; and the
  inflaters of both contexts are as \<open>inflateMessage\<close> needs them.
\<close>

definition within :: "'z zlib \<Rightarrow> simd \<Rightarrow> nat \<Rightarrow> 'z StreamWebSocket \<Rightarrow> bool" where
  "within Z cpu limit s \<longleftrightarrow> maxPayload s = limit \<and> length (fragmentBuffer s) \<le> limit + controlTipLength s \<and>
     controlTipLength s \<le> 125 \<and> list_all (delivered_ok cpu limit) (events s) \<and>
     pred_option (usable Z) (sharedCompressionContext s) \<and> pred_option (usable Z) (privateCompressionContext s)"

lemma within_fail [simp]: "within Z cpu limit (fail cpu code s) = within Z cpu limit s"
  by (auto simp: within_def fail_def Let_def emitClose_def emitFrame_def delivered_ok_def)

lemma within_failureCode [simp]: "within Z cpu limit (s\<lparr>failureCode := code\<rparr>) = within Z cpu limit s"
  by (simp add: within_def)

lemma within_failWith [simp]: "within Z cpu limit (failWith cpu code s) = within Z cpu limit s"
  by (simp add: failWith_def Let_def)

lemma inflate_within:
  assumes Z: "inflate_lawful Z" "0 < limit" and w: "within Z cpu limit s"
    and i: "sw_inflateMessage Z dat s = (r, out, s')"
  shows "length out \<le> limit \<and> within Z cpu limit s'"
proof -
  let ?reset = "has_option (extensionOptions s) CLIENT_NO_CONTEXT_TAKEOVER"
  let ?ctx = "if ?reset then sharedCompressionContext s else privateCompressionContext s"
  show ?thesis
  proof (cases ?ctx)
    case None
    with i w show ?thesis by (simp add: sw_inflateMessage_def)
  next
    case (Some ctx)
    have "0 < maxPayload s" "usable Z ctx" using Z w Some by (auto simp: within_def split: if_splits)
    with Z(1) obtain res ctx' out' where "inflateMessage Z ctx dat (maxPayload s) ?reset = Some (res, ctx', out')"
      "length out' \<le> maxPayload s" "usable Z ctx'"
      by (rule inflateMessage_bounded)
    with i w Some show ?thesis by (auto simp: sw_inflateMessage_def within_def)
  qed
qed

lemma within_status [simp]: "within Z cpu limit (s\<lparr>compressionStatus := c\<rparr>) = within Z cpu limit s"
  by (simp add: within_def)

lemma within_decode:
  assumes Z: "inflate_lawful Z" "0 < limit" and w: "within Z cpu limit s"
    and d: "decodeMessage cpu Z dat opc s = (m, s')"
  shows "within Z cpu limit s' \<and> (\<forall>bytes inflated. m = Some (bytes, inflated) \<longrightarrow> length dat \<le> limit \<longrightarrow> length bytes \<le> limit)"
proof -
  obtain r out s1 where i: "sw_inflateMessage Z dat (s\<lparr>compressionStatus := ENABLED\<rparr>) = (r, out, s1)"
    by (cases "sw_inflateMessage Z dat (s\<lparr>compressionStatus := ENABLED\<rparr>)")
  from inflate_within [OF Z _ i] w have "length out \<le> limit" "within Z cpu limit s1" by simp_all
  with d i w show ?thesis by (auto simp: decodeMessage_def Let_def split: if_splits)
qed

lemma within_controlFrame:
  "controlFrame cpu dat opc s = (b, s') \<Longrightarrow> within Z cpu limit s' = within Z cpu limit s"
  by (auto simp: controlFrame_def Let_def split: if_splits)
    (simp_all add: within_def emitClose_def emitFrame_def delivered_ok_def)

lemma data_fits:
  assumes "dataFragment cpu Z reg p dat r opc fin s = (False, s')" "\<not> (r = 0 \<and> fin \<and> fragmentBuffer s = [])" "maxPayload s \<noteq> 0"
  shows "length (fragmentBuffer s) + length dat + r \<le> maxPayload s"
proof (rule ccontr)
  assume "\<not> ?thesis"
  then have "appendFragment cpu dat r s = (False, failWith cpu 1009 s)"
    using assms(3) by (intro append_refused) simp
  with assms(1,2) show False by (auto simp: dataFragment_def)
qed

lemma within_message:
  "delivered_ok cpu limit \<lparr>ev_type = MESSAGE, ev_data = d, ev_opCode = opc, ev_code = 0, view = vw\<rparr> \<Longrightarrow>
   within Z cpu limit s \<Longrightarrow> within Z cpu limit (emitMessage opc d vw s)"
  by (simp add: within_def emitMessage_def)

lemma within_data:
  assumes w: "within Z cpu limit s" and Z: "inflate_lawful Z" and l: "0 < limit"
    and adm: "length dat + r \<le> limit" "controlTipLength s = 0"
    and d: "dataFragment cpu Z reg p dat r opc fin s = (b, s')"
  shows "within Z cpu limit s'"
proof -
  have m: "maxPayload s = limit" using w by (simp add: within_def)
  let ?s = "s\<lparr>fragmentBuffer := fragmentBuffer s @ dat\<rparr>"
  show ?thesis
  proof (cases b)
    case False
    with d have d: "dataFragment cpu Z reg p dat r opc fin s = (False, s')" by simp
    have len: "length (fragmentBuffer s) + length dat \<le> limit"
      using data_fits [OF d] m l adm(1) by (cases "r = 0 \<and> fin \<and> fragmentBuffer s = []") auto
    then have ws: "within Z cpu limit ?s" using w by (simp add: within_def)
    from d show ?thesis
    proof (cases rule: data_goes_on)
      case (direct bytes inflated s1)
      have "length bytes \<le> limit" "within Z cpu limit s1" using within_decode [OF Z l w direct(4)] adm(1) by simp_all
      with direct decode_accepted [OF direct(4)] show ?thesis
        by (auto intro!: within_message simp: delivered_ok_def)
    next
      case (buffered bytes inflated s1)
      have "length bytes \<le> limit" "within Z cpu limit s1" using within_decode [OF Z l ws buffered(3)] len by simp_all
      with buffered(3) decode_accepted [OF buffered(3)]
      have "within Z cpu limit (emitMessage opc bytes None s1)"
        by (auto intro!: within_message simp: delivered_ok_def)
      then show ?thesis by (simp add: buffered(4) within_def)
    next
      case kept
      with ws show ?thesis by simp
    qed
  next
    case True
    with d have d: "dataFragment cpu Z reg p dat r opc fin s = (True, s')" by simp
    then show ?thesis
    proof (cases rule: data_stops)
      case refused
      with w show ?thesis by simp
    next
      case direct
      with within_decode [OF Z l w] show ?thesis by blast
    next
      case buffered
      then have "length (fragmentBuffer s) + length dat \<le> limit"
        using m l by (auto simp: appendFragment_def Let_def split: if_splits)
      then have "within Z cpu limit ?s" using w by (simp add: within_def)
      from within_decode [OF Z l this buffered(1)] show ?thesis by blast
    qed
  qed
qed

lemma within_handle:
  assumes w: "within Z cpu limit s" and Z: "inflate_lawful Z" and l: "0 < limit"
    and adm: "admits opc (length d + r) s" and open_: "\<not> closing s"
    and h: "sw_handleFragment cpu Z reg p d r opc fin s = (b, s')"
  shows "within Z cpu limit s'"
proof -
  have m: "maxPayload s = limit" using w by (simp add: within_def)
  have c: "within Z cpu limit s''" if "controlFragment cpu d r opc fin s = (b, s'')" "\<not> opc < 3" for s''
  proof -
    let ?s = "s\<lparr>fragmentBuffer := fragmentBuffer s @ d, controlTipLength := (controlTipLength s + length d mod 256) mod 256\<rparr>"
    have ws: "within Z cpu limit ?s" using w adm that(2) by (simp add: within_def admits_def)
    have cut: "within Z cpu limit (u\<lparr>fragmentBuffer := take (length (fragmentBuffer u) - controlTipLength u) (fragmentBuffer u),
         controlTipLength := 0\<rparr>)" if "within Z cpu limit u" for u :: "'a StreamWebSocket"
      using that by (auto simp: within_def)
    show ?thesis
      using that(1) within_controlFrame [of cpu d opc s b s'' Z limit] w ws cut
      by (auto simp: controlFragment_def Let_def dest!: within_controlFrame split: if_splits prod.splits)
  qed
  show ?thesis
    using h w c m open_ adm l within_data [OF w Z l, of d r reg p opc fin b s']
    by (auto simp: sw_handleFragment_def admits_def split: if_splits)
qed

lemma within_invariant:
  "inflate_lawful Z \<Longrightarrow> 0 < limit \<Longrightarrow> sink_invariant (protocolHooks cpu Z) canon alive idle admits (within Z cpu limit)"
  by (rule stream_invariant) (auto simp: alive_def intro: within_handle)

lemma delivered_erase: "delivered_ok cpu limit (erase e) = delivered_ok cpu limit e"
  by (cases e) (simp add: delivered_ok_def erase_def)

lemma read_within:
  assumes Z: "inflate_lawful Z" "0 < limit" and ok: "session_ok x" and w: "within Z cpu limit ((sock x)\<lparr>events := []\<rparr>)"
    and n: "n \<le> UINT_MAX" and b: "start + n \<le> length buffer" and c: "sw_consume cpu Z buffer start n x = (x', buffer')"
  shows "within Z cpu limit (sock x')"
proof (cases "closing (sock x) \<or> n = 0")
  case True
  from sw_consume_closed [OF this c] w show ?thesis by (simp add: within_def)
next
  case False
  with sw_consume_keeps [OF within_invariant [OF Z] ok _ _ n b c w] show ?thesis by simp
qed

lemma reads_within:
  assumes "inflate_lawful Z" "0 < limit" "session_ok x" "within Z cpu limit ((sock x)\<lparr>events := []\<rparr>)"
    "\<forall>c \<in> set chunks. length c \<le> UINT_MAX" "reads cpu Z chunks x = (y, es)"
  shows "within Z cpu limit ((sock y)\<lparr>events := []\<rparr>) \<and> list_all (delivered_ok cpu limit) es"
  using assms
proof (induction chunks arbitrary: x es)
  case (Cons c cs)
  obtain x1 b1 where c1: "sw_consume cpu Z c 0 (length c) x = (x1, b1)" by (cases "sw_consume cpu Z c 0 (length c) x")
  obtain es1 where r: "reads cpu Z cs x1 = (y, es1)" "es = observed x1 @ es1"
    using Cons.prems(6) c1 by (auto split: prod.splits)
  have w: "within Z cpu limit (sock x1)" using read_within [OF Cons.prems(1-4) _ _ c1] Cons.prems(5) by simp
  have ok: "session_ok x1" using sw_consume_refines [OF Cons.prems(3) _ _ c1] Cons.prems(5) by simp
  have "within Z cpu limit ((sock x1)\<lparr>events := []\<rparr>)" "list_all (delivered_ok cpu limit) (observed x1)"
    using w by (simp_all add: within_def observed_def list_all_iff delivered_erase)
  with Cons.IH [OF Cons.prems(1,2) ok _ _ r(1)] Cons.prems(5) r(2) show ?case by simp
qed simp

text \<open>
  C9: whatever a client sends, in whatever reads, compressed or not, a connection with a payload limit
  delivers only messages within the limit, its text messages are valid UTF-8, and between the reads it
  holds at most the limit and one control frame of 125 bytes. A compression context it shares with
  other connections, if it is given one, has to be as they leave it (\<open>usable\<close>: a context is usable
  when it is created, and inflating and deflating keep it so).
\<close>

theorem delivered_and_held:
  assumes "inflate_lawful Z" "0 < limit" "length mask0 = 4" "length header0 = CONSUME_PRE_PADDING + LONG_MESSAGE_HEADER"
    "pred_option (usable Z) context" "\<forall>c \<in> set chunks. length c \<le> UINT_MAX"
    "reads cpu Z chunks (newSession Z negotiated bits limit context mask0 header0) = (y, es)"
  shows "(\<forall>e \<in> set es. ev_type e = MESSAGE \<longrightarrow> length (payloadData e) \<le> limit \<and>
      (ev_opCode e = TEXT \<longrightarrow> isValidUtf8 cpu (payloadData e))) \<and>
    length (fragmentBuffer (sock y)) \<le> limit + 125"
proof -
  have "within Z cpu limit ((sock (newSession Z negotiated bits limit context mask0 header0))\<lparr>events := []\<rparr>)"
    using assms(5) by (auto simp: newSession_def newStreamWebSocket_def within_def Let_def)
  from reads_within [OF assms(1,2) newSession_ok [OF assms(3,4)] this assms(6,7)]
  show ?thesis by (auto simp: within_def list_all_iff delivered_ok_def)
qed

end
