(* ===== verification/Session_Delivery.thy ===== *)
theory Session_Delivery
  imports Session_Safety "HOL-Library.Code_Target_Nat"
begin

text \<open>
  What a connection does with what a client sends: a message, in any fragments with pings between them
  and in any reads, is delivered whole; the closing handshake; what still happens after our close frame.
\<close>

section \<open>A client\<close>

text \<open>The frame a client sends, with its masking key \<open>m\<close>.\<close>

definition clientFrame :: "bool \<Rightarrow> OpCode \<Rightarrow> byte list \<Rightarrow> byte list \<Rightarrow> byte list" where
  "clientFrame fin opc m p =
     (let n = length p
      in [(if fin then 128 else 0) OR opc] @
         (if n < 126 then [128 OR of_nat n]
          else if n \<le> 65535 then (128 OR 126) # bytesUint16BE (of_nat n)
          else (128 OR 127) # bytesUint64BE (of_nat n)) @ m @ xor_from 0 m p)"

lemma client_first_byte:
  "opc \<in> OpCodes \<Longrightarrow> isFin (((if fin then 128 else 0) OR opc) # bs) = fin"
  "opc \<in> OpCodes \<Longrightarrow> \<not> rsv1 (((if fin then 128 else 0) OR opc) # bs)"
  "opc \<in> OpCodes \<Longrightarrow> \<not> rsv23 (((if fin then 128 else 0) OR opc) # bs)"
  "opc \<in> OpCodes \<Longrightarrow> getOpCode (((if fin then 128 else 0) OR opc) # bs) = opc"
  by (auto simp: OpCodes_def isFin_def rsv1_def rsv23_def getOpCode_def)

lemma client_second_byte:
  assumes "n < 128"
  shows "isMasked (b # (128 OR of_nat n) # bs)" "payloadLength (b # (128 OR of_nat n) # bs) = n"
proof -
  have "(128 :: byte) OR of_nat n = of_nat (128 + n)"
  proof -
    have "(128 :: byte) AND of_nat n = 0" using second_byte_and(1) [OF assms] by (simp add: and.commute)
    then have "(128 :: byte) OR of_nat n = 128 + of_nat n" by (simp add: disjunctive_add_eq_or)
    then show ?thesis by simp
  qed
  then have "unat ((128 :: byte) OR of_nat n) = (128 + n) mod 256" by (simp only: unat_of_nat) simp
  then have u: "unat ((128 :: byte) OR of_nat n) = 128 + n" using assms by simp
  show "payloadLength (b # (128 OR of_nat n) # bs) = n"
    using assms by (simp add: payloadLength_def unat_and_shifted_mask [of "127" 0 7] u)
  show "isMasked (b # (128 OR of_nat n) # bs)"
    using byte_ranges(1) [of "128 OR of_nat n"] u by (simp add: isMasked_def)
qed

definition clientHeader :: "nat \<Rightarrow> nat" where
  "clientHeader n = (if n < 126 then SHORT_MESSAGE_HEADER else if n \<le> 65535 then MEDIUM_MESSAGE_HEADER
     else LONG_MESSAGE_HEADER)"

lemma clientFrame_fields:
  fixes rest fin
  assumes "opc \<in> OpCodes" "length m = 4" "length p < 2 ^ 63"
  defines "w \<equiv> clientFrame fin opc m p @ rest"
  shows "isFin w = fin" "\<not> rsv1 w" "\<not> rsv23 w" "getOpCode w = opc" "isMasked w"
    "announced w = Some (length p, clientHeader (length p))" "maskAt w (clientHeader (length p)) = m"
    "drop (clientHeader (length p)) w = xor_from 0 m p @ rest" "\<not> incomplete w"
    "payloadLength w \<le> 125 \<longleftrightarrow> length p \<le> 125"
proof -
  define n where "n = length p"
  consider (short) "n < 126" | (medium) "126 \<le> n" "n \<le> 65535" | (long) "65535 < n" by arith
  then have "isFin w = fin \<and> \<not> rsv1 w \<and> \<not> rsv23 w \<and> getOpCode w = opc \<and> isMasked w \<and>
    announced w = Some (n, clientHeader n) \<and> maskAt w (clientHeader n) = m \<and>
    drop (clientHeader n) w = xor_from 0 m p @ rest \<and> \<not> incomplete w \<and> (payloadLength w \<le> 125 \<longleftrightarrow> n \<le> 125)"
  proof cases
    case short
    then show ?thesis
      using assms(1,2) client_second_byte [of n]
      by (simp add: w_def clientFrame_def Let_def client_first_byte announced_def clientHeader_def maskAt_def
          window_def incomplete_def headerLengthOf_def header_sizes drop_Cons' flip: n_def)
  next
    case medium
    then show ?thesis
      using assms(1,2) client_second_byte [of 126]
      by (simp add: w_def clientFrame_def Let_def client_first_byte announced_def clientHeader_def maskAt_def
          window_def incomplete_def headerLengthOf_def header_sizes drop_Cons' unat_of_nat flip: n_def)
  next
    case long
    then show ?thesis
      using assms client_second_byte [of 127]
      by (simp add: w_def clientFrame_def Let_def client_first_byte announced_def clientHeader_def maskAt_def
          window_def incomplete_def headerLengthOf_def header_sizes drop_Cons' unat_of_nat flip: n_def)
  qed
  then show "isFin w = fin" "\<not> rsv1 w" "\<not> rsv23 w" "getOpCode w = opc" "isMasked w"
    "announced w = Some (length p, clientHeader (length p))" "maskAt w (clientHeader (length p)) = m"
    "drop (clientHeader (length p)) w = xor_from 0 m p @ rest" "\<not> incomplete w"
    "payloadLength w \<le> 125 \<longleftrightarrow> length p \<le> 125"
    by (simp_all add: n_def)
qed

lemma feedHead_clientFrame:
  fixes opc frag stack fin p
  defines "stack' \<equiv> (if opc \<noteq> NONE then opc # stack else stack)"
    and "frag' \<equiv> (if isData opc then \<not> fin else if opc = NONE \<and> fin then False else frag)"
    and "h \<equiv> clientHeader (length p)"
  assumes op: "opc \<in> OpCodes" and m: "length m = 4" and n: "length p < 2 ^ 63"
    and ctl: "opc \<le> BINARY \<or> (fin \<and> length p \<le> 125)"
    and all: "allowed opc frag stack"
    and r: "opc \<le> BINARY \<Longrightarrow> refusePayloadLength hooks (length p) u = (False, u)"
    and hf: "handleFragment hooks (pos + h - 4) p 0 (hd stack') fin u = (stop, u')"
  shows "feedHead hooks pos frag stack u (clientFrame fin opc m p @ rest) =
     (if stop then Stopped u'
      else feedHead hooks (pos + (length p + h)) frag' (if fin then tl stack' else stack') u' rest)"
proof -
  define w where "w = clientFrame fin opc m p @ rest"
  note f = clientFrame_fields [OF op m n, of fin rest, folded h_def w_def]
  have small: "\<not> (2 < opc \<and> opc < 8)" "\<not> 10 < opc" using op by (auto simp: OpCodes_def)
  have big: "2 < opc \<Longrightarrow> \<not> opc \<le> BINARY" by (auto simp: word_le_nat_alt word_less_nat_alt)
  have "\<not> badHeader w" using f small big ctl by (auto simp: badHeader_def)
  then have o: "openFrame hooks w frag stack u = (Some (length p, h, frag', stack'), u)"
    using f all r by (simp add: openFrame_def claimCompression_def Let_def stack'_def frag'_def)
  have ln: "length p \<le> length w - h"
    using arg_cong [OF f(8), of length] by (simp only: length_append length_drop length_xor_from)
  have "feedStep hooks pos frag stack u w =
     (if stop then Done (Stopped u')
      else More (pos + (length p + h)) frag' (if fin then tl stack' else stack') u' rest)"
    using f hf ln by (simp add: feedStep_def o afterHeader_def Let_def)
  then show ?thesis by (simp add: feedHead_run [of _ _ _ _ _ w] flip: w_def)
qed

section \<open>Pings\<close>

definition clientPing :: "byte list \<times> byte list \<Rightarrow> byte list" where
  "clientPing mp = clientFrame True PING (fst mp) (snd mp)"

definition small_pings :: "(byte list \<times> byte list) list \<Rightarrow> bool" where
  "small_pings pings \<longleftrightarrow> (\<forall>(m, p) \<in> set pings. length m = 4 \<and> length p \<le> 125)"

definition pong :: "byte list \<times> byte list \<Rightarrow> StreamWebSocketEvent" where
  "pong mp = \<lparr>ev_type = FRAME, ev_data = formatFrame (snd mp) PONG False, ev_opCode = NONE, ev_code = 0, view = None\<rparr>"

lemma feedHead_ping:
  assumes "length m = 4" "length p \<le> 125" "length stack < 2" "\<not> closing u" "controlTipLength u = 0"
  shows "feedHead (protocolHooks cpu Z reg) pos frag stack u (clientPing (m, p) @ rest) =
    feedHead (protocolHooks cpu Z reg) (pos + (length p + clientHeader (length p))) frag stack
      (emitFrame (formatFrame p PONG False) u) rest"
proof -
  have "sw_handleFragment cpu Z reg q p 0 PING True u = (False, emitFrame (formatFrame p PONG False) u)" for q
    using assms by (simp add: sw_handleFragment_def controlFragment_def controlFrame_def)
  with feedHead_clientFrame [of PING m p True frag stack "protocolHooks cpu Z reg" u pos False] assms
  show ?thesis by (simp add: clientPing_def OpCodes_def allowed_def isData_def)
qed

lemma feedHead_pings:
  assumes "small_pings pings" "length stack < 2" "\<not> closing u" "controlTipLength u = 0"
  shows "\<exists>pos'. feedHead (protocolHooks cpu Z reg) pos frag stack u (concat (map clientPing pings) @ rest) =
    feedHead (protocolHooks cpu Z reg) pos' frag stack (u\<lparr>events := events u @ map pong pings\<rparr>) rest"
  using assms
proof (induction pings arbitrary: pos u)
  case Nil
  then show ?case by auto
next
  case (Cons mp pings)
  obtain m p where mp: "mp = (m, p)" by (cases mp)
  let ?u = "emitFrame (formatFrame p PONG False) u"
  have "length m = 4" "length p \<le> 125" "small_pings pings" using Cons.prems(1) by (auto simp: small_pings_def mp)
  with Cons.prems feedHead_ping [of m p stack u cpu Z reg pos frag "concat (map clientPing pings) @ rest"]
    Cons.IH [of ?u "pos + (length p + clientHeader (length p))"]
  obtain pos' where "feedHead (protocolHooks cpu Z reg) pos frag stack u (concat (map clientPing (mp # pings)) @ rest) =
      feedHead (protocolHooks cpu Z reg) pos' frag stack (?u\<lparr>events := events ?u @ map pong pings\<rparr>) rest"
    by (auto simp: mp)
  moreover have "?u\<lparr>events := events ?u @ map pong pings\<rparr> = u\<lparr>events := events u @ map pong (mp # pings)\<rparr>"
    by (simp add: emitFrame_def pong_def mp)
  ultimately show ?case by metis
qed

section \<open>A message\<close>

text \<open>
  The bytes of a message: fragments, each with its masking key and followed by pings, and the final
  fragment.
\<close>

type_synonym fragment = "byte list \<times> byte list \<times> (byte list \<times> byte list) list"

fun wire :: "OpCode \<Rightarrow> fragment list \<Rightarrow> byte list \<Rightarrow> byte list \<Rightarrow> byte list" where
  "wire opc [] m p = clientFrame True opc m p"
| "wire opc ((m1, p1, pings) # fs) m p =
     clientFrame False opc m1 p1 @ concat (map clientPing pings) @ wire NONE fs m p"

definition carried :: "fragment list \<Rightarrow> byte list" where
  "carried fs = concat (map (\<lambda>(m, p, pings). p) fs)"

definition pongs :: "fragment list \<Rightarrow> StreamWebSocketEvent list" where
  "pongs fs = concat (map (\<lambda>(m, p, pings). map pong pings) fs)"

definition fragments_ok :: "fragment list \<Rightarrow> bool" where
  "fragments_ok fs \<longleftrightarrow> (\<forall>(m, p, pings) \<in> set fs. length m = 4 \<and> small_pings pings)"

definition fitting :: "'z StreamWebSocket \<Rightarrow> nat \<Rightarrow> bool" where
  "fitting u n \<longleftrightarrow> (maxPayload u \<noteq> 0 \<longrightarrow> n \<le> maxPayload u) \<and> n \<le> UINT_MAX"

text \<open>A socket that listens: open, no compressed message begun, no control frame half received.\<close>

definition listening :: "'z StreamWebSocket \<Rightarrow> bool" where
  "listening u \<longleftrightarrow> \<not> closing u \<and> \<not> closeSent u \<and> compressionStatus u \<noteq> COMPRESSED_FRAME \<and> controlTipLength u = 0"

lemma feedHead_fragment:
  assumes "listening u" "length m = 4" "fitting u (length (fragmentBuffer u) + length p)"
    "opc \<in> {NONE, TEXT, BINARY}" "if opc = NONE then frag \<and> length stack = 1 \<and> isData (hd stack) else \<not> frag \<and> stack = []"
  shows "feedHead (protocolHooks cpu Z reg) pos frag stack u (clientFrame False opc m p @ rest) =
    feedHead (protocolHooks cpu Z reg) (pos + (length p + clientHeader (length p))) True (if opc = NONE then stack else [opc])
      (u\<lparr>fragmentBuffer := fragmentBuffer u @ p\<rparr>) rest"
proof -
  let ?stack = "if opc \<noteq> NONE then opc # stack else stack"
  have top: "hd ?stack < 3" "hd ?stack \<noteq> NONE" using assms(4,5) by (auto simp: isData_def split: if_splits)
  have app: "appendFragment cpu p 0 u = (True, u\<lparr>fragmentBuffer := fragmentBuffer u @ p\<rparr>)"
    using assms(3) by (intro append_within) (auto simp: fitting_def)
  have "sw_handleFragment cpu Z reg q p 0 (hd ?stack) False u = (False, u\<lparr>fragmentBuffer := fragmentBuffer u @ p\<rparr>)" for q
    using assms(1) top app by (simp add: sw_handleFragment_def dataFragment_def listening_def)
  moreover have "sw_refusePayloadLength (length p) u = (False, u)"
    using assms(3) by (auto simp: sw_refusePayloadLength_def fitting_def)
  moreover have "length p < 2 ^ 63" using assms(3) by (simp add: fitting_def UINT_MAX_def)
  moreover have "allowed opc frag stack" using assms(5) by (auto simp: allowed_def isData_def split: if_splits)
  moreover have "isData opc \<longleftrightarrow> opc \<noteq> NONE" "opc \<in> OpCodes" "opc \<le> BINARY"
    using assms(4) by (auto simp: isData_def OpCodes_def)
  ultimately show ?thesis
    using feedHead_clientFrame [of opc m p False frag stack "protocolHooks cpu Z reg" u pos False
        "u\<lparr>fragmentBuffer := fragmentBuffer u @ p\<rparr>" rest] assms(2,5)
    by (cases "opc = NONE") simp_all
qed

lemma feedHead_final:
  assumes u: "listening u" and m: "length m = 4" and fit: "fitting u (length (fragmentBuffer u) + length p)"
    and op: "opc \<in> {NONE, TEXT, BINARY}" and st: "if opc = NONE then frag \<and> stack = [kind] \<and> isData kind else \<not> frag \<and> stack = [] \<and> kind = opc"
    and utf: "kind = TEXT \<longrightarrow> isValidUtf8 cpu (fragmentBuffer u @ p)"
  shows "\<exists>u'. feedHead (protocolHooks cpu Z reg) pos frag stack u (clientFrame True opc m p) = Running (Head []) False [] u' \<and>
    canon u' = canon (emitMessage kind (fragmentBuffer u @ p) None (u\<lparr>fragmentBuffer := []\<rparr>))"
proof -
  let ?all = "fragmentBuffer u @ p"
  let ?stack = "if opc \<noteq> NONE then opc # stack else stack"
  have kind: "kind < 3" "kind \<noteq> NONE" "hd ?stack = kind" "tl ?stack = []"
    using op st by (auto simp: isData_def split: if_splits)
  have "compressionStatus u \<noteq> COMPRESSED_FRAME" using u by (simp add: listening_def)
  then have d: "decodeMessage cpu Z dat kind v = (Some (dat, False), v)"
    if "kind = TEXT \<longrightarrow> isValidUtf8 cpu dat" "compressionStatus v = compressionStatus u" for dat and v :: "'a StreamWebSocket"
    using that by (simp add: decodeMessage_def)
  have app: "appendFragment cpu p 0 u = (True, u\<lparr>fragmentBuffer := ?all\<rparr>)"
    using fit by (intro append_within) (auto simp: fitting_def)
  have h: "\<exists>u'. sw_handleFragment cpu Z reg q p 0 (hd ?stack) True u = (False, u') \<and>
      canon u' = canon (emitMessage kind ?all None (u\<lparr>fragmentBuffer := []\<rparr>))" for q
  proof (cases "fragmentBuffer u = []")
    case True
    then have "u\<lparr>fragmentBuffer := []\<rparr> = u" by simp
    note e = this
    show ?thesis unfolding e
      using True u kind utf d [of p u] canon_emitMessage [of p "[]" kind "Some ((reg, q), p)" u]
      by (simp add: sw_handleFragment_def dataFragment_def listening_def)
  next
    case False
    have "(emitMessage kind ?all None (u\<lparr>fragmentBuffer := ?all\<rparr>))\<lparr>fragmentBuffer := []\<rparr> =
        emitMessage kind ?all None (u\<lparr>fragmentBuffer := []\<rparr>)"
      by (simp add: emitMessage_def)
    with False show ?thesis
      using u kind utf app d [of ?all "u\<lparr>fragmentBuffer := ?all\<rparr>"]
      by (simp add: sw_handleFragment_def dataFragment_def listening_def)
  qed
  obtain u' where u': "sw_handleFragment cpu Z reg (pos + clientHeader (length p) - 4) p 0 (hd ?stack) True u = (False, u')"
      "canon u' = canon (emitMessage kind ?all None (u\<lparr>fragmentBuffer := []\<rparr>))"
    using h by blast
  have "sw_refusePayloadLength (length p) u = (False, u)"
    using fit by (auto simp: sw_refusePayloadLength_def fitting_def)
  moreover have "length p < 2 ^ 63" using fit by (simp add: fitting_def UINT_MAX_def)
  moreover have "allowed opc frag stack" using st by (auto simp: allowed_def isData_def split: if_splits)
  moreover have "isData opc \<longleftrightarrow> opc \<noteq> NONE" "opc \<in> OpCodes" "opc \<le> BINARY"
    using op by (auto simp: isData_def OpCodes_def)
  ultimately have "feedHead (protocolHooks cpu Z reg) pos frag stack u (clientFrame True opc m p @ []) = Running (Head []) False [] u'"
    using feedHead_clientFrame [of opc m p True frag stack "protocolHooks cpu Z reg" u pos False u' "[]"] m u'(1) kind(4)
    by (cases "opc = NONE") (simp_all add: feedHead_Nil)
  then show ?thesis using u'(2) by auto
qed

lemma feedHead_wire:
  assumes "listening u" "fragments_ok fs" "length m = 4"
    "fitting u (length (fragmentBuffer u @ carried fs @ p))" "opc \<in> {NONE, TEXT, BINARY}"
    "if opc = NONE then frag \<and> stack = [kind] \<and> isData kind else \<not> frag \<and> stack = [] \<and> kind = opc"
    "kind = TEXT \<longrightarrow> isValidUtf8 cpu (fragmentBuffer u @ carried fs @ p)"
  shows "\<exists>u'. feedHead (protocolHooks cpu Z reg) pos frag stack u (wire opc fs m p) = Running (Head []) False [] u' \<and>
    canon u' = canon (emitMessage kind (fragmentBuffer u @ carried fs @ p) None
      (u\<lparr>fragmentBuffer := [], events := events u @ pongs fs\<rparr>))"
  using assms
proof (induction fs arbitrary: opc pos frag stack u)
  case Nil
  have "u\<lparr>fragmentBuffer := [], events := events u\<rparr> = u\<lparr>fragmentBuffer := []\<rparr>" by simp
  then show ?case
    using feedHead_final [of u m p opc frag stack kind cpu Z reg pos] Nil by (simp add: carried_def pongs_def)
next
  case (Cons f fs)
  obtain m1 p1 pings where f: "f = (m1, p1, pings)" by (cases f)
  let ?u1 = "u\<lparr>fragmentBuffer := fragmentBuffer u @ p1\<rparr>"
  let ?u2 = "?u1\<lparr>events := events ?u1 @ map pong pings\<rparr>"
  have ok: "length m1 = 4" "small_pings pings" "fragments_ok fs" using Cons.prems(2) by (auto simp: fragments_ok_def f)
  have c: "carried (f # fs) = p1 @ carried fs" "pongs (f # fs) = map pong pings @ pongs fs"
    by (simp_all add: carried_def pongs_def f)
  have fit1: "fitting u (length (fragmentBuffer u) + length p1)" using Cons.prems(4) by (auto simp: fitting_def c)
  have stk: "(if opc = NONE then stack else [opc]) = [kind]" using Cons.prems(6) by (auto split: if_splits)
  have kd: "isData kind" using Cons.prems(5,6) by (auto simp: isData_def split: if_splits)
  have st: "if opc = NONE then frag \<and> length stack = 1 \<and> isData (hd stack) else \<not> frag \<and> stack = []"
    using Cons.prems(6) by (auto split: if_splits)
  from feedHead_fragment [OF Cons.prems(1) ok(1) fit1 Cons.prems(5) st,
      of cpu Z reg pos "concat (map clientPing pings) @ wire NONE fs m p"]
  have s1: "feedHead (protocolHooks cpu Z reg) pos frag stack u (wire opc (f # fs) m p) =
      feedHead (protocolHooks cpu Z reg) (pos + (length p1 + clientHeader (length p1))) True [kind] ?u1
        (concat (map clientPing pings) @ wire NONE fs m p)"
    by (simp add: f stk)
  obtain pos' where s2: "feedHead (protocolHooks cpu Z reg) (pos + (length p1 + clientHeader (length p1))) True [kind] ?u1
        (concat (map clientPing pings) @ wire NONE fs m p) = feedHead (protocolHooks cpu Z reg) pos' True [kind] ?u2 (wire NONE fs m p)"
    using feedHead_pings [OF ok(2), of "[kind]" ?u1] Cons.prems(1) by (fastforce simp: listening_def)
  have "listening ?u2" using Cons.prems(1) by (simp add: listening_def)
  moreover have "fitting ?u2 (length (fragmentBuffer ?u2 @ carried fs @ p))"
    using Cons.prems(4) by (simp add: fitting_def c)
  moreover have "kind = TEXT \<longrightarrow> isValidUtf8 cpu (fragmentBuffer ?u2 @ carried fs @ p)"
    using Cons.prems(7) by (simp add: c)
  ultimately obtain u' where
    "feedHead (protocolHooks cpu Z reg) pos' True [kind] ?u2 (wire NONE fs m p) = Running (Head []) False [] u'"
    "canon u' = canon (emitMessage kind (fragmentBuffer ?u2 @ carried fs @ p) None
      (?u2\<lparr>fragmentBuffer := [], events := events ?u2 @ pongs fs\<rparr>))"
    using Cons.IH [of ?u2 NONE True "[kind]" pos'] ok Cons.prems(3) kd by auto
  then show ?case by (simp add: s1 s2 c)
qed

text \<open>A session between two messages.\<close>

definition at_rest :: "'z Session \<Rightarrow> bool" where
  "at_rest x \<longleftrightarrow> session_ok x \<and> listening (sock x) \<and> fragmentBuffer (sock x) = [] \<and>
     wantsHead (base x) \<and> spillLength (base x) = 0 \<and> \<not> fragmentedMessage (base x) \<and> opStack (base x) = -1"

lemma at_rest_parser: "at_rest x \<Longrightarrow> parserOf x = Running (Head []) False [] (sock x)"
  by (simp add: at_rest_def parserOf_def phaseOf_def stackOf_def listening_def)

lemma newSession_at_rest:
  "length mask0 = 4 \<Longrightarrow> length header0 = CONSUME_PRE_PADDING + LONG_MESSAGE_HEADER \<Longrightarrow>
   at_rest (newSession Z negotiated bits limit ctx mask0 header0)"
  using newSession_ok [of mask0 header0 Z negotiated bits limit ctx]
  by (simp add: at_rest_def listening_def newSession_def newStreamWebSocket_def newWebSocketState_def Let_def)

lemma at_rest_of_parser:
  assumes "session_ok y" "stream.same_parser (Running (Head []) False [] v) (earlier es (parserOf (releaseEvents y)))"
    "listening v" "fragmentBuffer v = []"
  shows "at_rest y"
proof -
  let ?y = "sock (releaseEvents y)"
  from assms(2) have y: "\<not> closing (sock y)" "phaseOf (base y) = Head []" "\<not> fragmentedMessage (base y)" "stackOf (base y) = []"
     "canon v = canon (addEvents es ?y)"
    by (auto simp: parserOf_def split: if_splits)
  have "shapes (base y)" using assms(1) y(1) by (simp add: session_ok_def represents_def)
  with y(2,4) session_spill [OF assms(1) y(1)] stackOf_simps(1) [of "base y"]
  have "wantsHead (base y)" "spillLength (base y) = 0" "opStack (base y) = -1"
    by (auto simp: phaseOf_def split: if_splits)
  moreover have "listening ?y" "fragmentBuffer ?y = []"
    using canon_alive_fields [OF _ y(5)] assms(3,4) by (simp_all add: listening_def alive_def)
  ultimately show ?thesis using assms(1) y by (simp add: at_rest_def listening_def releaseEvents_def)
qed

text \<open>
  C1: a text or binary message within the limits, sent in any number of fragments with pings between
  them, is delivered as one message with its bytes after a pong for each ping, however the network cuts
  the bytes into reads; and the session is again ready for a message.
\<close>

theorem message_delivery:
  assumes "at_rest x" "opc = TEXT \<or> opc = BINARY" "fragments_ok fs" "length m = 4"
    "fitting (sock x) (length (carried fs @ p))" "opc = TEXT \<longrightarrow> isValidUtf8 cpu (carried fs @ p)"
    "concat chunks = wire opc fs m p" "\<forall>c \<in> set chunks. length c \<le> UINT_MAX"
    "reads cpu Z chunks x = (y, es)"
  shows "es = pongs fs @ [\<lparr>ev_type = MESSAGE, ev_data = carried fs @ p, ev_opCode = opc, ev_code = 0, view = None\<rparr>] \<and> at_rest y"
proof -
  let ?x = "releaseEvents x"
  have rest: "at_rest ?x" using assms(1) by (simp add: at_rest_def releaseEvents_ok listening_def) (simp add: releaseEvents_def)
  then have u: "listening (sock ?x)" "fragmentBuffer (sock ?x) = []" by (simp_all add: at_rest_def)
  have ne: "wire opc fs m p \<noteq> []" by (cases fs) (auto simp: clientFrame_def Let_def)
  have "sock ?x = (sock x)\<lparr>events := []\<rparr>" by (simp add: releaseEvents_def)
  then have fit: "fitting (sock ?x) (length (fragmentBuffer (sock ?x) @ carried fs @ p))"
    using assms(5) u by (simp add: fitting_def)
  obtain v where v: "feedHead (protocolHooks cpu Z InputBuffer) 0 False [] (sock ?x) (wire opc fs m p) = Running (Head []) False [] v"
    "canon v = canon (emitMessage opc (carried fs @ p) None ((sock ?x)\<lparr>fragmentBuffer := [], events := events (sock ?x) @ pongs fs\<rparr>))"
    using feedHead_wire [OF u(1) assms(3,4) fit, of opc False "[]" opc cpu Z InputBuffer 0] assms(2,6) u by auto
  have "fed cpu Z (parserOf ?x) (concat chunks) = Running (Head []) False [] v"
    using v(1) ne by (simp add: fed_def assms(7) at_rest_parser [OF rest])
  with reads_fed [OF _ assms(8,9)] assms(1)
  have s: "session_ok y" "stream.same_parser (Running (Head []) False [] v) (earlier es (parserOf (releaseEvents y)))"
    by (simp_all add: at_rest_def)
  then have y: "\<not> closing (sock y)" "phaseOf (base y) = Head []" "\<not> fragmentedMessage (base y)" "stackOf (base y) = []"
     "canon v = canon (addEvents es (sock (releaseEvents y)))"
    by (auto simp: parserOf_def split: if_splits)
  have ev: "events (canon w) = map erase (events w)" for w :: "'a StreamWebSocket" by (simp add: canon_def Let_def)
  have "map erase es = map erase (pongs fs @ [\<lparr>ev_type = MESSAGE, ev_data = carried fs @ p, ev_opCode = opc, ev_code = 0, view = None\<rparr>])"
    using arg_cong [OF trans [OF v(2) [symmetric] y(5)], of events] by (simp add: ev emitMessage_def)
  moreover have "map erase es = es" using reads_erased [of cpu Z chunks x] assms(9) by simp
  moreover have "map erase (pongs fs) = pongs fs"
    by (auto simp: pongs_def pong_def erase_def map_concat comp_def intro!: arg_cong [where f = concat])
  moreover have "at_rest y"
  proof (rule at_rest_of_parser [OF s])
    have "listening (emitMessage opc (carried fs @ p) None ((sock ?x)\<lparr>fragmentBuffer := [], events := events (sock ?x) @ pongs fs\<rparr>))"
      using u(1) by (simp add: listening_def emitMessage_def)
    then show "listening v" "fragmentBuffer v = []"
      using canon_alive_fields [OF _ v(2) [symmetric]] by (simp_all add: listening_def alive_def emitMessage_def)
  qed
  ultimately show ?thesis by (simp add: erase_def)
qed

section \<open>The closing handshake\<close>

text \<open>Between two frames, perhaps inside a fragmented message.\<close>

definition at_boundary :: "'z Session \<Rightarrow> bool" where
  "at_boundary x \<longleftrightarrow> session_ok x \<and> \<not> closing (sock x) \<and> wantsHead (base x) \<and> spillLength (base x) = 0"

lemma at_boundary_parser:
  assumes "at_boundary x"
  shows "parserOf x = Running (Head []) (fragmentedMessage (base x)) (stackOf (base x)) (sock x)"
    "length (stackOf (base x)) < 2" "controlTipLength (sock x) = 0"
proof -
  show p: "parserOf x = Running (Head []) (fragmentedMessage (base x)) (stackOf (base x)) (sock x)"
    using assms by (simp add: at_boundary_def parserOf_def phaseOf_def)
  show "length (stackOf (base x)) < 2" "controlTipLength (sock x) = 0"
    using session_parser_ok [of x] assms p
    by (auto simp: at_boundary_def stream.parser_ok_def stack_ok_def idle_def split: if_splits)
qed

lemma feedHead_close:
  assumes "\<not> closing u" "controlTipLength u = 0" "length stack < 2" "length m = 4" "length p \<le> 125"
    "cf_code (parseClosePayload cpu p) \<noteq> 1006"
  shows "\<exists>u'. feedHead (protocolHooks cpu Z reg) pos frag stack u (clientFrame True CLOSE m p) = Stopped u' \<and>
    events u' = events u @ (let cf = parseClosePayload cpu p in (if closeSent u then []
             else [\<lparr>ev_type = FRAME, ev_data = formatClose cpu (cf_code cf) (Some (cf_message cf)),
                    ev_opCode = NONE, ev_code = 0, view = None\<rparr>]) @
        [\<lparr>ev_type = CLOSED, ev_data = cf_message cf, ev_opCode = NONE, ev_code = cf_code cf, view = None\<rparr>])"
proof -
  obtain u' where u': "sw_handleFragment cpu Z reg (pos + clientHeader (length p) - 4) p 0 CLOSE True u = (True, u')"
    "events u' = events u @ (let cf = parseClosePayload cpu p in (if closeSent u then []
             else [\<lparr>ev_type = FRAME, ev_data = formatClose cpu (cf_code cf) (Some (cf_message cf)),
                    ev_opCode = NONE, ev_code = 0, view = None\<rparr>]) @
        [\<lparr>ev_type = CLOSED, ev_data = cf_message cf, ev_opCode = NONE, ev_code = cf_code cf, view = None\<rparr>])"
    using assms by (simp add: sw_handleFragment_def controlFragment_def controlFrame_def Let_def emitClose_def emitFrame_def)
  with feedHead_clientFrame [of CLOSE m p True frag stack "protocolHooks cpu Z reg" u pos True u' "[]"] assms show ?thesis
    by (simp add: OpCodes_def allowed_def isData_def)
qed

text \<open>What the reads deliver when the parser stops.\<close>

lemma reads_stopped:
  assumes "session_ok x" "\<forall>c \<in> set chunks. length c \<le> UINT_MAX" "reads cpu Z chunks x = (y, es)"
    "fed cpu Z (parserOf (releaseEvents x)) (concat chunks) = Stopped u"
  shows "es = map erase (events u)" "closing (sock y)"
proof -
  have s: "stream.same_parser (Stopped u) (earlier es (parserOf (releaseEvents y)))"
    using reads_fed [OF assms(1-3)] assms(4) by simp
  then show "closing (sock y)" by (auto simp: parserOf_def split: if_splits)
  from s have c: "canon u = canon (addEvents es (sock (releaseEvents y)))" by (auto simp: parserOf_def split: if_splits)
  have ev: "events (canon w) = map erase (events w)" for w :: "'a StreamWebSocket" by (simp add: canon_def Let_def)
  have "map erase es = map erase (events u)" using arg_cong [OF c, of events] by (simp add: ev)
  with reads_erased [of cpu Z chunks x] assms(3) show "es = map erase (events u)" by simp
qed

text \<open>
  C21: a close frame with a payload the parser accepts, between any two frames, is answered by a close
  frame that echoes it, unless one was already sent; the closure is delivered with its code and reason, and
  the socket is closed.
\<close>

theorem close_handshake:
  assumes "at_boundary x" "length m = 4" "length p \<le> 125" "cf_code (parseClosePayload cpu p) \<noteq> 1006"
    "concat chunks = clientFrame True CLOSE m p" "\<forall>c \<in> set chunks. length c \<le> UINT_MAX"
    "reads cpu Z chunks x = (y, es)"
  shows "(let cf = parseClosePayload cpu p
    in es = (if closeSent (sock x) then []
             else [\<lparr>ev_type = FRAME, ev_data = formatClose cpu (cf_code cf) (Some (cf_message cf)),
                    ev_opCode = NONE, ev_code = 0, view = None\<rparr>]) @
        [\<lparr>ev_type = CLOSED, ev_data = cf_message cf, ev_opCode = NONE, ev_code = cf_code cf, view = None\<rparr>]) \<and>
    closing (sock y)"
proof -
  let ?x = "releaseEvents x"
  have b: "at_boundary ?x" using assms(1) by (simp add: at_boundary_def releaseEvents_ok)
  note bp = at_boundary_parser [OF b]
  have x: "events (sock ?x) = []" "closeSent (sock ?x) = closeSent (sock x)" "\<not> closing (sock ?x)"
    using b by (simp_all add: releaseEvents_def at_boundary_def)
  obtain u where u: "feedHead (protocolHooks cpu Z InputBuffer) 0 (fragmentedMessage (base ?x)) (stackOf (base ?x)) (sock ?x)
      (clientFrame True CLOSE m p) = Stopped u"
    "events u = (let cf = parseClosePayload cpu p in (if closeSent (sock x) then []
             else [\<lparr>ev_type = FRAME, ev_data = formatClose cpu (cf_code cf) (Some (cf_message cf)),
                    ev_opCode = NONE, ev_code = 0, view = None\<rparr>]) @
        [\<lparr>ev_type = CLOSED, ev_data = cf_message cf, ev_opCode = NONE, ev_code = cf_code cf, view = None\<rparr>])"
    using feedHead_close [OF x(3) bp(3,2) assms(2-4), of Z InputBuffer 0 "fragmentedMessage (base ?x)"] x by auto
  have "clientFrame True CLOSE m p \<noteq> []" by (simp add: clientFrame_def Let_def)
  then have "fed cpu Z (parserOf ?x) (concat chunks) = Stopped u"
    using u(1) by (simp add: fed_def assms(5) bp(1))
  from reads_stopped [OF _ assms(6,7) this] assms(1) u(2) show ?thesis
    by (simp add: at_boundary_def Let_def erase_def)
qed

section \<open>After our close frame\<close>

definition winding_down :: "'z StreamWebSocket \<Rightarrow> bool" where
  "winding_down s \<longleftrightarrow> closeSent s \<and>
     list_all (\<lambda>e. ev_type e \<noteq> MESSAGE \<and> (ev_type e = FRAME \<longrightarrow> (\<exists>p. payloadData e = formatFrame p PONG False))) (events s)"

lemma winding_fail: "winding_down s \<Longrightarrow> winding_down (fail cpu code s)"
  by (auto simp: winding_down_def fail_def Let_def emitClose_def)

lemma winding_failWith: "winding_down s \<Longrightarrow> winding_down (failWith cpu code s)"
  using winding_fail [of "s\<lparr>failureCode := code\<rparr>"] by (simp add: failWith_def Let_def) (simp add: winding_down_def)

lemma winding_control: "winding_down s \<Longrightarrow> controlFrame cpu dat opc s = (b, s') \<Longrightarrow> winding_down s'"
  by (auto simp: controlFrame_def Let_def winding_failWith split: if_splits)
    (auto simp: winding_down_def emitClose_def emitFrame_def)

lemma controlFragment_keeps:
  assumes buf: "\<And>u x t. P (u\<lparr>fragmentBuffer := x, controlTipLength := t\<rparr>) = P u"
    and step: "\<And>s dat b s'. P s \<Longrightarrow> controlFrame cpu dat opc s = (b, s') \<Longrightarrow> P s'"
    and s: "P s" "controlFragment cpu dat r opc fin s = (b, s')"
  shows "P s'"
proof -
  let ?s = "s\<lparr>fragmentBuffer := fragmentBuffer s @ dat, controlTipLength := (controlTipLength s + length dat mod 256) mod 256\<rparr>"
  have Ps: "P ?s" using s(1) buf by simp
  obtain c v where v: "controlFrame cpu (drop (length (fragmentBuffer ?s) - controlTipLength ?s) (fragmentBuffer ?s)) opc ?s = (c, v)"
    by (cases "controlFrame cpu (drop (length (fragmentBuffer ?s) - controlTipLength ?s) (fragmentBuffer ?s)) opc ?s")
  from step [OF Ps v] have "P v" .
  consider (whole) "r = 0 \<and> fin \<and> controlTipLength s = 0" | (last) "r = 0 \<and> fin" "controlTipLength s \<noteq> 0" | (part) "\<not> (r = 0 \<and> fin)"
    by blast
  then show ?thesis
  proof cases
    case whole
    with s(2) step [OF s(1)] show ?thesis by (simp add: controlFragment_def)
  next
    case last
    have "(b, s') = (if c then (True, v) else (False, v\<lparr>fragmentBuffer :=
        take (length (fragmentBuffer v) - controlTipLength v) (fragmentBuffer v), controlTipLength := 0\<rparr>))"
      using s(2) [unfolded controlFragment_def Let_def v] last by simp
    then show ?thesis using \<open>P v\<close> buf by (auto split: if_splits)
  next
    case part
    with s(2) have "s' = ?s" by (auto simp: controlFragment_def Let_def)
    with Ps show ?thesis by simp
  qed
qed

lemma winding_handle:
  assumes w: "winding_down s" and adm: "admits opc n s" and h: "sw_handleFragment cpu Z reg p dat r opc fin s = (b, s')"
  shows "winding_down s'"
proof -
  have buf: "winding_down (u\<lparr>fragmentBuffer := x, controlTipLength := t\<rparr>) = winding_down u" for u :: "'a StreamWebSocket" and x t
    by (simp add: winding_down_def)
  have "closeSent s" using w by (simp add: winding_down_def)
  have c: "winding_down s''" if "controlFragment cpu dat r opc fin s = (b, s'')" for s''
    using buf winding_control w that by (rule controlFragment_keeps)
  show ?thesis
    using h w c \<open>closeSent s\<close> by (auto simp: sw_handleFragment_def split: if_splits)
qed

lemma winding_invariant: "sink_invariant (protocolHooks cpu Z) canon alive idle admits winding_down"
proof (rule stream_invariant)
  fix u :: "'a StreamWebSocket"
  assume "winding_down u"
  then show "winding_down (u\<lparr>failureCode := 1009\<rparr>)" "winding_down (u\<lparr>compressionStatus := COMPRESSED_FRAME\<rparr>)"
    "winding_down (fail cpu (failureCode u) u)"
    by (simp_all add: winding_fail) (simp_all add: winding_down_def)
qed (auto intro: winding_handle)

text \<open>
  C27: once our close frame is out, no message is delivered any more, no frame but a pong is answered, and
  neither a message nor a second close frame can be created.
\<close>

theorem after_close_frame:
  assumes "session_ok x" "closeSent (sock x)" "\<forall>c \<in> set chunks. length c \<le> UINT_MAX" "reads cpu Z chunks x = (y, es)"
  shows "(\<forall>e \<in> set es. ev_type e \<noteq> MESSAGE \<and> (ev_type e = FRAME \<longrightarrow> (\<exists>p. ev_data e = formatFrame p PONG False))) \<and>
    createFrame cpu Z dat opc compress (sock y) = (None, sock y) \<and>
    createCloseFrame cpu code message (sock y) = (None, sock y)"
proof -
  have "session_ok y \<and> closeSent (sock y) \<and>
    (\<forall>e \<in> set es. ev_type e \<noteq> MESSAGE \<and> (ev_type e = FRAME \<longrightarrow> (\<exists>p. ev_data e = formatFrame p PONG False)))"
    using assms
  proof (induction chunks arbitrary: x es)
    case (Cons c cs)
    obtain x1 b1 where c1: "sw_consume cpu Z c 0 (length c) x = (x1, b1)" by (cases "sw_consume cpu Z c 0 (length c) x")
    obtain es1 where r: "reads cpu Z cs x1 = (y, es1)" "es = observed x1 @ es1"
      using Cons.prems(4) c1 by (auto split: prod.splits)
    have w: "winding_down ((sock x)\<lparr>events := []\<rparr>)" using Cons.prems(2) by (simp add: winding_down_def)
    have "winding_down (sock x1)"
    proof (cases "closing (sock x) \<or> length c = 0")
      case True
      from sw_consume_closed [OF this c1] Cons.prems(2) show ?thesis by (simp add: winding_down_def)
    next
      case False
      with sw_consume_keeps [OF winding_invariant Cons.prems(1) _ _ _ _ c1 w] Cons.prems(3) show ?thesis by simp
    qed
    moreover have "session_ok x1" using sw_consume_refines [OF Cons.prems(1) _ _ c1] Cons.prems(3) by simp
    ultimately have "\<forall>e \<in> set (observed x1). ev_type e \<noteq> MESSAGE \<and> (ev_type e = FRAME \<longrightarrow> (\<exists>p. ev_data e = formatFrame p PONG False))"
      "closeSent (sock x1)" "session_ok x1"
      by (auto simp: winding_down_def observed_def list_all_iff erase_def)
    with Cons.IH [OF _ _ _ r(1)] Cons.prems(3) r(2) show ?case by auto
  qed simp
  then show ?thesis by (simp add: createFrame_def createCloseFrame_def)
qed

section \<open>Compressed messages after our close frame\<close>

text \<open>A message in one compressed frame: \<open>p\<close> stands for its deflated bytes.\<close>

definition compressedFrame :: "OpCode \<Rightarrow> byte list \<Rightarrow> byte list \<Rightarrow> byte list" where
  "compressedFrame opc m p = (64 OR hd (clientFrame True opc m p)) # tl (clientFrame True opc m p)"

lemma compressedFrame_fields:
  fixes rest
  assumes "opc \<in> {TEXT, BINARY}" "length m = 4" "length p < 2 ^ 63"
  defines "w \<equiv> compressedFrame opc m p @ rest"
  shows "isFin w" "rsv1 w" "\<not> rsv23 w" "getOpCode w = opc" "isMasked w"
    "announced w = Some (length p, clientHeader (length p))" "maskAt w (clientHeader (length p)) = m"
    "drop (clientHeader (length p)) w = xor_from 0 m p @ rest" "\<not> incomplete w"
proof -
  define h where "h = clientHeader (length p)"
  define v where "v = clientFrame True opc m p @ rest"
  obtain j k where jk: "h - 4 = Suc j" "h = Suc k"
    by (cases "h - 4"; cases h) (auto simp: h_def clientHeader_def header_sizes split: if_splits)
  obtain bs where c: "v = (128 OR opc) # bs" "w = (64 OR (128 OR opc)) # bs"
    by (auto simp: v_def w_def compressedFrame_def clientFrame_def Let_def)
  have op: "opc \<in> OpCodes" using assms(1) by (auto simp: OpCodes_def)
  note f = clientFrame_fields [OF op assms(2,3), of True rest, folded h_def v_def]
  show "isFin w" "rsv1 w" "\<not> rsv23 w" "getOpCode w = opc"
    using assms(1) by (auto simp: c(2) isFin_def rsv1_def rsv23_def getOpCode_def)
  have same: "length w = length v" "isMasked w = isMasked v" "payloadLength w = payloadLength v" "drop 2 w = drop 2 v"
    "drop (Suc i) w = drop (Suc i) v" for i
    by (simp_all add: c isMasked_def payloadLength_def numeral_2_eq_2)
  show "isMasked w" using f(5) same by simp
  have "announced w = announced v" using same by (simp add: announced_def)
  with f(6) show "announced w = Some (length p, clientHeader (length p))" by (simp add: h_def)
  show "maskAt w (clientHeader (length p)) = m" using f(7) same(5) [of j] jk(1) by (simp add: maskAt_def window_def flip: h_def)
  show "drop (clientHeader (length p)) w = xor_from 0 m p @ rest" using f(8) same(5) [of k] by (simp flip: h_def jk(2))
  have "incomplete w = incomplete v" using same by (simp add: incomplete_def headerLengthOf_def)
  with f(9) show "\<not> incomplete w" by simp
qed

text \<open>The first such frame is skipped, but leaves the socket in the state \<open>COMPRESSED_FRAME\<close>.\<close>

lemma feedHead_late_first:
  assumes "closeSent u" "\<not> closing u" "compressionStatus u = ENABLED" "opc \<in> {TEXT, BINARY}" "length m = 4"
    "fitting u (length p)"
  shows "feedHead (protocolHooks cpu Z reg) pos False [] u (compressedFrame opc m p @ rest) =
    feedHead (protocolHooks cpu Z reg) (pos + (length p + clientHeader (length p))) False []
      (u\<lparr>compressionStatus := COMPRESSED_FRAME\<rparr>) rest"
proof -
  define w where "w = compressedFrame opc m p @ rest"
  have n: "length p < 2 ^ 63" using assms(6) by (simp add: fitting_def UINT_MAX_def)
  note f = compressedFrame_fields [OF assms(4,5) n, of rest, folded w_def]
  have op: "isData opc" "opc \<le> BINARY" "opc \<noteq> NONE" "\<not> opc > 2" "\<not> opc > 10" using assms(4) by (auto simp: isData_def)
  let ?u = "u\<lparr>compressionStatus := COMPRESSED_FRAME\<rparr>"
  have "\<not> badHeader w" using f op by (auto simp: badHeader_def)
  moreover have "sw_refusePayloadLength (length p) ?u = (False, ?u)"
    using assms(6) by (auto simp: sw_refusePayloadLength_def fitting_def)
  ultimately have o: "openFrame (protocolHooks cpu Z reg) w False [] u = (Some (length p, clientHeader (length p), False, [opc]), ?u)"
    using f op assms(3) by (simp add: openFrame_def claimCompression_def Let_def sw_setCompressed_def allowed_def)
  have "opc \<noteq> CLOSE" "opc \<noteq> PING" "opc \<noteq> PONG" using assms(4) by auto
  then have h: "sw_handleFragment cpu Z reg q d 0 opc True ?u = (False, ?u)" for q d
    using assms(1,2) by (simp add: sw_handleFragment_def)
  have ln: "length p \<le> length w - clientHeader (length p)"
    using arg_cong [OF f(8), of length] by (simp only: length_append length_drop length_xor_from)
  show ?thesis
    using f h ln by (simp add: feedHead_run [of _ _ _ _ _ w] feedStep_def o afterHeader_def Let_def flip: w_def)
qed

lemma feedHead_late_second:
  assumes "closeSent u" "\<not> closing u" "compressionStatus u = COMPRESSED_FRAME" "opc \<in> {TEXT, BINARY}" "length m = 4"
    "length p < 2 ^ 63"
  shows "feedHead (protocolHooks cpu Z reg) pos frag stack u (compressedFrame opc m p @ rest) =
    Stopped (emitClose 1006 [] (u\<lparr>closing := True\<rparr>))"
proof -
  define w where "w = compressedFrame opc m p @ rest"
  note f = compressedFrame_fields [OF assms(4,5,6), of rest, folded w_def]
  have "isData opc" using assms(4) by (auto simp: isData_def)
  then have "openFrame (protocolHooks cpu Z reg) w frag stack u = (None, emitClose 1006 [] (u\<lparr>closing := True\<rparr>))"
    using f assms(1,2,3)
    by (simp add: openFrame_def claimCompression_def Let_def sw_setCompressed_def sw_forceClose_def fail_def)
  then show ?thesis
    using f by (simp add: feedHead_run [of _ _ _ _ _ w] feedStep_def flip: w_def)
qed

text \<open>
  C39: with permessage-deflate, after our close frame, a compressed message is ignored, but it leaves the
  socket as if it were still being received. The closing handshake then completes only if no other
  compressed message was on its way: the next one is refused as a protocol error, whatever follows it
  (\<open>rest\<close>, the peer's close frame with it), and the closure is delivered as the abnormal 1006. Without it
  (\<open>again = False\<close>) the closure has the peer's code and reason. Pings in between are answered.
\<close>

theorem late_compressed_messages:
  assumes "at_boundary x" "\<not> fragmentedMessage (base x)" "closeSent (sock x)" "compressionStatus (sock x) = ENABLED"
    "length m = 4" "length m' = 4" "opc \<in> {TEXT, BINARY}" "opc' \<in> {TEXT, BINARY}" "fitting (sock x) (length p)"
    "small_pings pings" "if again then length p' < 2 ^ 63 else length p' \<le> 125 \<and> cf_code (parseClosePayload cpu p') \<noteq> 1006"
    "concat chunks = compressedFrame opc m p @ concat (map clientPing pings) @
       (if again then compressedFrame opc' m' p' @ rest else clientFrame True CLOSE m' p')"
    "\<forall>c \<in> set chunks. length c \<le> UINT_MAX" "reads cpu Z chunks x = (y, es)"
  shows "es = map pong pings @ [\<lparr>ev_type = CLOSED, ev_data = if again then [] else cf_message (parseClosePayload cpu p'),
      ev_opCode = NONE, ev_code = if again then 1006 else cf_code (parseClosePayload cpu p'), view = None\<rparr>] \<and>
    closing (sock y)"
proof -
  let ?x = "releaseEvents x" and ?hooks = "protocolHooks cpu Z InputBuffer"
  let ?u = "(sock ?x)\<lparr>compressionStatus := COMPRESSED_FRAME\<rparr>"
  let ?v = "?u\<lparr>events := events ?u @ map pong pings\<rparr>"
  let ?last = "if again then compressedFrame opc' m' p' @ rest else clientFrame True CLOSE m' p'"
  have b: "at_boundary ?x" using assms(1) by (simp add: at_boundary_def releaseEvents_ok)
  note bp = at_boundary_parser [OF b]
  have x: "events (sock ?x) = []" "closeSent (sock ?x)" "\<not> closing (sock ?x)" "compressionStatus (sock ?x) = ENABLED"
    "fitting (sock ?x) (length p)" "\<not> fragmentedMessage (base ?x)"
    using b assms(2-4,9) by (simp_all add: releaseEvents_def at_boundary_def fitting_def)
  have st: "stackOf (base ?x) = []" using session_parser_ok [of ?x] b bp(1) x(6)
    by (auto simp: at_boundary_def stream.parser_ok_def stack_ok_def)
  obtain pos where s: "feedHead ?hooks 0 False [] (sock ?x) (concat chunks) = feedHead ?hooks pos False [] ?v ?last"
    using feedHead_late_first [OF x(2,3,4) assms(7,5) x(5), of cpu Z InputBuffer 0 "concat (map clientPing pings) @ ?last"]
      feedHead_pings [OF assms(10), of "[]" ?u cpu Z InputBuffer _ False ?last] x bp(3)
    unfolding assms(12) by fastforce
  have v: "closeSent ?v" "\<not> closing ?v" "controlTipLength ?v = 0" "compressionStatus ?v = COMPRESSED_FRAME"
    "events ?v = map pong pings"
    using x bp(3) by simp_all
  obtain u' where u': "feedHead ?hooks pos False [] ?v ?last = Stopped u'"
    "events u' = map pong pings @ [\<lparr>ev_type = CLOSED, ev_data = if again then [] else cf_message (parseClosePayload cpu p'),
      ev_opCode = NONE, ev_code = if again then 1006 else cf_code (parseClosePayload cpu p'), view = None\<rparr>]"
  proof (cases again)
    case True
    then show thesis
      using that feedHead_late_second [OF v(1,2,4) assms(8,6), of p' cpu Z InputBuffer pos False "[]" rest] assms(11) v(5)
      by (simp add: emitClose_def)
  next
    case False
    then show thesis
      using that feedHead_close [OF v(2,3), of "[]" m' p' cpu Z InputBuffer pos False] assms(6,11) v(1,5)
      by (auto simp: Let_def)
  qed
  have "concat chunks \<noteq> []" by (simp add: assms(12) compressedFrame_def)
  then have "fed cpu Z (parserOf ?x) (concat chunks) = Stopped u'"
    using s u'(1) x(6) st by (simp add: fed_def bp(1))
  from reads_stopped [OF _ assms(13,14) this] assms(1) u'(2) show ?thesis
    by (simp add: at_boundary_def erase_def pong_def comp_def)
qed

section \<open>Concrete runs\<close>

definition exampleSession :: "options \<Rightarrow> unit Session" where
  "exampleSession negotiated = newSession copyingZlib negotiated 15 100 None [0, 0, 0, 0] (replicate 27 0)"

lemma exampleSession_rest [simp]: "at_rest (exampleSession negotiated)"
  unfolding exampleSession_def by (rule newSession_at_rest) (simp_all add: header_sizes)

lemma exampleSession_limit: "maxPayload (sock (exampleSession negotiated)) = 100"
  by (simp add: exampleSession_def newSession_def newStreamWebSocket_def Let_def)

lemma exampleSession_ok [simp]: "session_ok (exampleSession negotiated)" "\<not> closing (sock (exampleSession negotiated))"
  using exampleSession_rest [of negotiated] unfolding at_rest_def listening_def by blast+

lemma chunk_independence_witness:
  "snd (reads NoSimd copyingZlib [[0x81, 0x82, 1], [2, 3, 4, 0x49], [0x6b, 0x88, 0x80, 0, 0, 0, 0]] (exampleSession 0)) =
   snd (reads NoSimd copyingZlib [[0x81, 0x82, 1, 2, 3, 4, 0x49, 0x6b, 0x88, 0x80, 0, 0, 0, 0]] (exampleSession 0))"
  using chunk_independence [of "exampleSession 0" "[[0x81, 0x82, 1], [2, 3, 4, 0x49], [0x6b, 0x88, 0x80, 0, 0, 0, 0]]" NoSimd copyingZlib,
      OF _ _ _ prod.collapse [symmetric] prod.collapse [symmetric]]
  by (simp only: concat.simps append.simps list.set) (simp add: UINT_MAX_def del: reads.simps)

lemma closure_is_last_witness:
  "\<exists>before e. snd (reads NoSimd copyingZlib [[0x88, 0x80, 0], [0, 0, 0, 1, 2, 3]] (exampleSession 0)) = before @ [e] \<and>
     ev_type e = CLOSED \<and> closures before = []"
proof -
  have "closing (sock (fst (reads NoSimd copyingZlib [[0x88, 0x80, 0], [0, 0, 0, 1, 2, 3]] (exampleSession 0))))"
    by code_simp
  then show ?thesis
    using closure_is_last [of "exampleSession 0" "[[0x88, 0x80, 0], [0, 0, 0, 1, 2, 3]]" NoSimd copyingZlib,
        OF _ _ _ prod.collapse [symmetric]]
    by (simp add: UINT_MAX_def del: reads.simps)
qed

text \<open>A compressed message whose stream ends twice on the way, over an inflater that repeats the end.\<close>

lemma delivered_and_held_witness:
  "let (y, es) = reads NoSimd endingZlib [[0xc1, 0x86, 1], [2, 3, 4, 0x69, 1, 0x6a, 7, 2], [0x68, 0x01, 0x82, 0, 0, 0, 0, 0x48, 0x49]]
       (newSession endingZlib PERMESSAGE_DEFLATE 15 100 None [0, 0, 0, 0] (replicate 27 0))
   in (\<forall>e \<in> set es. ev_type e = MESSAGE \<longrightarrow> length (payloadData e) \<le> 100 \<and>
         (ev_opCode e = TEXT \<longrightarrow> isValidUtf8 NoSimd (payloadData e))) \<and> length (fragmentBuffer (sock y)) \<le> 225"
  using delivered_and_held [of endingZlib 100 "[0, 0, 0, 0]" "replicate 27 0" None
      "[[0xc1, 0x86, 1], [2, 3, 4, 0x69, 1, 0x6a, 7, 2], [0x68, 0x01, 0x82, 0, 0, 0, 0, 0x48, 0x49]]" NoSimd PERMESSAGE_DEFLATE 15,
      OF _ _ _ _ _ _ prod.collapse [symmetric]]
  by (simp add: UINT_MAX_def endingZlib_lawful header_sizes Let_def split_beta del: reads.simps)

lemma message_delivery_witness:
  "snd (reads NoSimd copyingZlib [[0x01, 0x81], [1, 2, 3, 4, 0x49, 0x89], [0x80, 0, 0, 0, 0, 0x80, 0x81, 1, 2, 3, 4, 0x68]] (exampleSession 0)) =
     [pong ([0, 0, 0, 0], []), \<lparr>ev_type = MESSAGE, ev_data = [72, 105], ev_opCode = TEXT, ev_code = 0, view = None\<rparr>]"
proof -
  have utf: "isValidUtf8 NoSimd [72, 105]" by code_simp
  have w: "wire TEXT [([1, 2, 3, 4], [72], [([0, 0, 0, 0], [])])] [1, 2, 3, 4] [105] =
      [0x01, 0x81, 1, 2, 3, 4, 0x49, 0x89, 0x80, 0, 0, 0, 0, 0x80, 0x81, 1, 2, 3, 4, 0x68]" by code_simp
  show ?thesis
    using message_delivery [of "exampleSession 0" TEXT "[([1, 2, 3, 4], [72], [([0, 0, 0, 0], [])])]" "[1, 2, 3, 4]" "[105]" NoSimd
      "[[0x01, 0x81], [1, 2, 3, 4, 0x49, 0x89], [0x80, 0, 0, 0, 0, 0x80, 0x81, 1, 2, 3, 4, 0x68]]" copyingZlib,
      OF _ _ _ _ _ _ _ _ prod.collapse [symmetric]] utf w
    by (simp add: UINT_MAX_def fragments_ok_def small_pings_def carried_def pongs_def fitting_def exampleSession_limit del: reads.simps)
qed

lemma close_handshake_witness:
  "closing (sock (fst (reads NoSimd copyingZlib [[0x88, 0x82, 0, 0, 0], [0, 3, 0xe8]] (exampleSession 0))))"
proof -
  have w: "clientFrame True CLOSE [0, 0, 0, 0] [3, 0xe8] = [0x88, 0x82, 0, 0, 0, 0, 3, 0xe8]" by code_simp
  have c: "cf_code (parseClosePayload NoSimd [3, 0xe8]) \<noteq> 1006" by code_simp
  have "at_boundary (exampleSession 0)"
    using exampleSession_rest [of 0] unfolding at_rest_def at_boundary_def listening_def by blast
  with w c show ?thesis
    using close_handshake [of "exampleSession 0" "[0, 0, 0, 0]" "[3, 0xe8]" NoSimd
        "[[0x88, 0x82, 0, 0, 0], [0, 3, 0xe8]]" copyingZlib, OF _ _ _ _ _ _ prod.collapse [symmetric]]
    by (simp add: UINT_MAX_def del: reads.simps)
qed

text \<open>A session whose own close frame is out.\<close>

definition closeSentSession :: "options \<Rightarrow> unit Session" where
  "closeSentSession negotiated =
     (let x = exampleSession negotiated in x\<lparr>sock := snd (createCloseFrame NoSimd 1000 None (sock x))\<rparr>)"

lemma closeSentSession_ok: "session_ok (closeSentSession negotiated)" "closeSent (sock (closeSentSession negotiated))"
  using exampleSession_ok [of negotiated]
  by (auto simp: closeSentSession_def Let_def createCloseFrame_def session_ok_def parserOf_def stream.parser_ok_def
      alive_def idle_def admits_def exampleSession_def newSession_def newStreamWebSocket_def newWebSocketState_def phaseOf_def split: phase.splits)

lemma after_close_frame_witness:
  "createCloseFrame NoSimd 1001 None (sock (fst (reads NoSimd copyingZlib [[0x81, 0x81], [0, 0, 0, 0, 65]] (closeSentSession 0)))) =
     (None, sock (fst (reads NoSimd copyingZlib [[0x81, 0x81], [0, 0, 0, 0, 65]] (closeSentSession 0))))"
  using after_close_frame [of "closeSentSession 0" "[[0x81, 0x81], [0, 0, 0, 0, 65]]" NoSimd copyingZlib,
      OF _ _ _ prod.collapse [symmetric]] closeSentSession_ok
  by (simp add: UINT_MAX_def del: reads.simps)

lemma late_compressed_messages_witness:
  "snd (reads NoSimd copyingZlib [[0xc1, 0x81, 0, 0, 0, 0, 65, 0x89], [0x80, 0, 0, 0, 0, 0xc2, 0x81, 0, 0, 0], [0, 66]]
      (closeSentSession PERMESSAGE_DEFLATE)) =
     [pong ([0, 0, 0, 0], []), \<lparr>ev_type = CLOSED, ev_data = [], ev_opCode = NONE, ev_code = 1006, view = None\<rparr>]"
proof -
  have w: "compressedFrame TEXT [0, 0, 0, 0] [65] = [0xc1, 0x81, 0, 0, 0, 0, 65]"
    "clientPing ([0, 0, 0, 0], []) = [0x89, 0x80, 0, 0, 0, 0]"
    "compressedFrame BINARY [0, 0, 0, 0] [66] = [0xc2, 0x81, 0, 0, 0, 0, 66]" by code_simp+
  have x: "compressionStatus (sock (closeSentSession PERMESSAGE_DEFLATE)) = ENABLED"
    "\<not> fragmentedMessage (base (closeSentSession PERMESSAGE_DEFLATE))" "maxPayload (sock (closeSentSession PERMESSAGE_DEFLATE)) = 100"
    "at_boundary (closeSentSession PERMESSAGE_DEFLATE)"
    using closeSentSession_ok [of PERMESSAGE_DEFLATE]
    by (simp_all add: at_boundary_def closeSentSession_def Let_def createCloseFrame_def exampleSession_def newSession_def
        newStreamWebSocket_def newWebSocketState_def has_option_def)
  show ?thesis
    using late_compressed_messages [of "closeSentSession PERMESSAGE_DEFLATE" "[0, 0, 0, 0]" "[0, 0, 0, 0]" TEXT BINARY "[65]"
        "[([0, 0, 0, 0], [])]" True "[66]" NoSimd "[[0xc1, 0x81, 0, 0, 0, 0, 65, 0x89], [0x80, 0, 0, 0, 0, 0xc2, 0x81, 0, 0, 0], [0, 66]]" "[]"
        copyingZlib, OF _ _ _ _ _ _ _ _ _ _ _ _ _ prod.collapse [symmetric]] w x closeSentSession_ok
    by (simp add: UINT_MAX_def fitting_def small_pings_def del: reads.simps)
qed

end
