(* ===== verification/Borrowed_Views.thy ===== *)
theory Borrowed_Views
  imports Session_Delivery
begin

text \<open>
  An event borrows the payload of an unfragmented, uncompressed message from the buffer it was read
  into (\<open>dataView\<close>, \<open>dataViewLength\<close>), while \<open>consume\<close> goes on to unmask later frames in the same
  buffer, in place and a few bytes ahead of their payload. The model keeps the bytes with the pointer;
  here the two are shown to agree until the read is over: no borrowed payload is overwritten.
\<close>

section \<open>What is borrowed\<close>

definition viewsIn :: "region \<Rightarrow> 'z StreamWebSocket \<Rightarrow> (nat \<times> byte list) set" where
  "viewsIn r s = {(p, bytes). \<exists>e \<in> set (events s). view e = Some ((r, p), bytes)}"

definition borrowed :: "region \<Rightarrow> byte list \<Rightarrow> nat \<Rightarrow> 'z StreamWebSocket \<Rightarrow> bool" where
  "borrowed r v limit s \<longleftrightarrow>
     (\<forall>(p, bytes) \<in> viewsIn r s. p + length bytes \<le> limit \<and> window v p (length bytes) = bytes)"

lemma viewsIn_update [simp]:
  "viewsIn r (s\<lparr>compressionStatus := a\<rparr>) = viewsIn r s" "viewsIn r (s\<lparr>fragmentBuffer := b\<rparr>) = viewsIn r s"
  "viewsIn r (s\<lparr>controlTipLength := c\<rparr>) = viewsIn r s" "viewsIn r (s\<lparr>closing := d\<rparr>) = viewsIn r s"
  "viewsIn r (s\<lparr>closeSent := d\<rparr>) = viewsIn r s" "viewsIn r (s\<lparr>failureCode := c\<rparr>) = viewsIn r s"
  "viewsIn r (s\<lparr>events := []\<rparr>) = {}"
  by (simp_all add: viewsIn_def)

lemma viewsIn_emit [simp]:
  "viewsIn r (emitFrame fr s) = viewsIn r s" "viewsIn r (emitClose c message s) = viewsIn r s"
  "viewsIn r (emitMessage opc dat None s) = viewsIn r s"
  "viewsIn r (emitMessage opc dat (Some ((q, p), bytes)) s) = viewsIn r s \<union> (if r = q then {(p, bytes)} else {})"
  by (auto simp: viewsIn_def emitFrame_def emitClose_def emitMessage_def)

lemma viewsIn_fail [simp]:
  "viewsIn r (fail cpu code s) = viewsIn r s" "viewsIn r (failWith cpu code s) = viewsIn r s"
  "viewsIn r (sw_forceClose cpu s) = viewsIn r s"
  by (simp_all add: fail_def failWith_def sw_forceClose_def Let_def)

lemma viewsIn_events: "events s' = events s \<Longrightarrow> viewsIn r s' = viewsIn r s"
  by (simp add: viewsIn_def)

lemma viewsIn_decode:
  assumes "decodeMessage cpu Z dat opc s = (d, s')"
  shows "viewsIn r s' = viewsIn r s"
proof (cases "compressionStatus s = COMPRESSED_FRAME")
  case True
  obtain q out s1 where i: "sw_inflateMessage Z dat (s\<lparr>compressionStatus := ENABLED\<rparr>) = (q, out, s1)"
    by (cases rule: prod_cases3)
  have "s' = s1 \<or> (\<exists>code. s' = failWith cpu code s1)"
    using True assms i by (auto simp: decodeMessage_def Let_def split: if_splits)
  moreover have "viewsIn r s1 = viewsIn r s" using inflate_fields [OF i] by (simp add: viewsIn_def)
  ultimately show ?thesis by (elim disjE exE) simp_all
next
  case False
  with assms show ?thesis by (auto simp: decodeMessage_def Let_def split: if_splits)
qed

lemma viewsIn_control: "controlFrame cpu dat opc s = (stop, s') \<Longrightarrow> viewsIn r s' = viewsIn r s"
  by (auto simp: controlFrame_def Let_def split: if_splits)

lemma viewsIn_controlFragment: "controlFragment cpu dat n opc fin s = (stop, s') \<Longrightarrow> viewsIn r s' = viewsIn r s"
  by (auto simp: controlFragment_def Let_def dest: viewsIn_control [where r = r] split: if_splits prod.splits)

lemma viewsIn_data:
  assumes "dataFragment cpu Z reg p dat n opc fin s = (stop, s')"
  shows "viewsIn r s' \<subseteq> viewsIn r s \<union> (if r = reg then {(p, dat)} else {})"
proof (cases stop)
  case True
  then show ?thesis using assms
    by (auto simp: dataFragment_def dest!: append_cases dest: viewsIn_decode [where r = r]
        split: if_splits prod.splits option.splits bool.splits)
next
  case False
  with assms have "dataFragment cpu Z reg p dat n opc fin s = (False, s')" by simp
  then show ?thesis
  proof (cases rule: data_goes_on)
    case (direct bytes inflated s1)
    then show ?thesis using viewsIn_decode [OF direct(4), of r] decode_accepted [OF direct(4)]
      by (cases inflated) simp_all
  next
    case (buffered bytes inflated s1)
    then show ?thesis using viewsIn_decode [OF buffered(3), of r] by auto
  next
    case kept
    then show ?thesis by simp
  qed
qed

text \<open>One fragment lends at most itself, from the buffer it is in.\<close>

lemma viewsIn_handle:
  "sw_handleFragment cpu Z reg p dat n opc fin s = (stop, s') \<Longrightarrow>
   viewsIn r s' \<subseteq> viewsIn r s \<union> (if r = reg then {(p, dat)} else {})"
  using viewsIn_data [of cpu Z reg p dat n opc fin s stop s' r] viewsIn_controlFragment [of cpu dat n opc fin s stop s' r]
  by (auto simp: sw_handleFragment_def split: if_splits)

lemma viewsIn_hooks:
  "sw_refusePayloadLength n s = (b, s') \<Longrightarrow> viewsIn r s' = viewsIn r s"
  "sw_setCompressed s = (b, s') \<Longrightarrow> viewsIn r s' = viewsIn r s"
  by (auto simp: sw_refusePayloadLength_def sw_setCompressed_def split: if_splits)

section \<open>The buffer under the views\<close>

lemma window_confined:
  assumes "confined lo n v v'" "p + k \<le> lo" "lo \<le> length v"
  shows "window v' p k = window v p k"
  using assms by (intro nth_equalityI) (auto simp: confined_def nth_window)

lemma borrowed_confined:
  "borrowed r v limit s \<Longrightarrow> confined lo n v v' \<Longrightarrow> limit \<le> lo \<Longrightarrow> lo \<le> length v \<Longrightarrow> borrowed r v' limit s"
  unfolding borrowed_def by (auto simp: window_confined)

lemma borrowed_more:
  assumes "borrowed r v limit s" "viewsIn r s' \<subseteq> viewsIn r s \<union> {(p, window v p k)}"
    "limit \<le> limit'" "p + k \<le> limit'" "p + k \<le> length v"
  shows "borrowed r v limit' s'"
  using assms unfolding borrowed_def by fastforce

lemma borrowed_fewer: "borrowed r v limit s \<Longrightarrow> viewsIn r s' \<subseteq> viewsIn r s \<Longrightarrow> borrowed r v limit s'"
  unfolding borrowed_def by blast

text \<open>
  A step of the parser on the machine lends at most one piece of the memory it leaves, which ends
  where the machine goes on reading, or within the input when it stops.
\<close>

definition lends :: "region \<Rightarrow> 'z StreamWebSocket machine \<Rightarrow> bool \<Rightarrow> 'z StreamWebSocket machine \<Rightarrow> bool" where
  "lends reg m going m' \<longleftrightarrow> (\<exists>p k. p + k \<le> (if going then src m' else src m + len m) \<and>
     (\<forall>r. viewsIn r (user m') \<subseteq> viewsIn r (user m) \<union> (if r = reg then {(p, window (mem m') p k)} else {})))"

definition same_views :: "'z StreamWebSocket \<Rightarrow> 'z StreamWebSocket \<Rightarrow> bool" where
  "same_views s s' \<longleftrightarrow> (\<forall>r. viewsIn r s' = viewsIn r s)"

lemma same_views_forced [simp]: "same_views s (sw_forceClose cpu s') = same_views s s'"
  by (simp add: same_views_def)

lemma lends_none: "same_views (user m) (user m') \<Longrightarrow> lends reg m False m'"
  unfolding lends_def same_views_def by (rule exI [of _ 0], rule exI [of _ 0]) simp

lemma lends_own:
  assumes "lends reg m going m'"
  obtains p k where "p + k \<le> (if going then src m' else src m + len m)"
    "viewsIn reg (user m') \<subseteq> viewsIn reg (user m) \<union> {(p, window (mem m') p k)}"
proof -
  from assms obtain p k where "p + k \<le> (if going then src m' else src m + len m)"
    and v: "\<forall>r. viewsIn r (user m') \<subseteq> viewsIn r (user m) \<union> (if r = reg then {(p, window (mem m') p k)} else {})"
    unfolding lends_def by blast
  with spec [OF v, of reg] show thesis by (intro that) simp_all
qed

lemma lends_other:
  assumes "lends reg m going m'" "r \<noteq> reg"
  shows "viewsIn r (user m') \<subseteq> viewsIn r (user m)"
proof -
  from assms(1) obtain p k where
    v: "\<forall>r. viewsIn r (user m') \<subseteq> viewsIn r (user m) \<union> (if r = reg then {(p, window (mem m') p k)} else {})"
    unfolding lends_def by blast
  with spec [OF v, of r] assms(2) show ?thesis by simp
qed

lemma lends_handle:
  assumes "sw_handleFragment cpu Z reg p (window v p k) n opc fin u = (stop, user m')" "mem m' = v"
    "same_views (user m) u" "p + k \<le> (if going then src m' else src m + len m)"
  shows "lends reg m going m'"
  unfolding lends_def using assms(3,4) viewsIn_handle [OF assms(1)]
  by (intro exI [of _ p] exI [of _ k]) (simp only: assms(2) same_views_def, simp)

lemma acceptHeader_views:
  "acceptHeader (protocolHooks cpu Z reg) opc fin n w u = (ok, w', u') \<Longrightarrow> same_views u u'"
  by (auto simp: acceptHeader_def same_views_def Let_def dest: viewsIn_hooks(1) split: if_splits prod.splits)

lemma consumeMessage_lends:
  assumes c: "consumeMessage cpu (protocolHooks cpu Z reg) n h m = (stop, m')" and h: "4 \<le> h" "h \<le> len m"
  shows "lends reg m (\<not> stop) m'"
proof -
  obtain ok w u where acc: "acceptHeader (protocolHooks cpu Z reg) (getOpCode (frame m)) (isFin (frame m)) n (ws m) (user m) = (ok, w, u)"
    by (cases rule: prod_cases3)
  note views = acceptHeader_views [OF acc]
  show ?thesis
  proof (cases ok)
    case False
    with c acc have "stop" "m' = m\<lparr>ws := w, user := sw_forceClose cpu u\<rparr>"
      by (simp_all add: consumeMessage_refused)
    then show ?thesis using views by (simp add: lends_none)
  next
    case True
    then show ?thesis using c acc h
      by (auto simp: consumeMessage_def Let_def split: prod.splits if_splits intro!: lends_handle views)
  qed
qed

lemma consumeContinuation_lends:
  assumes "consumeContinuation cpu (protocolHooks cpu Z reg) m = (again, m')"
  shows "lends reg m again m'"
  using assms
  by (auto simp: consumeContinuation_def same_views_def Let_def split: prod.splits if_splits intro!: lends_handle)

lemma lends_user: "same_views (user m) u \<Longrightarrow> lends reg (m\<lparr>user := u\<rparr>) going m' = lends reg m going m'"
  by (simp add: lends_def same_views_def)

lemma returning_lends:
  assumes "returning (consumeMessage cpu (protocolHooks cpu Z reg) k h (m\<lparr>user := u\<rparr>)) = (fl, m')"
    "4 \<le> h" "h \<le> len m" "same_views (user m) u"
  shows "lends reg m (fl = Continue) m'"
proof -
  obtain stop where c: "consumeMessage cpu (protocolHooks cpu Z reg) k h (m\<lparr>user := u\<rparr>) = (stop, m')"
    and fl: "fl = (if stop then Return else Continue)"
    using assms(1) by (cases "consumeMessage cpu (protocolHooks cpu Z reg) k h (m\<lparr>user := u\<rparr>)") (auto simp: returning_def)
  have "lends reg m (\<not> stop) m'"
    using consumeMessage_lends [OF c assms(2)] assms(3) by (simp add: lends_user [OF assms(4)])
  then show ?thesis using fl by (cases stop) simp_all
qed

lemma parseStep_lends:
  assumes "parseStep cpu (protocolHooks cpu Z reg) m = (fl, m')"
  shows "lends reg m (fl = Continue) m'"
proof -
  define fr where "fr = frame m"
  obtain bad u where u: "(if rsv1 fr
             then (if getOpCode fr = 0 \<or> getOpCode fr > 2 then (True, user m)
                   else case sw_setCompressed (user m) of (ok, u) \<Rightarrow> (\<not> ok, u))
             else (False, user m)) = (bad, u)"
    by (cases rule: prod.exhaust)
  have same: "same_views (user m) u"
    using u by (auto simp: same_views_def dest: viewsIn_hooks(2) split: if_splits prod.splits)
  have "lends reg m False (m\<lparr>user := u\<rparr>)" "lends reg m False (forced (protocolHooks cpu Z reg) (m\<lparr>user := u\<rparr>))"
    using same by (simp_all add: lends_none forced_def)
  moreover have "lends reg m False m" by (simp add: lends_none same_views_def)
  ultimately show ?thesis
    using assms [unfolded parseStep_def Let_def hooks_simps, folded fr_def, unfolded u prod.case]
    by (auto dest!: returning_lends [OF _ _ _ same] simp: header_sizes headerLengthOf_def split: if_split_asm)
qed

section \<open>A read\<close>

text \<open>While it reads, the machine keeps every borrowed payload behind the place it reads from.\<close>

lemma borrowed_step:
  assumes "borrowed reg (mem m) (src m) (user m)" "confined (src m) (len m) (mem m) (mem m')" "lends reg m going m'"
    "src m + len m \<le> length (mem m)" "going \<Longrightarrow> src m \<le> src m' \<and> src m' \<le> src m + len m"
  shows "borrowed reg (mem m') (if going then src m' else src m + len m) (user m')"
proof -
  have b: "borrowed reg (mem m') (src m) (user m)"
    using assms(4) by (intro borrowed_confined [OF assms(1,2)]) simp_all
  obtain p k where pk: "p + k \<le> (if going then src m' else src m + len m)"
    and views: "viewsIn reg (user m') \<subseteq> viewsIn reg (user m) \<union> {(p, window (mem m') p k)}"
    by (rule lends_own [OF assms(3)])
  have l: "length (mem m') = length (mem m)" using assms(2) by (simp add: confined_def)
  show ?thesis
  proof (cases going)
    case True
    with pk l assms(4) assms(5) [OF True] show ?thesis by (simp add: borrowed_more [OF b views])
  next
    case False
    with pk l assms(4) show ?thesis by (simp add: borrowed_more [OF b views])
  qed
qed

lemma spillRest_fields [simp]: "mem (spillRest m) = mem m" "user (spillRest m) = user m"
  by (simp_all add: spillRest_def)

lemma borrowed_limit: "borrowed r v limit s \<Longrightarrow> limit \<le> limit' \<Longrightarrow> borrowed r v limit' s"
  unfolding borrowed_def by fastforce

lemma parseNext_borrowed:
  "ready m \<Longrightarrow> hooks = protocolHooks cpu Z reg \<Longrightarrow> borrowed reg (mem m) (src m) (user m) \<Longrightarrow>
   borrowed reg (mem (parseNext cpu hooks m)) (src m + len m) (user (parseNext cpu hooks m)) \<and>
   (\<forall>r. r \<noteq> reg \<longrightarrow> viewsIn r (user (parseNext cpu hooks m)) \<subseteq> viewsIn r (user m))"
proof (induction cpu hooks m rule: parseNext.induct)
  case (1 cpu hooks m)
  have fits: "src m + len m \<le> length (mem m)" using "1.prems"(1) by (simp add: ready_def)
  show ?case
  proof (cases "6 \<le> len m")
    case False
    then have "parseNext cpu hooks m = spillRest m" by (subst parseNext.simps) (simp add: header_sizes)
    with "1.prems" show ?thesis by (simp add: borrowed_limit)
  next
    case True
    obtain fl m' where fl: "parseStep cpu hooks m = (fl, m')" by (cases "parseStep cpu hooks m")
    have step: "step_refines m (fl, m')
        (feedStep hooks (src m) (fragmentedMessage (ws m)) (stackOf (ws m)) (user m) (unread m))"
      using parseStep_refines [OF "1.prems"(1) True limited_hooks [of cpu Z reg], of cpu] fl "1.prems"(2) by simp
    then have conf: "confined (src m) (len m) (mem m) (mem m')" by (simp add: step_refines_def)
    have lent: "lends reg m (fl = Continue) m'" using fl "1.prems"(2) by (intro parseStep_lends) simp
    then have other: "\<forall>r. r \<noteq> reg \<longrightarrow> viewsIn r (user m') \<subseteq> viewsIn r (user m)" by (blast dest: lends_other)
    have b: "borrowed reg (mem m') (if fl = Continue then src m' else src m + len m) (user m')"
      using step by (intro borrowed_step [OF "1.prems"(3) conf lent fits]) (auto simp: step_refines_def)
    show ?thesis
    proof (cases fl)
      case Continue
      then have m': "ready m'" "src m' + len m' = src m + len m" using step by (simp_all add: step_refines_def)
      have "parseNext cpu hooks m = parseNext cpu hooks m'"
        using True fl Continue by (subst parseNext.simps) (simp add: header_sizes)
      moreover note "1.IH" [OF _ fl [symmetric] Continue m'(1) "1.prems"(2)]
      ultimately show ?thesis using True b other Continue m'(2) by (auto simp: header_sizes)
    next
      case Break
      with True fl b other show ?thesis by (subst (1 2 3) parseNext.simps) (simp add: header_sizes)
    next
      case Return
      with True fl b other show ?thesis by (subst (1 2 3) parseNext.simps) (simp add: header_sizes)
    qed
  qed
qed

lemma consume_borrowed:
  fixes cpu and Z :: "'z zlib"
  assumes c: "consumable m ph frag stack" and b: "borrowed reg (mem m) (src m - spillLength (ws m)) (user m)"
  defines "m' \<equiv> consume cpu (protocolHooks cpu Z reg) m"
  shows "borrowed reg (mem m') (src m + len m) (user m') \<and> (\<forall>r. r \<noteq> reg \<longrightarrow> viewsIn r (user m') \<subseteq> viewsIn r (user m))"
proof (cases ph)
  case (Head pending)
  let ?n = "length pending"
  let ?v = "blit (mem m) (src m - ?n) pending"
  let ?m = "m\<lparr>src := src m - ?n, len := len m + ?n, mem := ?v\<rparr>"
  have r: "shapes (ws m)" "wantsHead (ws m)" "spillLength (ws m) = ?n" "take ?n (spill (ws m)) = pending"
    and f: "src m + len m \<le> length (mem m)" "?n \<le> src m" "len m + ?n < 2 ^ 32"
    using c Head by (auto simp: consumable_def represents_def)
  have "m' = parseNext cpu (protocolHooks cpu Z reg) ?m"
    using r f by (cases "?n = 0") (simp_all add: m'_def consume_def Let_def)
  moreover have "ready ?m" using r f by (auto simp: ready_def)
  moreover have "borrowed reg ?v (src m - ?n) (user m)"
    using b r f confined_blit [of "src m - ?n" pending "mem m" "src m - ?n" "?n + len m"]
    by (intro borrowed_confined [of reg "mem m" _ _ "src m - ?n" "?n + len m" ?v]) simp_all
  ultimately show ?thesis using parseNext_borrowed [of ?m _ cpu Z reg] f by simp
next
  case (Body q k fin)
  have rep: "represents (ws m) (Body q k fin) frag stack" "src m + len m \<le> length (mem m)" "len m < 2 ^ 32"
    using c Body by (auto simp: consumable_def)
  note w = represents_Body [OF rep(1)]
  obtain again m1 where c1: "consumeContinuation cpu (protocolHooks cpu Z reg) m = (again, m1)"
    by (cases "consumeContinuation cpu (protocolHooks cpu Z reg) m")
  note ref = continuation_refines [OF rep c1, unfolded Let_def case_prod_beta]
  note lent = consumeContinuation_lends [OF c1]
  then have other: "\<forall>r. r \<noteq> reg \<longrightarrow> viewsIn r (user m1) \<subseteq> viewsIn r (user m)" by (blast dest: lends_other)
  have "borrowed reg (mem m1) (if again then src m1 else src m + len m) (user m1)"
    using ref b w rep by (intro borrowed_step [OF _ _ lent]) auto
  moreover have "m' = (if again then parseNext cpu (protocolHooks cpu Z reg) m1 else m1)"
    using w c1 by (simp add: m'_def consume_def)
  moreover have "ready m1 \<and> src m1 + len m1 = src m + len m" if again
    using ref that by auto
  ultimately show ?thesis
    using other parseNext_borrowed [of m1 _ cpu Z reg] by (cases again) auto
qed

lemma consumeIn_borrowed:
  assumes ok: "session_ok x" and open_: "\<not> closing (sock x)"
    and b: "start + n \<le> length buffer" "spillLength (base x) \<le> start" "n + spillLength (base x) < 2 ^ 32"
    and c: "consumeIn cpu Z reg buffer start n x = (x', buffer')"
    and none: "viewsIn reg (sock x) = {}"
  shows "borrowed reg buffer' (start + n) (sock x')" "r \<noteq> reg \<Longrightarrow> viewsIn r (sock x') \<subseteq> viewsIn r (sock x)"
proof -
  let ?m = "\<lparr>mem = buffer, src = start, len = n, ws = base x, user = sock x\<rparr>"
  have "consumable ?m (phaseOf (base x)) (fragmentedMessage (base x)) (stackOf (base x))"
    using ok open_ b by (simp add: consumable_def session_ok_def)
  note m = consume_borrowed [OF this, of reg cpu Z]
  have "borrowed reg buffer (start - spillLength (base x)) (sock x)" by (simp add: borrowed_def none)
  with m c have "borrowed reg buffer' (start + n) (sock x') \<and> (\<forall>r. r \<noteq> reg \<longrightarrow> viewsIn r (sock x') \<subseteq> viewsIn r (sock x))"
    by (simp add: consumeIn_def Let_def) (elim conjE, hypsubst, simp)
  then show "borrowed reg buffer' (start + n) (sock x')" "r \<noteq> reg \<Longrightarrow> viewsIn r (sock x') \<subseteq> viewsIn r (sock x)"
    by blast+
qed

text \<open>The buffer a view of the session points into.\<close>

definition bufferOf :: "region \<Rightarrow> 'z Session \<Rightarrow> byte list \<Rightarrow> byte list" where
  "bufferOf r x buffer = (case r of InputBuffer \<Rightarrow> buffer | HeaderBuffer \<Rightarrow> headerBuffer x)"

lemma sw_consume_open_borrowed:
  assumes ok: "session_ok x" and open_: "\<not> closing (sock x)" and n: "n \<noteq> 0" "n \<le> UINT_MAX"
    and b: "start + n \<le> length buffer" and c: "sw_consume cpu Z buffer start n x = (x', buffer')"
  shows "\<exists>limit. borrowed r (bufferOf r x' buffer') limit (sock x')"
proof -
  let ?x = "releaseEvents x"
  have x0: "session_ok ?x" "\<not> closing (sock ?x)" using ok open_ by (simp_all add: releaseEvents_ok)
  have none: "viewsIn q (sock ?x) = {}" for q by (simp add: viewsIn_def)
  have sp: "spillLength (base ?x) \<le> 13" using session_spill [OF x0] by simp
  show ?thesis
    using ok open_ n b c
  proof (cases rule: sw_consume_parts)
    case direct
    have "borrowed InputBuffer buffer' (start + n) (sock x')" "viewsIn HeaderBuffer (sock x') = {}"
      using consumeIn_borrowed(1) [OF x0 b _ _ direct(2) none] consumeIn_borrowed(2) [OF x0 b _ _ direct(2) none, of HeaderBuffer] direct(1) n none
      by (simp_all add: UINT_MAX_def)
    then show ?thesis by (cases r) (auto simp: bufferOf_def borrowed_def)
  next
    case (header hb copied x1 hb' x2)
    have b1: "CONSUME_PRE_PADDING + copied \<le> length hb" "spillLength (base ?x) \<le> CONSUME_PRE_PADDING"
      "copied + spillLength (base ?x) < 2 ^ 32"
      using header(3,4) sp by (simp_all add: header_sizes)
    have first: "borrowed HeaderBuffer hb' (CONSUME_PRE_PADDING + copied) (sock x2)" "viewsIn InputBuffer (sock x2) = {}"
      using consumeIn_borrowed(1) [OF x0 b1 header(6) none] consumeIn_borrowed(2) [OF x0 b1 header(6) none, of InputBuffer] none header(7) by simp_all
    from header(10) show ?thesis
    proof
      assume "(closing (sock x2) \<or> copied = n) \<and> x' = x2 \<and> buffer' = buffer"
      with first header(7) show ?thesis by (cases r) (auto simp: bufferOf_def borrowed_def)
    next
      assume e: "\<not> closing (sock x2) \<and> copied < n \<and> spillLength (base x2) = 0 \<and>
         consumeIn cpu Z InputBuffer buffer (start + copied) (n - copied) x2 = (x', buffer')"
      have b2: "start + copied + (n - copied) \<le> length buffer" "spillLength (base x2) \<le> start + copied"
        "n - copied + spillLength (base x2) < 2 ^ 32"
        using e b n by (simp_all add: UINT_MAX_def)
      note second = consumeIn_borrowed(1) [OF header(8) _ b2 _ first(2), of cpu Z x' buffer']
        consumeIn_borrowed(2) [OF header(8) _ b2 _ first(2), of cpu Z x' buffer' HeaderBuffer]
      have "headerBuffer x' = hb'"
        using consumeIn_refines(4) [OF header(8) _ b2, of cpu Z InputBuffer x' buffer'] e header(7) by simp
      then show ?thesis using second e borrowed_fewer [OF first(1)] by (cases r) (auto simp: bufferOf_def)
    qed
  qed
qed

text \<open>
  C10: the bytes an event borrows are still in the buffer when \<open>consume\<close> returns: whatever the frames
  that follow in the same read, and however the header was split, no payload handed out is overwritten.
\<close>

theorem borrowed_payloads_stay:
  assumes "session_ok x" "start + n \<le> length buffer" "sw_consume cpu Z buffer start n x = (x', buffer')"
    "e \<in> set (events (sock x'))" "view e = Some ((r, p), bytes)"
  shows "window (case r of InputBuffer \<Rightarrow> buffer' | HeaderBuffer \<Rightarrow> headerBuffer x') p (length bytes) = bytes"
proof (cases "closing (sock x) \<or> n = 0 \<or> n > UINT_MAX")
  case True
  with assms(3) have "viewsIn r (sock x') = {}"
    by (auto simp: sw_consume_def Let_def viewsIn_def releaseEvents_def failWith_def fail_def emitClose_def emitFrame_def
        split: if_splits)
  then show ?thesis using assms(4,5) by (auto simp: viewsIn_def)
next
  case False
  then obtain limit where "borrowed r (bufferOf r x' buffer') limit (sock x')"
    using sw_consume_open_borrowed [OF assms(1) _ _ _ assms(2,3), of r] by auto
  moreover have "(p, bytes) \<in> viewsIn r (sock x')" using assms(4,5) by (auto simp: viewsIn_def)
  ultimately show ?thesis by (auto simp: borrowed_def bufferOf_def)
qed

text \<open>Two text frames in one read: the second one is unmasked while the first one is borrowed.\<close>

lemma borrowed_payloads_stay_witness:
  "let buffer = [0x81, 0x82, 1, 2, 3, 4, 0x49, 0x6b, 0x81, 0x81, 0, 0, 0, 0, 65]
   in window (snd (sw_consume NoSimd copyingZlib buffer 0 15 (exampleSession 0))) 2 2 = [72, 105]"
proof -
  define buffer :: "byte list" where "buffer = [0x81, 0x82, 1, 2, 3, 4, 0x49, 0x6b, 0x81, 0x81, 0, 0, 0, 0, 65]"
  define r where "r = sw_consume NoSimd copyingZlib buffer 0 15 (exampleSession 0)"
  have "map view (events (sock (fst (sw_consume NoSimd copyingZlib
      [0x81, 0x82, 1, 2, 3, 4, 0x49, 0x6b, 0x81, 0x81, 0, 0, 0, 0, 65] 0 15 (exampleSession 0))))) =
    [Some ((InputBuffer, 2), [72, 105]), Some ((InputBuffer, 10), [65])]" by code_simp
  then have "Some ((InputBuffer, 2), [72, 105]) \<in> set (map view (events (sock (fst r))))"
    unfolding r_def buffer_def by (simp only: list.set_intros)
  then obtain e where "e \<in> set (events (sock (fst r)))" "view e = Some ((InputBuffer, 2), [72, 105])" by auto
  with borrowed_payloads_stay [of "exampleSession 0" 0 15 buffer NoSimd copyingZlib "fst r" "snd r" e InputBuffer 2 "[72, 105]"]
  have "window (snd r) 2 2 = [72, 105]" by (simp add: r_def buffer_def eval_nat_numeral)
  then show ?thesis by (simp add: r_def buffer_def)
qed

end
