(* ===== verification/Write_Request.thy ===== *)
theory Write_Request
  imports Frame_Header
begin

text \<open>
  \<open>WriteRequest\<close> of the native transport: the parts of one write, where their bytes lie, and the cursor of
  what is still to be sent. A pointer into a part's own string does not survive moving the part (a short
  string lies inside the object): the model makes it \<open>Dangling\<close>, and \<open>prepare\<close> has to repair it. Bytes
  in JavaScript storage (\<open>Foreign\<close>) are taken as constant; what N-API reports about a value is the
  datatype \<open>jsValue\<close>. The scratch space for the vectors and the allocator's free list are left out.
\<close>

definition SIZE_MAX :: nat where "SIZE_MAX = 2 ^ 64 - 1"

section \<open>Parts\<close>

datatype pointer = NullPointer | Foreign "byte list" | InOwned nat | InInline nat | Dangling

record InputPart =
  ip_backingStore :: bool
  ip_owned :: "byte list"
  ip_source :: bool
  ip_pointer :: pointer
  ip_length :: nat
  ip_ownedOffset :: nat

definition emptyPart :: InputPart where
  "emptyPart = \<lparr>ip_backingStore = False, ip_owned = [], ip_source = False, ip_pointer = NullPointer,
                ip_length = 0, ip_ownedOffset = 0\<rparr>"

definition movePart :: "InputPart \<Rightarrow> InputPart" where
  "movePart p = p\<lparr>ip_pointer := (case ip_pointer p of InOwned k \<Rightarrow> Dangling | q \<Rightarrow> q)\<rparr>"

definition assignPart :: "InputPart \<Rightarrow> InputPart \<Rightarrow> InputPart option" where
  "assignPart target p = (if ip_backingStore target then None else Some (movePart p))"

definition retainBackingStore :: "InputPart \<Rightarrow> InputPart" where
  "retainBackingStore p = p\<lparr>ip_backingStore := True, ip_source := False\<rparr>"

section \<open>JavaScript values\<close>

datatype backing = NoBacking | Backing (isResizable: bool)

datatype napi_typedarray_type =
  Int8_array | Uint8_array | Uint8_clamped_array | Int16_array | Uint16_array | Int32_array | Uint32_array
| Float32_array | Float64_array | Bigint64_array | Biguint64_array

datatype jsValue =
  JsBuffer "byte list" backing
| JsTypedArray napi_typedarray_type "byte list" backing
| JsDataView "byte list" backing
| JsArrayBuffer "byte list" backing
| JsString "byte list"
| JsFunction nat
| JsUndefined
| JsNull
| JsOther

definition prepareInputStorage :: "backing \<Rightarrow> byte list \<Rightarrow> InputPart \<Rightarrow> bool \<times> InputPart" where
  "prepareInputStorage b dat p =
     (if b = NoBacking \<and> ip_length p \<noteq> 0 then (False, p)
      else if b \<noteq> NoBacking \<and> isResizable b
      then (True, p\<lparr>ip_owned := take (ip_length p) dat, ip_pointer := InOwned 0\<rparr>)
      else (True, p\<lparr>ip_source := True\<rparr>))"

definition readStringInputPart :: "byte list \<Rightarrow> InputPart \<Rightarrow> bool \<times> InputPart" where
  "readStringInputPart utf8 p =
     (True, p\<lparr>ip_owned := utf8, ip_pointer := InOwned 0, ip_length := length utf8\<rparr>)"

fun elementSize :: "napi_typedarray_type \<Rightarrow> nat" where
  "elementSize Uint16_array = 2"
| "elementSize Int16_array = 2"
| "elementSize Uint32_array = 4"
| "elementSize Int32_array = 4"
| "elementSize Float32_array = 4"
| "elementSize Float64_array = 8"
| "elementSize Bigint64_array = 8"
| "elementSize Biguint64_array = 8"
| "elementSize _ = 1"

fun readInputPart :: "jsValue \<Rightarrow> InputPart \<Rightarrow> bool \<times> InputPart" where
  "readInputPart (JsBuffer dat b) p =
     prepareInputStorage b dat (p\<lparr>ip_pointer := Foreign dat, ip_length := length dat\<rparr>)"
| "readInputPart (JsTypedArray type dat b) p =
     (let elementCount = length dat div elementSize type
      in if elementCount > SIZE_MAX div elementSize type then (False, p)
         else prepareInputStorage b dat
                (p\<lparr>ip_pointer := Foreign dat, ip_length := elementCount * elementSize type\<rparr>))"
| "readInputPart (JsDataView dat b) p =
     prepareInputStorage b dat (p\<lparr>ip_pointer := Foreign dat, ip_length := length dat\<rparr>)"
| "readInputPart (JsArrayBuffer dat b) p =
     prepareInputStorage b dat (p\<lparr>ip_pointer := Foreign dat, ip_length := length dat\<rparr>)"
| "readInputPart (JsString utf8) p = readStringInputPart utf8 p"
| "readInputPart _ p = (False, p)"

section \<open>A write request\<close>

definition INLINE_PARTS :: nat where "INLINE_PARTS = 2"
definition INLINE_BYTES :: nat where "INLINE_BYTES = 1024 + 14"

record WriteRequest =
  wr_inlineParts :: "InputPart list"
  wr_inlineBytes :: "byte list"
  wr_extraParts :: "InputPart list"
  wr_partCount :: nat
  wr_bytes :: nat
  wr_sent :: nat
  wr_cursorPart :: nat
  wr_cursorOffset :: nat
  wr_callback :: "nat option"
  wr_callbackValue :: "nat option"
  wr_deferred :: bool

definition newWriteRequest :: "byte list \<Rightarrow> WriteRequest" where
  "newWriteRequest garbage =
     \<lparr>wr_inlineParts = replicate INLINE_PARTS emptyPart, wr_inlineBytes = garbage, wr_extraParts = [],
      wr_partCount = 0, wr_bytes = 0, wr_sent = 0, wr_cursorPart = 0, wr_cursorOffset = 0,
      wr_callback = None, wr_callbackValue = None, wr_deferred = False\<rparr>"

definition part :: "WriteRequest \<Rightarrow> nat \<Rightarrow> InputPart" where
  "part r index =
     (if index < INLINE_PARTS then wr_inlineParts r ! index else wr_extraParts r ! (index - INLINE_PARTS))"

definition setPart :: "nat \<Rightarrow> InputPart \<Rightarrow> WriteRequest \<Rightarrow> WriteRequest" where
  "setPart index p r =
     (if index < INLINE_PARTS then r\<lparr>wr_inlineParts := (wr_inlineParts r)[index := p]\<rparr>
      else r\<lparr>wr_extraParts := (wr_extraParts r)[index - INLINE_PARTS := p]\<rparr>)"

definition storage :: "WriteRequest \<Rightarrow> InputPart \<Rightarrow> byte list" where
  "storage r p = (case ip_pointer p of
     NullPointer \<Rightarrow> [] | Foreign bs \<Rightarrow> bs | InOwned k \<Rightarrow> drop k (ip_owned p)
   | InInline k \<Rightarrow> drop k (wr_inlineBytes r) | Dangling \<Rightarrow> [])"

text \<open>The bytes behind \<open>pointer\<close> that a copy of \<open>length\<close> bytes reads.\<close>

definition partData :: "WriteRequest \<Rightarrow> InputPart \<Rightarrow> byte list" where
  "partData r p = take (ip_length p) (storage r p)"

definition appendPart :: "WriteRequest \<Rightarrow> WriteRequest" where
  "appendPart r =
     (if wr_partCount r < INLINE_PARTS then r\<lparr>wr_partCount := wr_partCount r + 1\<rparr>
      else r\<lparr>wr_extraParts := map movePart (wr_extraParts r) @ [emptyPart], wr_partCount := wr_partCount r + 1\<rparr>)"

definition removeLastPart :: "WriteRequest \<Rightarrow> WriteRequest" where
  "removeLastPart r =
     (let r = (if wr_partCount r > INLINE_PARTS then r\<lparr>wr_extraParts := butlast (wr_extraParts r)\<rparr> else r)
      in if wr_partCount r \<noteq> 0 then r\<lparr>wr_partCount := wr_partCount r - 1\<rparr> else r)"

definition clearParts :: "WriteRequest \<Rightarrow> WriteRequest" where
  "clearParts r =
     (let r = fold (\<lambda>index. setPart index emptyPart) [0..<wr_partCount r] r
      in r\<lparr>wr_extraParts := [], wr_partCount := 0, wr_cursorPart := 0, wr_cursorOffset := 0\<rparr>)"

definition retainCallback :: "jsValue \<Rightarrow> WriteRequest \<Rightarrow> bool \<times> WriteRequest" where
  "retainCallback value r =
     (case value of
        JsUndefined \<Rightarrow> (True, r)
      | JsNull \<Rightarrow> (True, r)
      | JsFunction f \<Rightarrow> (True, r\<lparr>wr_callbackValue := Some f\<rparr>)
      | _ \<Rightarrow> (False, r))"

definition retainRemainingInputs :: "WriteRequest \<Rightarrow> WriteRequest" where
  "retainRemainingInputs r =
     fold (\<lambda>index r. if ip_source (part r index) then setPart index (retainBackingStore (part r index)) r else r)
       [wr_cursorPart r..<wr_partCount r] r"

text \<open>\<open>granted\<close> says whether the callback reference can be created.\<close>

definition wr_defer :: "bool \<Rightarrow> WriteRequest \<Rightarrow> bool \<times> WriteRequest" where
  "wr_defer granted r =
     (if wr_deferred r then (True, r)
      else let r = retainRemainingInputs r
      in if wr_callbackValue r \<noteq> None \<and> \<not> granted then (False, r\<lparr>wr_callbackValue := None\<rparr>)
         else (True, r\<lparr>wr_callback := (if wr_callbackValue r \<noteq> None then wr_callbackValue r else wr_callback r),
                       wr_callbackValue := None, wr_deferred := True\<rparr>))"

definition addOwned :: "byte list \<Rightarrow> WriteRequest \<Rightarrow> WriteRequest" where
  "addOwned value r =
     (let index = wr_partCount r; r = appendPart r
      in setPart index ((part r index)\<lparr>ip_owned := value, ip_pointer := InOwned 0, ip_length := length value\<rparr>) r)"

definition addPart :: "(InputPart \<Rightarrow> bool \<times> InputPart) \<Rightarrow> WriteRequest \<Rightarrow> bool \<times> WriteRequest" where
  "addPart reader r =
     (let index = wr_partCount r; r = appendPart r; (ok, p) = reader (part r index)
      in if ok then (True, setPart index p r)
         else (False, removeLastPart (setPart index emptyPart r)))"

definition addInput :: "jsValue \<Rightarrow> WriteRequest \<Rightarrow> bool \<times> WriteRequest" where
  "addInput value = addPart (readInputPart value)"

text \<open>\<open>napi_get_value_string_utf8\<close> refuses what is not a string.\<close>

definition addTextInput :: "jsValue \<Rightarrow> WriteRequest \<Rightarrow> bool \<times> WriteRequest" where
  "addTextInput value = addPart (\<lambda>p. case value of JsString utf8 \<Rightarrow> readStringInputPart utf8 p | _ \<Rightarrow> (False, p))"

text \<open>The third component is \<open>framed\<close>.\<close>

definition addSmallTextFrame :: "jsValue \<Rightarrow> OpCode \<Rightarrow> WriteRequest \<Rightarrow> bool \<times> WriteRequest \<times> bool" where
  "addSmallTextFrame value opc r =
     (case value of
        JsString utf8 \<Rightarrow>
          (let payLength = length utf8;
               headerLength = (if payLength < 126 then 2 else if payLength \<le> 0xffff then 4 else 10)
           in if payLength > length (wr_inlineBytes r) - headerLength
              then (let (ok, r) = addTextInput value r in (ok, r, False))
              else let r = r\<lparr>wr_inlineBytes := blit (wr_inlineBytes r) 0 (frameHeader payLength opc @ utf8)\<rparr>;
                       index = wr_partCount r; r = appendPart r
                   in (True, setPart index ((part r index)\<lparr>ip_pointer := InInline 0, ip_length := headerLength + payLength\<rparr>) r, True))
      | _ \<Rightarrow> (let (ok, r) = addTextInput value r in (ok, r, False)))"

text \<open>\<open>None\<close> is \<open>std::abort\<close>.\<close>

definition prependOwned :: "byte list \<Rightarrow> WriteRequest \<Rightarrow> WriteRequest option" where
  "prependOwned value r =
     (if wr_partCount r = 0 then Some (addOwned value r)
      else if wr_partCount r \<noteq> 1 then None
      else case assignPart (wr_inlineParts r ! 1) (wr_inlineParts r ! 0) of
        None \<Rightarrow> None
      | Some p \<Rightarrow>
          Some (r\<lparr>wr_inlineParts := [emptyPart\<lparr>ip_owned := value, ip_pointer := InOwned 0, ip_length := length value\<rparr>, p],
                  wr_partCount := 2\<rparr>))"

function skipEmptyParts :: "WriteRequest \<Rightarrow> WriteRequest" where
  "skipEmptyParts r =
     (if wr_cursorPart r < wr_partCount r \<and> ip_length (part r (wr_cursorPart r)) = 0
      then skipEmptyParts ((setPart (wr_cursorPart r) emptyPart r)\<lparr>wr_cursorPart := wr_cursorPart r + 1\<rparr>)
      else r)"
  by pat_completeness auto
termination
  by (relation "measure (\<lambda>r. wr_partCount r - wr_cursorPart r)") (auto simp: setPart_def)

declare skipEmptyParts.simps [simp del]

definition repairPointer :: "InputPart \<Rightarrow> InputPart" where
  "repairPointer p = (if ip_owned p \<noteq> [] then p\<lparr>ip_pointer := InOwned (ip_ownedOffset p)\<rparr> else p)"

text \<open>The first test stands for the range of \<open>size_t\<close>: a longer part is as good as a sum out of range.\<close>

primrec prepareParts :: "nat list \<Rightarrow> WriteRequest \<Rightarrow> bool \<times> WriteRequest" where
  "prepareParts [] r = (True, r)"
| "prepareParts (index # indices) r =
     (let r = setPart index (repairPointer (part r index)) r; n = ip_length (part r index)
      in if n > SIZE_MAX \<or> wr_bytes r > SIZE_MAX - n then (False, r)
         else prepareParts indices (r\<lparr>wr_bytes := wr_bytes r + n\<rparr>))"

definition prepare :: "WriteRequest \<Rightarrow> bool \<times> WriteRequest" where
  "prepare r =
     (let (ok, r) = prepareParts [0..<wr_partCount r] (r\<lparr>wr_bytes := 0, wr_cursorPart := 0, wr_cursorOffset := 0\<rparr>)
      in if \<not> ok then (False, r)
         else let r = skipEmptyParts r in (wr_partCount r \<noteq> 0, r))"

text \<open>The parts are copied one after the other into the request's inline storage.\<close>

primrec copyInline :: "nat list \<Rightarrow> nat \<Rightarrow> WriteRequest \<Rightarrow> nat \<times> WriteRequest" where
  "copyInline [] offset r = (offset, r)"
| "copyInline (index # indices) offset r =
     (let p = part r index
      in if ip_length p \<noteq> 0
         then copyInline indices (offset + ip_length p)
                (r\<lparr>wr_inlineBytes := blit (wr_inlineBytes r) offset (partData r p)\<rparr>)
         else copyInline indices offset r)"

primrec copyCombined :: "WriteRequest \<Rightarrow> nat list \<Rightarrow> nat \<Rightarrow> byte list \<Rightarrow> byte list" where
  "copyCombined r [] offset combined = combined"
| "copyCombined r (index # indices) offset combined =
     (let p = part r index
      in if ip_length p \<noteq> 0
         then copyCombined r indices (offset + ip_length p) (blit combined offset (partData r p))
         else copyCombined r indices offset combined)"

definition flatten :: "WriteRequest \<Rightarrow> bool \<times> WriteRequest" where
  "flatten r =
     (if wr_partCount r \<le> 1 then (True, r)
      else if wr_bytes r \<le> length (wr_inlineBytes r) then
        (let (offset, r) = copyInline [0..<wr_partCount r] 0 r;
             r = clearParts r;
             index = wr_partCount r;
             r = appendPart r
         in prepare (setPart index ((part r index)\<lparr>ip_pointer := InInline 0, ip_length := offset\<rparr>) r))
      else
        (let combined = copyCombined r [0..<wr_partCount r] 0 (replicate (wr_bytes r) 0)
         in prepare (addOwned combined (clearParts r))))"

primrec copyPrefix :: "WriteRequest \<Rightarrow> nat \<Rightarrow> nat list \<Rightarrow> nat \<Rightarrow> byte list \<Rightarrow> nat \<times> byte list" where
  "copyPrefix r prefixLength [] copied prefix = (copied, prefix)"
| "copyPrefix r prefixLength (index # indices) copied prefix =
     (if copied < prefixLength then
        (let p = part r index; n = min (ip_length p) (prefixLength - copied)
         in copyPrefix r prefixLength indices (copied + n)
              (if n \<noteq> 0 then blit prefix copied (take n (storage r p)) else prefix))
      else (copied, prefix))"

fun bump :: "nat \<Rightarrow> pointer \<Rightarrow> pointer" where
  "bump n (Foreign bs) = Foreign (drop n bs)"
| "bump n (InOwned k) = InOwned (k + n)"
| "bump n (InInline k) = InInline (k + n)"
| "bump n p = p"

text \<open>The parts behind the prefix are appended again.\<close>

primrec restoreParts :: "nat \<Rightarrow> InputPart list \<Rightarrow> WriteRequest \<Rightarrow> WriteRequest option" where
  "restoreParts skip [] r = Some r"
| "restoreParts skip (p # ps) r =
     (if skip \<ge> ip_length p then restoreParts (skip - ip_length p) ps r
      else let p = (if skip \<noteq> 0
                    then p\<lparr>ip_pointer := bump skip (ip_pointer p), ip_length := ip_length p - skip,
                           ip_ownedOffset := (if ip_owned p \<noteq> [] then ip_ownedOffset p + skip else ip_ownedOffset p)\<rparr>
                    else p);
               index = wr_partCount r; r = appendPart r
           in case assignPart (part r index) p of
                None \<Rightarrow> None
              | Some q \<Rightarrow> restoreParts 0 ps (setPart index q r))"

definition coalescePrefix :: "nat \<Rightarrow> WriteRequest \<Rightarrow> (bool \<times> WriteRequest) option" where
  "coalescePrefix prefixLength r =
     (if wr_partCount r \<le> 1 \<or> prefixLength \<ge> wr_bytes r then Some (flatten r)
      else let (copied, prefix) = copyPrefix r prefixLength [0..<wr_partCount r] 0 (replicate prefixLength 0)
      in if copied \<noteq> prefixLength then Some (False, r)
      else let original = map (\<lambda>index. movePart (part r index)) [0..<wr_partCount r];
               r = fold (\<lambda>index. setPart index emptyPart) [0..<wr_partCount r] r;
               r = r\<lparr>wr_extraParts := [], wr_partCount := 0, wr_cursorPart := 0, wr_cursorOffset := 0\<rparr>
           in map_option prepare (restoreParts prefixLength original (addOwned prefix r)))"

section \<open>The cursor\<close>

text \<open>The vectors handed to \<open>sendmsg\<close>, as the bytes they designate.\<close>

definition remainingIovecs :: "nat \<Rightarrow> WriteRequest \<Rightarrow> byte list list" where
  "remainingIovecs maximumIOVectors r =
     (let count = min (wr_partCount r - wr_cursorPart r) maximumIOVectors
      in map (\<lambda>index. let p = part r index; offset = (if index = wr_cursorPart r then wr_cursorOffset r else 0)
                      in take (ip_length p - offset) (drop offset (storage r p)))
           [wr_cursorPart r..<wr_cursorPart r + count])"

definition remainingPartBytes :: "WriteRequest \<Rightarrow> nat" where
  "remainingPartBytes r = ip_length (part r (wr_cursorPart r)) - wr_cursorOffset r"

definition remainingData :: "WriteRequest \<Rightarrow> byte list" where
  "remainingData r = drop (wr_cursorOffset r) (storage r (part r (wr_cursorPart r)))"

definition wr_remainingBytes :: "WriteRequest \<Rightarrow> nat" where
  "wr_remainingBytes r = wr_bytes r - wr_sent r"

definition unstagedBytes :: "nat \<Rightarrow> WriteRequest \<Rightarrow> nat" where
  "unstagedBytes staged r = wr_bytes r - wr_sent r - staged"

function advanceCursor :: "nat \<Rightarrow> WriteRequest \<Rightarrow> WriteRequest" where
  "advanceCursor n r =
     (if n \<noteq> 0 \<and> wr_cursorPart r < wr_partCount r then
        (let available = ip_length (part r (wr_cursorPart r)) - wr_cursorOffset r
         in if n < available then r\<lparr>wr_cursorOffset := wr_cursorOffset r + n\<rparr>
            else advanceCursor (n - available)
                   ((setPart (wr_cursorPart r) emptyPart r)\<lparr>wr_cursorPart := wr_cursorPart r + 1, wr_cursorOffset := 0\<rparr>))
      else skipEmptyParts r)"
  by pat_completeness auto
termination
  by (relation "measure (\<lambda>(n, r). wr_partCount r - wr_cursorPart r)") (auto simp: setPart_def)

declare advanceCursor.simps [simp del]

definition advance :: "nat \<Rightarrow> WriteRequest \<Rightarrow> WriteRequest" where
  "advance n r = advanceCursor n (r\<lparr>wr_sent := wr_sent r + n\<rparr>)"

definition stageTLS :: "nat \<Rightarrow> WriteRequest \<Rightarrow> WriteRequest" where
  "stageTLS n r = advanceCursor n r"

definition commitTLS :: "nat \<Rightarrow> WriteRequest \<Rightarrow> WriteRequest" where
  "commitTLS n r = r\<lparr>wr_sent := wr_sent r + n\<rparr>"

section \<open>The parts as a list\<close>

definition parts :: "WriteRequest \<Rightarrow> InputPart list" where
  "parts r = map (part r) [0..<wr_partCount r]"

definition shaped :: "WriteRequest \<Rightarrow> bool" where
  "shaped r \<longleftrightarrow> length (wr_inlineParts r) = INLINE_PARTS \<and> length (wr_inlineBytes r) = INLINE_BYTES \<and>
     length (wr_extraParts r) = wr_partCount r - INLINE_PARTS \<and>
     (\<forall>index. wr_partCount r \<le> index \<and> index < INLINE_PARTS \<longrightarrow> wr_inlineParts r ! index = emptyPart)"

lemma length_parts [simp]: "length (parts r) = wr_partCount r"
  by (simp add: parts_def)

lemma nth_parts [simp]: "index < wr_partCount r \<Longrightarrow> parts r ! index = part r index"
  by (simp add: parts_def)

lemma setPart_fields [simp]:
  "wr_partCount (setPart index p r) = wr_partCount r" "wr_bytes (setPart index p r) = wr_bytes r"
  "wr_sent (setPart index p r) = wr_sent r" "wr_cursorPart (setPart index p r) = wr_cursorPart r"
  "wr_cursorOffset (setPart index p r) = wr_cursorOffset r" "wr_inlineBytes (setPart index p r) = wr_inlineBytes r"
  "wr_callback (setPart index p r) = wr_callback r" "wr_callbackValue (setPart index p r) = wr_callbackValue r"
  "wr_deferred (setPart index p r) = wr_deferred r"
  by (simp_all add: setPart_def)

lemma part_setPart:
  "shaped r \<Longrightarrow> index < wr_partCount r \<Longrightarrow> part (setPart index p r) j = (if j = index then p else part r j)"
  by (auto simp: part_def setPart_def shaped_def INLINE_PARTS_def nth_list_update)

lemma shaped_setPart [simp]: "shaped r \<Longrightarrow> index < wr_partCount r \<Longrightarrow> shaped (setPart index p r)"
  by (auto simp: setPart_def shaped_def INLINE_PARTS_def nth_list_update)

lemma parts_setPart [simp]:
  "shaped r \<Longrightarrow> index < wr_partCount r \<Longrightarrow> parts (setPart index p r) = (parts r)[index := p]"
  by (rule nth_equalityI) (auto simp: part_setPart nth_list_update)

lemma storage_setPart [simp]: "storage (setPart index p r) = storage r" "partData (setPart index p r) = partData r"
  by (auto simp: storage_def partData_def fun_eq_iff split: pointer.split)

lemma shaped_cursor [simp]:
  "shaped (r\<lparr>wr_cursorPart := a\<rparr>) = shaped r" "shaped (r\<lparr>wr_cursorOffset := a\<rparr>) = shaped r"
  "shaped (r\<lparr>wr_bytes := a\<rparr>) = shaped r" "shaped (r\<lparr>wr_sent := a\<rparr>) = shaped r"
  "parts (r\<lparr>wr_cursorPart := a\<rparr>) = parts r" "parts (r\<lparr>wr_cursorOffset := a\<rparr>) = parts r"
  "parts (r\<lparr>wr_bytes := a\<rparr>) = parts r" "parts (r\<lparr>wr_sent := a\<rparr>) = parts r"
  "part (r\<lparr>wr_cursorPart := a\<rparr>) = part r" "part (r\<lparr>wr_cursorOffset := a\<rparr>) = part r"
  "part (r\<lparr>wr_bytes := a\<rparr>) = part r" "part (r\<lparr>wr_sent := a\<rparr>) = part r"
  by (simp_all add: shaped_def parts_def part_def fun_eq_iff)

lemma storage_cursor [simp]:
  "storage (r\<lparr>wr_cursorPart := a\<rparr>) = storage r" "storage (r\<lparr>wr_cursorOffset := a\<rparr>) = storage r"
  "storage (r\<lparr>wr_bytes := a\<rparr>) = storage r" "storage (r\<lparr>wr_sent := a\<rparr>) = storage r"
  "partData (r\<lparr>wr_cursorPart := a\<rparr>) = partData r" "partData (r\<lparr>wr_cursorOffset := a\<rparr>) = partData r"
  "partData (r\<lparr>wr_bytes := a\<rparr>) = partData r" "partData (r\<lparr>wr_sent := a\<rparr>) = partData r"
  by (auto simp: storage_def partData_def fun_eq_iff split: pointer.split)

section \<open>What remains to be sent\<close>

definition remaining :: "WriteRequest \<Rightarrow> byte list" where
  "remaining r = drop (wr_cursorOffset r) (concat (map (partData r) (drop (wr_cursorPart r) (parts r))))"

text \<open>
  A request on its way: what the cursor has not passed can be read, and the cursor stands inside a
  non-empty part or at the end.
\<close>

definition live :: "WriteRequest \<Rightarrow> bool" where
  "live r \<longleftrightarrow> shaped r \<and> wr_cursorPart r \<le> wr_partCount r \<and>
     (\<forall>p \<in> set (drop (wr_cursorPart r) (parts r)). ip_length p \<le> length (storage r p)) \<and>
     (if wr_cursorPart r < wr_partCount r then wr_cursorOffset r < ip_length (part r (wr_cursorPart r))
      else wr_cursorOffset r = 0)"

text \<open>The same, but the cursor may stand before empty parts.\<close>

definition arriving :: "WriteRequest \<Rightarrow> bool" where
  "arriving r \<longleftrightarrow> shaped r \<and> wr_cursorPart r \<le> wr_partCount r \<and>
     (\<forall>p \<in> set (drop (wr_cursorPart r) (parts r)). ip_length p \<le> length (storage r p)) \<and> wr_cursorOffset r = 0"

lemma drop_cursor:
  "index < wr_partCount r \<Longrightarrow> drop index (parts r) = part r index # drop (Suc index) (parts r)"
  by (simp add: Cons_nth_drop_Suc [symmetric])

lemma skipEmptyParts_ok:
  "arriving r \<Longrightarrow> live (skipEmptyParts r) \<and> remaining (skipEmptyParts r) = remaining r \<and>
     wr_cursorOffset (skipEmptyParts r) = 0 \<and> wr_bytes (skipEmptyParts r) = wr_bytes r \<and> wr_sent (skipEmptyParts r) = wr_sent r \<and>
     wr_partCount (skipEmptyParts r) = wr_partCount r \<and> wr_callback (skipEmptyParts r) = wr_callback r \<and>
     wr_callbackValue (skipEmptyParts r) = wr_callbackValue r \<and> wr_deferred (skipEmptyParts r) = wr_deferred r"
proof (induction r rule: skipEmptyParts.induct)
  case (1 r)
  show ?case
  proof (cases "wr_cursorPart r < wr_partCount r \<and> ip_length (part r (wr_cursorPart r)) = 0")
    case True
    let ?r = "(setPart (wr_cursorPart r) emptyPart r)\<lparr>wr_cursorPart := wr_cursorPart r + 1\<rparr>"
    have d: "drop (wr_cursorPart r) (parts r) = part r (wr_cursorPart r) # drop (Suc (wr_cursorPart r)) (parts r)"
      using True by (intro drop_cursor) simp
    have "arriving ?r" using "1.prems" True by (auto simp: arriving_def d)
    moreover have "remaining ?r = remaining r"
      using "1.prems" True by (simp add: remaining_def arriving_def d) (simp add: partData_def)
    ultimately show ?thesis
      using "1.IH" True by (subst (1 2 3 4 5 6 7 8 9) skipEmptyParts.simps) simp
  next
    case False
    with "1.prems" show ?thesis
      by (subst (1 2 3 4 5 6 7 8 9) skipEmptyParts.simps) (auto simp: live_def arriving_def)
  qed
qed

lemma length_partData: "ip_length p \<le> length (storage r p) \<Longrightarrow> length (partData r p) = ip_length p"
  by (simp add: partData_def)

text \<open>Both at once, for the loop of \<open>advanceCursor\<close>.\<close>

definition advancing :: "WriteRequest \<Rightarrow> bool" where
  "advancing r \<longleftrightarrow> shaped r \<and> wr_cursorPart r \<le> wr_partCount r \<and>
     (\<forall>p \<in> set (drop (wr_cursorPart r) (parts r)). ip_length p \<le> length (storage r p)) \<and>
     (wr_cursorOffset r = 0 \<or> wr_cursorPart r < wr_partCount r \<and> wr_cursorOffset r < ip_length (part r (wr_cursorPart r)))"

lemma advancing_cases: "advancing r \<longleftrightarrow> live r \<or> arriving r"
  by (auto simp: advancing_def live_def arriving_def)

lemma skipEmptyParts_live: "live r \<Longrightarrow> skipEmptyParts r = r"
  by (subst skipEmptyParts.simps) (auto simp: live_def)

lemma advanceCursor_ok:
  "advancing r \<Longrightarrow> n \<le> length (remaining r) \<Longrightarrow>
   live (advanceCursor n r) \<and> remaining (advanceCursor n r) = drop n (remaining r) \<and>
   wr_bytes (advanceCursor n r) = wr_bytes r \<and> wr_sent (advanceCursor n r) = wr_sent r \<and>
   wr_partCount (advanceCursor n r) = wr_partCount r \<and> wr_callback (advanceCursor n r) = wr_callback r \<and>
   wr_callbackValue (advanceCursor n r) = wr_callbackValue r \<and> wr_deferred (advanceCursor n r) = wr_deferred r"
proof (induction n r rule: advanceCursor.induct)
  case (1 n r)
  let ?c = "wr_cursorPart r"
  let ?available = "ip_length (part r ?c) - wr_cursorOffset r"
  consider (stay) "n \<noteq> 0 \<and> ?c < wr_partCount r" "n < ?available" | (pass) "n \<noteq> 0 \<and> ?c < wr_partCount r" "\<not> n < ?available"
    | (finish) "\<not> (n \<noteq> 0 \<and> ?c < wr_partCount r)" by blast
  then show ?case
  proof cases
    case stay
    then have "advanceCursor n r = r\<lparr>wr_cursorOffset := wr_cursorOffset r + n\<rparr>"
      by (subst advanceCursor.simps) (simp add: Let_def)
    with "1.prems" stay show ?thesis by (simp add: live_def advancing_def remaining_def add.commute)
  next
    case pass
    let ?r = "(setPart ?c emptyPart r)\<lparr>wr_cursorPart := ?c + 1, wr_cursorOffset := 0\<rparr>"
    have e: "advanceCursor n r = advanceCursor (n - ?available) ?r"
      using pass by (subst advanceCursor.simps) (simp add: Let_def)
    have d: "drop ?c (parts r) = part r ?c # drop (Suc ?c) (parts r)" using pass by (intro drop_cursor) simp
    have l: "shaped r" "ip_length (part r ?c) \<le> length (storage r (part r ?c))" "wr_cursorOffset r \<le> ip_length (part r ?c)"
      using "1.prems"(1) pass by (auto simp: advancing_def d)
    have rem: "remaining r = drop (wr_cursorOffset r) (partData r (part r ?c)) @ concat (map (partData r) (drop (Suc ?c) (parts r)))"
      using l length_partData [OF l(2)] by (simp add: remaining_def d)
    have rem': "remaining ?r = concat (map (partData r) (drop (Suc ?c) (parts r)))"
      using pass l by (simp add: remaining_def)
    have "advancing ?r" using "1.prems"(1) pass by (auto simp: advancing_def d)
    moreover have "drop n (remaining r) = drop (n - ?available) (remaining ?r)" "n - ?available \<le> length (remaining ?r)"
      using pass "1.prems"(2) length_partData [OF l(2)] unfolding rem rem' by simp_all
    ultimately show ?thesis using "1.IH" [OF _ refl] pass by (simp add: e)
  next
    case finish
    then have e: "advanceCursor n r = skipEmptyParts r"
      by (subst advanceCursor.simps) auto
    have "n = 0"
      using finish "1.prems" by (auto simp: advancing_def remaining_def)
    from "1.prems"(1) consider "live r" | "arriving r" by (auto simp: advancing_cases)
    then show ?thesis
    proof cases
      case 1
      with \<open>n = 0\<close> show ?thesis unfolding e by (simp add: skipEmptyParts_live)
    next
      case 2
      from skipEmptyParts_ok [OF this] \<open>n = 0\<close> show ?thesis unfolding e by simp
    qed
  qed
qed

lemma live_fields [simp]:
  "live (r\<lparr>wr_sent := n\<rparr>) = live r" "remaining (r\<lparr>wr_sent := n\<rparr>) = remaining r"
  by (simp_all add: live_def remaining_def)

lemma advance_ok:
  assumes "live r" "n \<le> length (remaining r)"
  shows "live (advance n r)" "remaining (advance n r) = drop n (remaining r)" "wr_bytes (advance n r) = wr_bytes r"
    "wr_sent (advance n r) = wr_sent r + n" "wr_callback (advance n r) = wr_callback r"
    "wr_deferred (advance n r) = wr_deferred r" "wr_callbackValue (advance n r) = wr_callbackValue r"
  using advanceCursor_ok [of "r\<lparr>wr_sent := wr_sent r + n\<rparr>" n] assms by (simp_all add: advance_def advancing_cases)

lemma stageTLS_ok:
  assumes "live r" "n \<le> length (remaining r)"
  shows "live (stageTLS n r)" "remaining (stageTLS n r) = drop n (remaining r)" "wr_bytes (stageTLS n r) = wr_bytes r"
    "wr_sent (stageTLS n r) = wr_sent r" "wr_callback (stageTLS n r) = wr_callback r"
    "wr_deferred (stageTLS n r) = wr_deferred r" "wr_callbackValue (stageTLS n r) = wr_callbackValue r"
  using advanceCursor_ok [of r n] assms by (simp_all add: stageTLS_def advancing_cases)

section \<open>The vectors\<close>

lemma remaining_split:
  assumes "live r" "wr_cursorPart r < wr_partCount r"
  shows "remaining r = drop (wr_cursorOffset r) (partData r (part r (wr_cursorPart r))) @
    concat (map (partData r) (drop (Suc (wr_cursorPart r)) (parts r)))"
proof -
  have d: "drop (wr_cursorPart r) (parts r) = part r (wr_cursorPart r) # drop (Suc (wr_cursorPart r)) (parts r)"
    using assms(2) by (rule drop_cursor)
  with assms have "wr_cursorOffset r \<le> length (partData r (part r (wr_cursorPart r)))"
    by (simp add: live_def partData_def)
  with d show ?thesis by (simp add: remaining_def)
qed

lemma remaining_Nil: "live r \<Longrightarrow> remaining r = [] \<longleftrightarrow> wr_cursorPart r = wr_partCount r"
proof -
  assume l: "live r"
  show ?thesis
  proof (cases "wr_cursorPart r < wr_partCount r")
    case True
    have d: "drop (wr_cursorPart r) (parts r) = part r (wr_cursorPart r) # drop (Suc (wr_cursorPart r)) (parts r)"
      using True by (rule drop_cursor)
    have "drop (wr_cursorOffset r) (partData r (part r (wr_cursorPart r))) \<noteq> []"
      using l True by (simp add: live_def d partData_def)
    with True remaining_split [OF l True] show ?thesis by simp
  next
    case False
    with l show ?thesis by (simp add: live_def remaining_def)
  qed
qed

text \<open>What \<open>SSL_write_ex\<close> is given lies in the first part.\<close>

lemma remainingData_ok:
  assumes "live r" "remaining r \<noteq> []"
  shows "0 < remainingPartBytes r" "remainingPartBytes r \<le> length (remaining r)"
    "n \<le> remainingPartBytes r \<Longrightarrow> take n (remainingData r) = take n (remaining r)"
proof -
  have c: "wr_cursorPart r < wr_partCount r" using assms remaining_Nil [of r] by (auto simp: live_def)
  have d: "drop (wr_cursorPart r) (parts r) = part r (wr_cursorPart r) # drop (Suc (wr_cursorPart r)) (parts r)"
    using c by (rule drop_cursor)
  have l: "ip_length (part r (wr_cursorPart r)) \<le> length (storage r (part r (wr_cursorPart r)))"
    using assms(1) c by (simp add: live_def d)
  show "0 < remainingPartBytes r" using assms(1) c by (simp add: remainingPartBytes_def live_def)
  show "remainingPartBytes r \<le> length (remaining r)"
    using remaining_split [OF assms(1) c] length_partData [OF l] by (simp add: remainingPartBytes_def)
  show "take n (remainingData r) = take n (remaining r)" if "n \<le> remainingPartBytes r"
  proof -
    have "n \<le> length (storage r (part r (wr_cursorPart r))) - wr_cursorOffset r"
      using that l by (simp add: remainingPartBytes_def)
    then show ?thesis
      using remaining_split [OF assms(1) c] that
      by (simp add: remainingPartBytes_def remainingData_def partData_def drop_take min_def)
  qed
qed

lemma remainingIovecs_ok:
  assumes "live r" "0 < limit"
  shows "\<exists>k. concat (remainingIovecs limit r) = take k (remaining r) \<and>
    (remaining r \<noteq> [] \<longrightarrow> concat (remainingIovecs limit r) \<noteq> []) \<and>
    (wr_partCount r - wr_cursorPart r \<le> limit \<longrightarrow> concat (remainingIovecs limit r) = remaining r)"
proof (cases "wr_cursorPart r < wr_partCount r")
  case False
  with assms show ?thesis by (simp add: remainingIovecs_def Let_def live_def remaining_def)
next
  case True
  let ?c = "wr_cursorPart r"
  define count where "count = min (wr_partCount r - ?c) limit"
  have count: "0 < count" "?c + count \<le> wr_partCount r" using True assms(2) by (auto simp: count_def)
  let ?d = "drop (wr_cursorOffset r) (partData r (part r ?c))"
  let ?more = "map (partData r) (take (count - 1) (drop (Suc ?c) (parts r)))"
  have up: "[?c..<?c + count] = ?c # [Suc ?c..<?c + count]" using count by (simp add: upt_conv_Cons)
  have "map (\<lambda>index. let p = part r index; offset = (if index = ?c then wr_cursorOffset r else 0)
                      in take (ip_length p - offset) (drop offset (storage r p))) [Suc ?c..<?c + count] =
     map (\<lambda>index. partData r (part r index)) [Suc ?c..<?c + count]"
    by (auto simp: partData_def Let_def)
  also have "\<dots> = ?more"
    using count by (intro nth_equalityI) (auto simp: add.commute add.left_commute)
  finally have v: "remainingIovecs limit r = ?d # ?more"
    using up by (simp add: remainingIovecs_def Let_def flip: count_def) (simp add: partData_def drop_take)
  let ?tail = "drop (count - 1) (drop (Suc ?c) (parts r))"
  have rem: "remaining r = concat (remainingIovecs limit r) @ concat (map (partData r) ?tail)"
    using remaining_split [OF assms(1) True] unfolding v
    by (metis append_assoc append_take_drop_id concat.simps(2) concat_append map_append)
  have "?d \<noteq> []"
  proof -
    have "drop ?c (parts r) = part r ?c # drop (Suc ?c) (parts r)" using True by (rule drop_cursor)
    with assms(1) True show ?thesis by (simp add: live_def partData_def)
  qed
  then have "concat (remainingIovecs limit r) \<noteq> []" by (simp add: v)
  moreover have "wr_partCount r - ?c \<le> limit \<Longrightarrow> ?tail = []" by (simp add: count_def)
  moreover have "concat (remainingIovecs limit r) = take (length (concat (remainingIovecs limit r))) (remaining r)"
    using rem by (metis append_eq_conv_conj)
  ultimately show ?thesis using rem by (metis append_Nil2 concat.simps(1) list.simps(8))
qed

section \<open>Building a request\<close>

text \<open>The bytes of a part once its pointer is repaired.\<close>

definition whole :: "WriteRequest \<Rightarrow> InputPart \<Rightarrow> byte list" where
  "whole r p = take (ip_length p) (storage r (repairPointer p))"

definition intact :: "WriteRequest \<Rightarrow> InputPart \<Rightarrow> bool" where
  "intact r p \<longleftrightarrow> ip_length p \<le> length (storage r (repairPointer p))"

definition content :: "WriteRequest \<Rightarrow> byte list" where
  "content r = concat (map (whole r) (parts r))"

definition building :: "WriteRequest \<Rightarrow> bool" where
  "building r \<longleftrightarrow> shaped r \<and> list_all (intact r) (parts r)"

lemma repair_move: "ip_owned p \<noteq> [] \<or> (\<forall>k. ip_pointer p \<noteq> InOwned k) \<Longrightarrow> storage r (repairPointer (movePart p)) = storage r (repairPointer p)"
  by (auto simp: repairPointer_def movePart_def storage_def split: pointer.split)

lemma whole_move [simp]: "whole r (movePart p) = whole r p" "intact r (movePart p) = intact r p"
  by (auto simp: whole_def intact_def repairPointer_def movePart_def storage_def split: pointer.split)

lemma emptyPart_simps [simp]:
  "ip_length emptyPart = 0" "whole r emptyPart = []" "intact r emptyPart" "ip_ownedOffset emptyPart = 0"
  "\<not> ip_backingStore emptyPart" "partData r emptyPart = []" "repairPointer emptyPart = emptyPart"
  by (simp_all add: emptyPart_def whole_def intact_def partData_def repairPointer_def)

lemma inline_parts:
  assumes "shaped r"
  shows "parts r = take (wr_partCount r) (wr_inlineParts r) @ wr_extraParts r"
  using assms
  by (intro nth_equalityI) (auto simp: shaped_def part_def nth_append INLINE_PARTS_def min_def)

lemma appendPart_fields [simp]:
  "wr_partCount (appendPart r) = Suc (wr_partCount r)" "wr_bytes (appendPart r) = wr_bytes r"
  "wr_sent (appendPart r) = wr_sent r" "wr_inlineBytes (appendPart r) = wr_inlineBytes r"
  "wr_callback (appendPart r) = wr_callback r" "wr_callbackValue (appendPart r) = wr_callbackValue r"
  "wr_deferred (appendPart r) = wr_deferred r"
  by (simp_all add: appendPart_def)

lemma storage_cong: "wr_inlineBytes r = wr_inlineBytes r' \<Longrightarrow> storage r = storage r'"
  by (auto simp: storage_def fun_eq_iff split: pointer.split)

lemma whole_cong: "wr_inlineBytes r = wr_inlineBytes r' \<Longrightarrow> whole r = whole r'" "wr_inlineBytes r = wr_inlineBytes r' \<Longrightarrow> intact r = intact r'"
  by (simp_all add: whole_def intact_def fun_eq_iff storage_cong [of r r'])

lemma whole_appendPart [simp]: "whole (appendPart r) = whole r" "intact (appendPart r) = intact r"
  "whole (setPart index p r) = whole r" "intact (setPart index p r) = intact r"
  by (rule whole_cong; simp)+

lemma appendPart_shaped:
  assumes "shaped r"
  shows "shaped (appendPart r)" "part (appendPart r) (wr_partCount r) = emptyPart"
    "parts (appendPart r) = take INLINE_PARTS (parts r) @ map movePart (drop INLINE_PARTS (parts r)) @ [emptyPart]"
proof -
  show s: "shaped (appendPart r)" using assms by (auto simp: shaped_def appendPart_def INLINE_PARTS_def)
  show "part (appendPart r) (wr_partCount r) = emptyPart"
    using assms by (auto simp: shaped_def appendPart_def part_def INLINE_PARTS_def nth_append)
  show "parts (appendPart r) = take INLINE_PARTS (parts r) @ map movePart (drop INLINE_PARTS (parts r)) @ [emptyPart]"
  proof (cases "wr_partCount r < INLINE_PARTS")
    case True
    with assms have e: "wr_extraParts r = []" "wr_inlineParts r ! wr_partCount r = emptyPart" by (simp_all add: shaped_def)
    from True assms have "take (Suc (wr_partCount r)) (wr_inlineParts r) = take (wr_partCount r) (wr_inlineParts r) @ [emptyPart]"
      by (simp add: take_Suc_conv_app_nth shaped_def e)
    with True assms e show ?thesis
      unfolding inline_parts [OF assms] inline_parts [OF s] by (simp add: appendPart_def)
  next
    case False
    with assms show ?thesis
      unfolding inline_parts [OF assms] inline_parts [OF s] by (simp add: appendPart_def shaped_def)
  qed
qed

text \<open>A new last part.\<close>

definition withPart :: "InputPart \<Rightarrow> WriteRequest \<Rightarrow> WriteRequest" where
  "withPart p r = setPart (wr_partCount r) p (appendPart r)"

lemma withPart_parts:
  assumes "shaped r"
  shows "shaped (withPart p r)" "parts (withPart p r) = take INLINE_PARTS (parts r) @ map movePart (drop INLINE_PARTS (parts r)) @ [p]"
  using appendPart_shaped [OF assms] by (simp_all add: withPart_def list_update_append)

lemma withPart_ok:
  assumes "building r" "intact r p"
  shows "building (withPart p r)" "content (withPart p r) = content r @ whole r p"
proof -
  have s: "shaped r" using assms by (simp add: building_def)
  have a: "list_all (intact r) (take INLINE_PARTS (parts r))" "list_all (intact r) (drop INLINE_PARTS (parts r))"
    using assms by (auto simp: building_def list_all_iff dest: in_set_takeD in_set_dropD)
  have w: "whole (withPart p r) = whole r" "intact (withPart p r) = intact r" by (simp_all add: withPart_def)
  show "building (withPart p r)"
    using withPart_parts [OF s] a assms(2) by (auto simp: building_def w list_all_iff)
  have "concat (map (whole r) (take INLINE_PARTS (parts r))) @ concat (map (whole r) (drop INLINE_PARTS (parts r))) = content r"
    by (simp add: content_def flip: concat_append map_append)
  then show "content (withPart p r) = content r @ whole r p"
    using withPart_parts [OF s] by (simp add: content_def w comp_def)
qed

lemma withPart_fields [simp]:
  "wr_partCount (withPart p r) = Suc (wr_partCount r)" "wr_bytes (withPart p r) = wr_bytes r"
  "wr_sent (withPart p r) = wr_sent r" "wr_inlineBytes (withPart p r) = wr_inlineBytes r"
  "wr_callback (withPart p r) = wr_callback r" "wr_callbackValue (withPart p r) = wr_callbackValue r"
  "wr_deferred (withPart p r) = wr_deferred r"
  by (simp_all add: withPart_def)

definition ownedPart :: "byte list \<Rightarrow> InputPart" where
  "ownedPart v = emptyPart\<lparr>ip_owned := v, ip_pointer := InOwned 0, ip_length := length v\<rparr>"

lemma ownedPart_ok [simp]: "intact r (ownedPart v)" "whole r (ownedPart v) = v" "ip_length (ownedPart v) = length v"
  by (simp_all add: ownedPart_def intact_def whole_def repairPointer_def storage_def)

lemma addOwned_eq: "shaped r \<Longrightarrow> addOwned v r = withPart (ownedPart v) r"
  using appendPart_shaped [of r] by (simp add: addOwned_def Let_def withPart_def ownedPart_def)

text \<open>The bytes N-API reports for a value, which has at least as many as it announces.\<close>

fun valueBytes :: "jsValue \<Rightarrow> byte list option" where
  "valueBytes (JsBuffer dat b) = Some dat"
| "valueBytes (JsTypedArray type dat b) = Some (take (length dat div elementSize type * elementSize type) dat)"
| "valueBytes (JsDataView dat b) = Some dat"
| "valueBytes (JsArrayBuffer dat b) = Some dat"
| "valueBytes (JsString utf8) = Some utf8"
| "valueBytes _ = None"

lemma prepareInputStorage_ok:
  assumes "prepareInputStorage b dat (emptyPart\<lparr>ip_pointer := Foreign dat, ip_length := n\<rparr>) = (True, p)" "n \<le> length dat"
  shows "intact r p" "whole r p = take n dat"
  using assms
  by (auto simp: prepareInputStorage_def intact_def whole_def repairPointer_def storage_def emptyPart_def split: if_splits)

lemma readInputPart_ok:
  assumes "readInputPart v emptyPart = (True, p)"
  shows "intact r p" "valueBytes v = Some (whole r p)"
proof -
  have "intact r p \<and> valueBytes v = Some (whole r p)"
  proof (cases v)
    case (JsTypedArray type dat b)
    let ?n = "length dat div elementSize type * elementSize type"
    have "prepareInputStorage b dat (emptyPart\<lparr>ip_pointer := Foreign dat, ip_length := ?n\<rparr>) = (True, p)"
      using assms JsTypedArray by (simp add: Let_def split: if_splits)
    from prepareInputStorage_ok [OF this] JsTypedArray show ?thesis by simp
  next
    case (JsString utf8)
    with assms show ?thesis by (auto simp: readStringInputPart_def intact_def whole_def repairPointer_def storage_def emptyPart_def)
  qed (use assms prepareInputStorage_ok [OF _ order_refl] in auto)
  then show "intact r p" "valueBytes v = Some (whole r p)" by simp_all
qed

lemma addInput_ok:
  assumes "building r" "addInput v r = (True, r')"
  shows "building r'" "\<exists>bs. valueBytes v = Some bs \<and> content r' = content r @ bs"
proof -
  have s: "shaped r" using assms by (simp add: building_def)
  obtain p where p: "readInputPart v emptyPart = (True, p)" "r' = withPart p r"
    using assms(2) appendPart_shaped(2) [OF s]
    by (auto simp: addInput_def addPart_def Let_def withPart_def split: prod.splits if_splits)
  show "building r'" "\<exists>bs. valueBytes v = Some bs \<and> content r' = content r @ bs"
    using withPart_ok [OF assms(1) readInputPart_ok(1) [OF p(1)]] readInputPart_ok(2) [OF p(1), of r] p(2)
    by simp_all
qed

text \<open>A refused value leaves the request as it was.\<close>

lemma addInput_refused:
  assumes "shaped r" "wr_partCount r < INLINE_PARTS" "addInput v r = (False, r')"
  shows "r' = r"
proof -
  have e: "wr_inlineParts r ! wr_partCount r = emptyPart" "wr_extraParts r = []" using assms by (simp_all add: shaped_def)
  have "(wr_inlineParts r)[wr_partCount r := emptyPart] = wr_inlineParts r"
    by (metis e(1) list_update_id)
  with assms e show ?thesis
    by (auto simp: addInput_def addPart_def Let_def appendPart_def setPart_def removeLastPart_def INLINE_PARTS_def
        split: prod.splits if_splits)
qed

section \<open>Preparing a request\<close>

lemma repair_fields [simp]: "ip_length (repairPointer p) = ip_length p" "repairPointer (repairPointer p) = repairPointer p"
  by (simp_all add: repairPointer_def)

lemma setPart_self: "shaped r \<Longrightarrow> index < wr_partCount r \<Longrightarrow> part (setPart index p r) index = p"
  by (simp add: part_setPart)

lemma prepareParts_ok:
  "shaped r \<Longrightarrow> i \<le> wr_partCount r \<Longrightarrow> wr_bytes r \<le> SIZE_MAX \<Longrightarrow>
   amount = wr_bytes r + sum_list (map ip_length (drop i (parts r))) \<Longrightarrow>
   \<exists>r'. prepareParts [i..<wr_partCount r] r = (amount \<le> SIZE_MAX, r') \<and> (amount \<le> SIZE_MAX \<longrightarrow>
     shaped r' \<and> parts r' = take i (parts r) @ map repairPointer (drop i (parts r)) \<and> wr_bytes r' = amount \<and>
     wr_partCount r' = wr_partCount r \<and> wr_cursorPart r' = wr_cursorPart r \<and> wr_cursorOffset r' = wr_cursorOffset r \<and>
     wr_sent r' = wr_sent r \<and> wr_inlineBytes r' = wr_inlineBytes r \<and> wr_callback r' = wr_callback r \<and>
     wr_callbackValue r' = wr_callbackValue r \<and> wr_deferred r' = wr_deferred r)"
proof (induction "wr_partCount r - i" arbitrary: i r)
  case 0
  then show ?case by simp
next
  case (Suc k)
  then have i: "i < wr_partCount r" by simp
  let ?r = "setPart i (repairPointer (part r i)) r"
  let ?n = "ip_length (part r i)"
  have d: "drop i (parts r) = part r i # drop (Suc i) (parts r)" using i by (rule drop_cursor)
  have up: "[i..<wr_partCount r] = i # [Suc i..<wr_partCount r]" using i by (simp add: upt_conv_Cons)
  have self: "ip_length (part ?r i) = ?n" using Suc.prems(1) i by (simp add: setPart_self)
  show ?case
  proof (cases "?n > SIZE_MAX \<or> wr_bytes r > SIZE_MAX - ?n")
    case True
    then have "\<not> amount \<le> SIZE_MAX" using Suc.prems(4) by (auto simp: d)
    with True show ?thesis by (simp add: up Let_def self)
  next
    case False
    let ?s = "?r\<lparr>wr_bytes := wr_bytes r + ?n\<rparr>"
    have dp: "drop (Suc i) (parts ?s) = drop (Suc i) (parts r)" "take (Suc i) (parts ?s) = take i (parts r) @ [repairPointer (part r i)]"
      using Suc.prems(1) i by (simp_all add: take_Suc_conv_app_nth)
    have s: "shaped ?s" "Suc i \<le> wr_partCount ?s" "k = wr_partCount ?s - Suc i"
      "amount = wr_bytes ?s + sum_list (map ip_length (drop (Suc i) (parts ?s)))"
      using Suc.prems i Suc.hyps(2) False unfolding dp by (simp_all add: d)
    from False have "wr_bytes ?s \<le> SIZE_MAX" by auto
    moreover have "drop (Suc i) ((parts r)[i := q]) = drop (Suc i) (parts r)"
      "take (Suc i) ((parts r)[i := q]) = take i (parts r) @ [q]" for q
      using i by (simp_all add: take_Suc_conv_app_nth)
    ultimately show ?thesis
      using Suc.hyps(1) [OF s(3,1,2) _ s(4)] False Suc.prems(1) i
      by (simp add: up Let_def self dp d del: take_update_swap drop_update_cancel)
  qed
qed

lemma storage_update [simp]: "storage (r\<lparr>wr_bytes := a, wr_cursorPart := b, wr_cursorOffset := c\<rparr>) = storage r"
  by simp

lemma length_whole: "intact r p \<Longrightarrow> length (whole r p) = ip_length p"
  by (simp add: intact_def whole_def)

text \<open>
  After \<open>prepare\<close> nothing dangles: every part can be read where its pointer points, and the bytes to send
  are those the parts were built from.
\<close>

definition same_callback :: "WriteRequest \<Rightarrow> WriteRequest \<Rightarrow> bool" where
  "same_callback r r' \<longleftrightarrow> wr_sent r' = wr_sent r \<and> wr_callback r' = wr_callback r \<and>
     wr_callbackValue r' = wr_callbackValue r \<and> wr_deferred r' = wr_deferred r"

text \<open>No part lies in the request's own inline storage.\<close>

definition separate :: "WriteRequest \<Rightarrow> bool" where
  "separate r \<longleftrightarrow> (\<forall>p \<in> set (parts r). \<forall>k. ip_pointer p \<noteq> InInline k)"

definition readable :: "WriteRequest \<Rightarrow> bool" where
  "readable r \<longleftrightarrow> list_all (\<lambda>p. ip_length p \<le> length (storage r p) \<and> repairPointer p = p) (parts r)"

lemma skipEmptyParts_readable:
  "shaped r \<Longrightarrow> readable r \<Longrightarrow> readable (skipEmptyParts r) \<and>
   concat (map (partData (skipEmptyParts r)) (parts (skipEmptyParts r))) = concat (map (partData r) (parts r)) \<and>
   wr_inlineBytes (skipEmptyParts r) = wr_inlineBytes r \<and>
   (separate r \<longrightarrow> separate (skipEmptyParts r))"
proof (induction r rule: skipEmptyParts.induct)
  case (1 r)
  show ?case
  proof (cases "wr_cursorPart r < wr_partCount r \<and> ip_length (part r (wr_cursorPart r)) = 0")
    case True
    let ?c = "wr_cursorPart r"
    let ?r = "(setPart ?c emptyPart r)\<lparr>wr_cursorPart := ?c + 1\<rparr>"
    have p: "parts ?r = take ?c (parts r) @ emptyPart # drop (Suc ?c) (parts r)"
      using True "1.prems" by (simp add: upd_conv_take_nth_drop)
    have q: "parts r = take ?c (parts r) @ part r ?c # drop (Suc ?c) (parts r)"
      using True id_take_nth_drop [of ?c "parts r"] by simp
    have e: "partData r (part r ?c) = []" using True by (simp add: partData_def)
    have "readable ?r"
      using "1.prems"(2) unfolding readable_def p by (subst (asm) q) simp
    moreover have "concat (map (partData ?r) (parts ?r)) = concat (map (partData r) (parts r))"
      unfolding p by (subst (3) q) (simp add: e)
    moreover have "separate r \<Longrightarrow> separate ?r"
      unfolding separate_def p by (auto simp: emptyPart_def dest: in_set_takeD in_set_dropD)
    moreover have "shaped ?r" using True "1.prems" by simp
    moreover have "skipEmptyParts r = skipEmptyParts ?r" using True by (subst skipEmptyParts.simps) simp
    ultimately show ?thesis using "1.IH" True by auto
  next
    case False
    then have "skipEmptyParts r = r" by (subst skipEmptyParts.simps) auto
    with "1.prems" show ?thesis by auto
  qed
qed

lemma content_length: "building r \<Longrightarrow> length (content r) = sum_list (map ip_length (parts r))"
proof -
  assume "building r"
  then have "map ip_length (parts r) = map (length \<circ> whole r) (parts r)"
    by (simp add: building_def list_all_iff length_whole)
  then show ?thesis by (simp only: content_def length_concat map_map)
qed

lemma prepare_ok:
  assumes b: "building r" and n: "length (content r) \<le> SIZE_MAX"
  shows "\<exists>r'. prepare r = (wr_partCount r \<noteq> 0, r') \<and>
     live r' \<and> remaining r' = content r \<and> wr_bytes r' = length (content r) \<and>
       same_callback r r' \<and> readable r' \<and> concat (map (partData r') (parts r')) = content r \<and>
       wr_partCount r' = wr_partCount r \<and> wr_inlineBytes r' = wr_inlineBytes r \<and>
       (separate r \<longrightarrow> separate r')"
proof -
  let ?r = "r\<lparr>wr_bytes := 0, wr_cursorPart := 0, wr_cursorOffset := 0\<rparr>"
  have s: "shaped ?r" "\<forall>p \<in> set (parts r). intact r p" using b by (simp_all add: building_def list_all_iff)
  obtain r1 where r1: "prepareParts [0..<wr_partCount r] ?r = (True, r1)"
    "shaped r1 \<and> parts r1 = map repairPointer (parts r) \<and> wr_bytes r1 = length (content r) \<and>
     wr_partCount r1 = wr_partCount r \<and> wr_cursorPart r1 = 0 \<and> wr_cursorOffset r1 = 0 \<and>
     wr_inlineBytes r1 = wr_inlineBytes r \<and> same_callback r r1"
    using prepareParts_ok [OF s(1), of 0] content_length [OF b] n by (auto simp: same_callback_def)
  have st: "storage r1 = storage r" using r1(2) by (intro storage_cong) simp
  have rd: "readable r1"
    using s(2) r1(2) by (auto simp: readable_def list_all_iff st intact_def)
  have pd: "concat (map (partData r1) (parts r1)) = content r"
  proof -
    have "partData r1 \<circ> repairPointer = whole r" by (simp add: fun_eq_iff partData_def st whole_def)
    with r1(2) show ?thesis by (simp add: content_def)
  qed
  have a: "arriving r1" using r1(2) rd by (simp add: arriving_def readable_def list_all_iff)
  have rem: "remaining r1 = content r" using r1(2) pd by (simp add: remaining_def)
  have "separate r \<Longrightarrow> separate r1" using r1(2) by (auto simp: separate_def repairPointer_def)
  then show ?thesis
    using r1 skipEmptyParts_ok [OF a] skipEmptyParts_readable [of r1] rd pd rem
    by (simp add: prepare_def same_callback_def)
qed

text \<open>A request that \<open>size_t\<close> cannot count is refused.\<close>

lemma prepare_overflow:
  assumes "building r" "SIZE_MAX < length (content r)"
  shows "\<not> fst (prepare r)"
  using prepareParts_ok [of "r\<lparr>wr_bytes := 0, wr_cursorPart := 0, wr_cursorOffset := 0\<rparr>" 0 "length (content r)"]
    content_length [OF assms(1)] assms by (auto simp: prepare_def building_def)

section \<open>Flattening\<close>

text \<open>A request that is ready to be submitted.\<close>

definition prepared :: "WriteRequest \<Rightarrow> bool" where
  "prepared r \<longleftrightarrow> live r \<and> readable r \<and> remaining r = concat (map (partData r) (parts r)) \<and>
     wr_bytes r = length (remaining r) \<and> wr_bytes r \<le> SIZE_MAX \<and> wr_partCount r \<noteq> 0"

lemma copyCombined_eq:
  "list_all (\<lambda>index. ip_length (part r index) \<le> length (storage r (part r index))) indices \<Longrightarrow>
   offset + length (concat (map (\<lambda>index. partData r (part r index)) indices)) \<le> length combined \<Longrightarrow>
   copyCombined r indices offset combined = blit combined offset (concat (map (\<lambda>index. partData r (part r index)) indices))"
proof (induction indices arbitrary: offset combined)
  case (Cons index indices)
  have l: "length (partData r (part r index)) = ip_length (part r index)" using Cons.prems(1) by (simp add: partData_def)
  show ?case
  proof (cases "ip_length (part r index) = 0")
    case True
    then have "partData r (part r index) = []" by (simp add: partData_def)
    with True Cons show ?thesis by simp
  next
    case False
    with Cons l blit_append [of offset "partData r (part r index)" "concat (map (\<lambda>index. partData r (part r index)) indices)" combined]
    show ?thesis by (simp add: Let_def)
  qed
qed simp

lemma copyInline_eq:
  "list_all (\<lambda>index. ip_length (part r index) \<le> length (storage r (part r index)) \<and> (\<forall>k. ip_pointer (part r index) \<noteq> InInline k)) indices \<Longrightarrow>
   offset + length (concat (map (\<lambda>index. partData r (part r index)) indices)) \<le> length (wr_inlineBytes r) \<Longrightarrow>
   copyInline indices offset r = (offset + length (concat (map (\<lambda>index. partData r (part r index)) indices)),
     r\<lparr>wr_inlineBytes := blit (wr_inlineBytes r) offset (concat (map (\<lambda>index. partData r (part r index)) indices))\<rparr>)"
proof (induction indices arbitrary: offset r)
  case (Cons index indices)
  let ?p = "part r index"
  have l: "length (partData r ?p) = ip_length ?p" using Cons.prems(1) by (simp add: partData_def)
  show ?case
  proof (cases "ip_length ?p = 0")
    case True
    then have "partData r ?p = []" by (simp add: partData_def)
    with True Cons show ?thesis by simp
  next
    case False
    let ?r = "r\<lparr>wr_inlineBytes := blit (wr_inlineBytes r) offset (partData r ?p)\<rparr>"
    have p: "part ?r = part r" by (simp add: part_def fun_eq_iff)
    have st: "storage ?r q = storage r q" "partData ?r q = partData r q" if "\<forall>k. ip_pointer q \<noteq> InInline k" for q
      using that by (auto simp: storage_def partData_def split: pointer.split)
    have m: "map (\<lambda>index. partData ?r (part r index)) indices = map (\<lambda>index. partData r (part r index)) indices"
      using Cons.prems(1) st by (auto simp: list_all_iff)
    have "list_all (\<lambda>index. ip_length (part ?r index) \<le> length (storage ?r (part ?r index)) \<and> (\<forall>k. ip_pointer (part ?r index) \<noteq> InInline k)) indices"
      using Cons.prems(1) st by (auto simp: list_all_iff p)
    with Cons.IH [of ?r "offset + ip_length ?p"] Cons.prems(2) False l m
      blit_append [of offset "partData r ?p" "concat (map (\<lambda>index. partData r (part r index)) indices)" "wr_inlineBytes r"]
    show ?thesis by (simp add: Let_def p)
  qed
qed simp

lemma map_parts: "map (\<lambda>index. f (part r index)) [0..<wr_partCount r] = map f (parts r)"
  by (simp add: parts_def)

lemma fold_clear:
  "shaped r \<Longrightarrow> n \<le> wr_partCount r \<Longrightarrow>
   shaped (fold (\<lambda>index. setPart index emptyPart) [0..<n] r) \<and>
   wr_partCount (fold (\<lambda>index. setPart index emptyPart) [0..<n] r) = wr_partCount r \<and>
   wr_inlineBytes (fold (\<lambda>index. setPart index emptyPart) [0..<n] r) = wr_inlineBytes r \<and>
   wr_bytes (fold (\<lambda>index. setPart index emptyPart) [0..<n] r) = wr_bytes r \<and>
   same_callback r (fold (\<lambda>index. setPart index emptyPart) [0..<n] r) \<and>
   (\<forall>index < n. part (fold (\<lambda>index. setPart index emptyPart) [0..<n] r) index = emptyPart)"
  by (induction n) (auto simp: part_setPart same_callback_def less_Suc_eq)

lemma clearParts_ok:
  assumes "shaped r"
  shows "building (clearParts r)" "content (clearParts r) = []" "wr_partCount (clearParts r) = 0"
    "wr_inlineBytes (clearParts r) = wr_inlineBytes r" "same_callback r (clearParts r)"
proof -
  let ?f = "fold (\<lambda>index. setPart index emptyPart) [0..<wr_partCount r] r"
  note f = fold_clear [OF assms order_refl]
  have "wr_inlineParts ?f ! index = emptyPart" if "index < INLINE_PARTS" for index
    using f that by (cases "index < wr_partCount r") (auto simp: part_def shaped_def)
  then have "shaped (clearParts r)"
    using f by (auto simp: clearParts_def Let_def shaped_def)
  then show "building (clearParts r)" "content (clearParts r) = []" "wr_partCount (clearParts r) = 0"
    "wr_inlineBytes (clearParts r) = wr_inlineBytes r" "same_callback r (clearParts r)"
    using f by (simp_all add: building_def content_def parts_def clearParts_def Let_def same_callback_def)
qed

lemma same_callback_trans: "same_callback r r' \<Longrightarrow> same_callback r' r'' \<Longrightarrow> same_callback r r''"
  by (simp add: same_callback_def)

lemma prepare_prepared:
  assumes "building r" "length (content r) \<le> SIZE_MAX" "wr_partCount r \<noteq> 0"
  shows "\<exists>r'. prepare r = (True, r') \<and> prepared r' \<and> remaining r' = content r \<and> same_callback r r' \<and>
    wr_partCount r' = wr_partCount r \<and> (separate r \<longrightarrow> separate r')"
  using prepare_ok [OF assms(1,2)] assms(2,3) by (auto simp: prepared_def)

lemma inlinePart_ok:
  "n \<le> length (wr_inlineBytes r) \<Longrightarrow> intact r (emptyPart\<lparr>ip_pointer := InInline 0, ip_length := n\<rparr>)"
  "whole r (emptyPart\<lparr>ip_pointer := InInline 0, ip_length := n\<rparr>) = take n (wr_inlineBytes r)"
  by (simp_all add: intact_def whole_def repairPointer_def storage_def emptyPart_def)

lemma flatten_ok:
  assumes p: "prepared r" and s: "1 < wr_partCount r \<longrightarrow> separate r"
  shows "\<exists>r'. flatten r = (True, r') \<and> prepared r' \<and> remaining r' = remaining r \<and> same_callback r r' \<and> wr_partCount r' = 1"
proof (cases "wr_partCount r \<le> 1")
  case True
  with p show ?thesis by (auto simp: flatten_def same_callback_def prepared_def le_Suc_eq)
next
  case False
  have sh: "shaped r" "length (wr_inlineBytes r) = INLINE_BYTES" using p by (simp_all add: prepared_def live_def shaped_def)
  have all: "list_all (\<lambda>index. ip_length (part r index) \<le> length (storage r (part r index))) [0..<wr_partCount r]"
    using p by (simp add: prepared_def readable_def list_all_iff parts_def)
  have dat: "concat (map (\<lambda>index. partData r (part r index)) [0..<wr_partCount r]) = remaining r"
    using p by (simp add: prepared_def map_parts)
  have n: "wr_bytes r = length (remaining r)" "wr_bytes r \<le> SIZE_MAX" using p unfolding prepared_def by blast+
  show ?thesis
  proof (cases "wr_bytes r \<le> length (wr_inlineBytes r)")
    case True
    have "list_all (\<lambda>index. ip_length (part r index) \<le> length (storage r (part r index)) \<and> (\<forall>k. ip_pointer (part r index) \<noteq> InInline k)) [0..<wr_partCount r]"
      using all s False by (auto simp: list_all_iff separate_def parts_def)
    from copyInline_eq [OF this, of 0] True n dat
    have c: "copyInline [0..<wr_partCount r] 0 r = (length (remaining r), r\<lparr>wr_inlineBytes := blit (wr_inlineBytes r) 0 (remaining r)\<rparr>)"
      by simp
    let ?b = "r\<lparr>wr_inlineBytes := blit (wr_inlineBytes r) 0 (remaining r)\<rparr>"
    let ?part = "emptyPart\<lparr>ip_pointer := InInline 0, ip_length := length (remaining r)\<rparr>"
    have "shaped ?b" using sh True n by (simp add: shaped_def part_def)
    note cl = clearParts_ok [OF this]
    let ?r = "withPart ?part (clearParts ?b)"
    have eq: "flatten r = prepare ?r"
      using False True c appendPart_shaped(2) [of "clearParts ?b"] cl(1)
      by (simp add: flatten_def Let_def withPart_def building_def)
    have tk: "take (length (remaining r)) (wr_inlineBytes (clearParts ?b)) = remaining r"
      "length (remaining r) \<le> length (wr_inlineBytes (clearParts ?b))"
      using True n unfolding cl(4) by (simp_all add: blit_def)
    have "building ?r" "content ?r = remaining r"
      using withPart_ok [OF cl(1) inlinePart_ok(1) [OF tk(2)]] cl(2) tk(1) by (simp_all add: inlinePart_ok(2))
    with prepare_prepared [of ?r] n cl(3,5) show ?thesis
      by (auto simp: eq same_callback_def)
  next
    case big: False
    have c: "copyCombined r [0..<wr_partCount r] 0 (replicate (wr_bytes r) 0) = remaining r"
      using copyCombined_eq [OF all, of 0 "replicate (wr_bytes r) 0"] n by (simp add: dat blit_def)
    note cl = clearParts_ok [OF sh(1)]
    let ?r = "withPart (ownedPart (remaining r)) (clearParts r)"
    have eq: "flatten r = prepare ?r"
      using False big c cl(1) by (simp add: flatten_def Let_def addOwned_eq building_def)
    have "building ?r" "content ?r = remaining r"
      using withPart_ok [OF cl(1), of "ownedPart (remaining r)"] cl(2) by simp_all
    with prepare_prepared [of ?r] n cl(3,5) show ?thesis
      by (auto simp: eq same_callback_def)
  qed
qed

section \<open>Coalescing a prefix\<close>

lemma copyPrefix_eq:
  "list_all (\<lambda>index. ip_length (part r index) \<le> length (storage r (part r index))) indices \<Longrightarrow>
   copied \<le> prefixLength \<Longrightarrow> prefixLength \<le> length prefix \<Longrightarrow>
   d = concat (map (\<lambda>index. partData r (part r index)) indices) \<Longrightarrow>
   copyPrefix r prefixLength indices copied prefix =
     (min prefixLength (copied + length d), blit prefix copied (take (prefixLength - copied) d))"
proof (induction indices arbitrary: copied prefix d)
  case (Cons index indices)
  let ?p = "part r index"
  let ?d = "concat (map (\<lambda>index. partData r (part r index)) indices)"
  let ?n = "min (ip_length ?p) (prefixLength - copied)"
  have l: "length (partData r ?p) = ip_length ?p" using Cons.prems(1) by (simp add: partData_def)
  have d: "d = partData r ?p @ ?d" using Cons.prems(4) by simp
  show ?case
  proof (cases "copied < prefixLength")
    case False
    with Cons.prems show ?thesis by simp
  next
    case True
    have tk: "take ?n (storage r ?p) = take (prefixLength - copied) (partData r ?p)"
      by (simp add: partData_def min.commute)
    have b: "(if ?n \<noteq> 0 then blit prefix copied (take ?n (storage r ?p)) else prefix) =
        blit prefix copied (take (prefixLength - copied) (partData r ?p))"
      by (simp add: tk) (simp add: partData_def)
    have lt: "length (take (prefixLength - copied) (partData r ?p)) = ?n" using l by simp
    define x where "x = take (prefixLength - copied) (partData r ?p)"
    define y where "y = take (prefixLength - (copied + ?n)) ?d"
    have lx: "length x = ?n" using l by (simp add: x_def)
    have "length y \<le> prefixLength - (copied + ?n)" "copied + ?n \<le> prefixLength"
      using True by (auto simp: y_def min_def)
    then have xy: "length x = ?n" "copied + length x + length y \<le> length prefix"
      using Cons.prems(3) lx by linarith+
    have "blit (blit prefix copied (take (prefixLength - copied) (partData r ?p))) (copied + ?n) (take (prefixLength - (copied + ?n)) ?d) =
        blit prefix copied (take (prefixLength - copied) (partData r ?p) @ take (prefixLength - (copied + ?n)) ?d)"
      using blit_append [OF xy(2)] by (simp only: xy(1) flip: x_def y_def)
    moreover have "take (prefixLength - copied) d = take (prefixLength - copied) (partData r ?p) @ take (prefixLength - (copied + ?n)) ?d"
      using l by (simp add: d min_def)
    moreover have "min prefixLength (copied + ?n + length ?d) = min prefixLength (copied + length d)"
      using l True by (auto simp: d min_def)
    moreover have step: "copyPrefix r prefixLength (index # indices) copied prefix =
        copyPrefix r prefixLength indices (copied + ?n) (blit prefix copied (take (prefixLength - copied) (partData r ?p)))"
      using True by (simp only: copyPrefix.simps Let_def if_True b)
    moreover have "copyPrefix r prefixLength indices (copied + ?n) (blit prefix copied x) =
       (min prefixLength (copied + ?n + length ?d), blit (blit prefix copied x) (copied + ?n) (take (prefixLength - (copied + ?n)) ?d))"
      using Cons.prems True xy by (intro Cons.IH) simp_all
    ultimately show ?thesis by (simp only: x_def)
  qed
qed simp

lemma bump_ok:
  assumes "intact r p" "skip < ip_length p"
  defines "q \<equiv> p\<lparr>ip_pointer := bump skip (ip_pointer p), ip_length := ip_length p - skip,
                 ip_ownedOffset := (if ip_owned p \<noteq> [] then ip_ownedOffset p + skip else ip_ownedOffset p)\<rparr>"
  shows "intact r q" "whole r q = drop skip (whole r p)"
  using assms
  by (auto simp: intact_def whole_def repairPointer_def storage_def drop_take add.commute split: pointer.split pointer.splits if_splits)

lemma restoreParts_ok:
  "building r \<Longrightarrow> list_all (intact r) ps \<Longrightarrow>
   \<exists>r'. restoreParts skip ps r = Some r' \<and> building r' \<and> content r' = content r @ drop skip (concat (map (whole r) ps)) \<and>
     same_callback r r' \<and> wr_partCount r \<le> wr_partCount r' \<and> wr_inlineBytes r' = wr_inlineBytes r"
proof (induction ps arbitrary: skip r)
  case Nil
  then show ?case by (simp add: same_callback_def)
next
  case (Cons p ps)
  have l: "length (whole r p) = ip_length p" using Cons.prems(2) by (simp add: length_whole)
  show ?case
  proof (cases "skip \<ge> ip_length p")
    case True
    with Cons.IH [OF Cons.prems(1), of "skip - ip_length p"] Cons.prems(2) l show ?thesis by simp
  next
    case False
    define q where "q = (if skip \<noteq> 0
                    then p\<lparr>ip_pointer := bump skip (ip_pointer p), ip_length := ip_length p - skip,
                           ip_ownedOffset := (if ip_owned p \<noteq> [] then ip_ownedOffset p + skip else ip_ownedOffset p)\<rparr>
                    else p)"
    have q: "intact r q" "whole r q = drop skip (whole r p)"
      using bump_ok [of r p skip] Cons.prems(2) False by (auto simp: q_def)
    have s: "shaped r" using Cons.prems(1) by (simp add: building_def)
    let ?r = "withPart (movePart q) r"
    have step: "restoreParts skip (p # ps) r = restoreParts 0 ps ?r"
      using False appendPart_shaped(2) [OF s] unfolding restoreParts.simps Let_def q_def [symmetric]
      by (simp add: assignPart_def withPart_def)
    have w: "building ?r" "content ?r = content r @ whole r q"
      using withPart_ok [OF Cons.prems(1), of "movePart q"] q(1) by simp_all
    have wc: "whole ?r = whole r" "intact ?r = intact r" by (simp_all add: withPart_def)
    from Cons.IH [OF w(1), of 0] Cons.prems(2) w(2) q(2) l False show ?thesis
      by (auto simp: step wc same_callback_def simp del: restoreParts.simps)
  qed
qed

lemma coalescePrefix_ok:
  assumes p: "prepared r" and s: "1 < wr_partCount r \<longrightarrow> separate r"
  shows "\<exists>r'. coalescePrefix prefixLength r = Some (True, r') \<and> prepared r' \<and> remaining r' = remaining r \<and> same_callback r r'"
proof (cases "wr_partCount r \<le> 1 \<or> prefixLength \<ge> wr_bytes r")
  case True
  with flatten_ok [OF p s] show ?thesis by (auto simp: coalescePrefix_def)
next
  case False
  have sh: "shaped r" using p by (simp add: prepared_def live_def)
  have all: "list_all (\<lambda>index. ip_length (part r index) \<le> length (storage r (part r index))) [0..<wr_partCount r]"
    using p by (simp add: prepared_def readable_def list_all_iff parts_def)
  have dat: "remaining r = concat (map (\<lambda>index. partData r (part r index)) [0..<wr_partCount r])"
    using p by (simp add: prepared_def map_parts)
  have n: "wr_bytes r = length (remaining r)" "wr_bytes r \<le> SIZE_MAX" using p unfolding prepared_def by blast+
  have c: "copyPrefix r prefixLength [0..<wr_partCount r] 0 (replicate prefixLength 0) = (prefixLength, take prefixLength (remaining r))"
    using copyPrefix_eq [OF all _ _ dat, of 0 prefixLength "replicate prefixLength 0"] False n by (simp add: blit_def min_def)
  let ?original = "map (\<lambda>index. movePart (part r index)) [0..<wr_partCount r]"
  let ?r = "clearParts r"
  note cl = clearParts_ok [OF sh]
  have eq: "coalescePrefix prefixLength r = map_option prepare (restoreParts prefixLength ?original (addOwned (take prefixLength (remaining r)) ?r))"
    using False c by (simp add: coalescePrefix_def clearParts_def Let_def)
  let ?a = "withPart (ownedPart (take prefixLength (remaining r))) ?r"
  have a: "building ?a" "content ?a = take prefixLength (remaining r)"
    using withPart_ok [OF cl(1), of "ownedPart (take prefixLength (remaining r))"] cl(2) by simp_all
  have wc: "whole ?a = whole r" "intact ?a = intact r" using cl(4) by (auto intro!: whole_cong)
  have "\<forall>p \<in> set (parts r). intact r p"
    using p by (auto simp: prepared_def readable_def list_all_iff intact_def)
  then have "list_all (intact r) ?original" by (simp add: list_all_iff parts_def)
  then have i: "list_all (intact ?a) ?original" by (simp only: wc)
  have mw: "map (whole r) ?original = map (\<lambda>index. partData r (part r index)) [0..<wr_partCount r]"
    using p by (auto simp: prepared_def readable_def list_all_iff parts_def whole_def [of r "part r x" for x] partData_def)
  have m: "concat (map (whole ?a) ?original) = remaining r" unfolding wc(1) mw by (rule dat [symmetric])
  obtain r1 where r1: "restoreParts prefixLength ?original ?a = Some r1" "building r1" "content r1 = remaining r"
     "same_callback ?a r1" "wr_partCount ?a \<le> wr_partCount r1"
    using restoreParts_ok [OF a(1) i, of prefixLength, unfolded m a(2) append_take_drop_id] by blast
  have "wr_partCount r1 \<noteq> 0" using r1(5) by simp
  with prepare_prepared [OF r1(2)] r1(3) n obtain r' where
    "prepare r1 = (True, r')" "prepared r'" "remaining r' = remaining r" "same_callback r1 r'"
    by auto
  moreover have "same_callback r r1" using cl(5) r1(4) by (simp add: same_callback_def)
  ultimately show ?thesis
    using r1(1) cl(1) same_callback_trans by (auto simp: eq addOwned_eq building_def)
qed

section \<open>Frames\<close>

lemma newWriteRequest_ok:
  assumes "length garbage = INLINE_BYTES"
  shows "building (newWriteRequest garbage)" "content (newWriteRequest garbage) = []"
    "wr_partCount (newWriteRequest garbage) = 0" "separate (newWriteRequest garbage)"
  using assms
  by (auto simp: building_def shaped_def newWriteRequest_def content_def parts_def separate_def INLINE_PARTS_def nth_Cons')

lemma length_frameHeader: "length (frameHeader n opc) = (if n < 126 then 2 else if n \<le> 0xffff then 4 else 10)"
  by (simp add: frameHeader_def Let_def)

lemma withPart_separate:
  "shaped r \<Longrightarrow> separate r \<Longrightarrow> (\<forall>k. ip_pointer p \<noteq> InInline k) \<Longrightarrow> separate (withPart p r)"
  using withPart_parts(2) [of r p]
  by (auto simp: separate_def movePart_def dest!: in_set_takeD in_set_dropD split: pointer.splits)

lemma addOwned_ok:
  assumes "building r"
  shows "building (addOwned v r)" "content (addOwned v r) = content r @ v" "separate r \<Longrightarrow> separate (addOwned v r)"
    "wr_partCount (addOwned v r) = Suc (wr_partCount r)" "same_callback r (addOwned v r)"
proof -
  have s: "shaped r" using assms by (simp add: building_def)
  show "building (addOwned v r)" "content (addOwned v r) = content r @ v" "separate r \<Longrightarrow> separate (addOwned v r)"
    "wr_partCount (addOwned v r) = Suc (wr_partCount r)" "same_callback r (addOwned v r)"
    using withPart_ok [OF assms, of "ownedPart v"] withPart_separate [OF s, of "ownedPart v"]
    by (simp_all add: addOwned_eq [OF s] same_callback_def) (simp add: ownedPart_def)
qed

lemma addTextInput_ok:
  assumes "building r"
  shows "addTextInput (JsString utf8) r = (True, withPart (ownedPart utf8) r)"
  using appendPart_shaped(2) [of r] assms
  by (simp add: addTextInput_def addPart_def Let_def readStringInputPart_def withPart_def ownedPart_def building_def)

definition blank :: "WriteRequest \<Rightarrow> bool" where
  "blank r \<longleftrightarrow> shaped r \<and> wr_partCount r = 0"

lemma blank_ok:
  assumes "blank r"
  shows "building r" "content r = []" "separate r" "length (wr_inlineBytes r) = INLINE_BYTES" "wr_partCount r = 0"
  using assms by (simp_all add: blank_def building_def content_def parts_def separate_def shaped_def)

lemma blank_new: "length garbage = INLINE_BYTES \<Longrightarrow> blank (newWriteRequest garbage)"
  by (auto simp: blank_def shaped_def newWriteRequest_def INLINE_PARTS_def nth_Cons')

lemma retainCallback_blank:
  assumes "blank r" "retainCallback v r = (ok, r')"
  shows "blank r'" "wr_sent r' = wr_sent r" "wr_callback r' = wr_callback r" "wr_deferred r' = wr_deferred r"
  using assms by (auto simp: retainCallback_def blank_def shaped_def split: jsValue.splits)

lemma readInputPart_pointer:
  assumes "readInputPart v emptyPart = (True, p)"
  shows "\<forall>k. ip_pointer p \<noteq> InInline k"
  using assms by (cases v) (auto simp: Let_def prepareInputStorage_def readStringInputPart_def emptyPart_def split: if_splits)

lemma addInput_grows:
  assumes "building r" "addInput v r = (True, r')"
  shows "separate r \<Longrightarrow> separate r'" "wr_partCount r' = Suc (wr_partCount r)" "same_callback r r'"
proof -
  have s: "shaped r" using assms by (simp add: building_def)
  obtain p where p: "readInputPart v emptyPart = (True, p)" "r' = withPart p r"
    using assms(2) appendPart_shaped(2) [OF s]
    by (auto simp: addInput_def addPart_def Let_def withPart_def split: prod.splits if_splits)
  show "separate r \<Longrightarrow> separate r'" "wr_partCount r' = Suc (wr_partCount r)" "same_callback r r'"
    using withPart_separate [OF s _ readInputPart_pointer [OF p(1)]] p(2) by (simp_all add: same_callback_def)
qed

lemma addTextInput_refused: "(\<And>utf8. v \<noteq> JsString utf8) \<Longrightarrow> \<not> fst (addTextInput v r)"
  by (cases v) (auto simp: addTextInput_def addPart_def Let_def)

text \<open>A small text is framed in the request's own storage; a large one is only taken up.\<close>

lemma addSmallTextFrame_blank:
  assumes b: "blank r0"
  shows "\<exists>r. addSmallTextFrame (JsString utf8) opc r0 =
      (True, r, length (frameHeader (length utf8) opc @ utf8) \<le> INLINE_BYTES) \<and> building r \<and> wr_partCount r = 1 \<and>
    content r = (if length (frameHeader (length utf8) opc @ utf8) \<le> INLINE_BYTES
                 then frameHeader (length utf8) opc @ utf8 else utf8) \<and>
    (INLINE_BYTES < length (frameHeader (length utf8) opc @ utf8) \<longrightarrow> separate r) \<and> same_callback r0 r"
proof -
  let ?fr = "frameHeader (length utf8) opc @ utf8"
  note n = blank_ok [OF b]
  have l: "length ?fr = (if length utf8 < 126 then 2 else if length utf8 \<le> 0xffff then 4 else 10) + length utf8"
    by (simp add: length_frameHeader)
  show ?thesis
  proof (cases "length ?fr \<le> INLINE_BYTES")
    case True
    let ?b = "r0\<lparr>wr_inlineBytes := blit (wr_inlineBytes r0) 0 ?fr\<rparr>"
    have "blank ?b" using b n(4) True by (simp add: blank_def shaped_def)
    note bb = blank_ok [OF this]
    let ?p = "emptyPart\<lparr>ip_pointer := InInline 0, ip_length := length ?fr\<rparr>"
    have i: "length ?fr \<le> length (wr_inlineBytes ?b)" using n(4) True by simp
    have sm: "\<not> length utf8 > length (wr_inlineBytes r0) - (if length utf8 < 126 then 2 else if length utf8 \<le> 0xffff then 4 else 10)"
      using True l n(4) by (simp split: if_splits)
    have "part (appendPart ?b) (wr_partCount ?b) = emptyPart" "wr_partCount ?b = wr_partCount r0"
      using appendPart_shaped(2) [of ?b] bb(1) by (simp_all add: building_def)
    then have "addSmallTextFrame (JsString utf8) opc r0 = (True, withPart ?p ?b, True)"
      using sm unfolding addSmallTextFrame_def Let_def withPart_def l by simp
    moreover have "whole ?b ?p = ?fr" by (simp add: inlinePart_ok(2) blit_def)
    ultimately show ?thesis
      using withPart_ok [OF bb(1) inlinePart_ok(1) [OF i]] bb(2,5) True by (simp add: same_callback_def)
  next
    case False
    have sh: "shaped r0" using n(1) by (simp add: building_def)
    have o: "\<forall>k. ip_pointer (ownedPart utf8) \<noteq> InInline k" by (simp add: ownedPart_def)
    have "addSmallTextFrame (JsString utf8) opc r0 = (True, withPart (ownedPart utf8) r0, False)"
      using False addTextInput_ok [OF n(1)] n(4) l
      by (auto simp: addSmallTextFrame_def Let_def INLINE_BYTES_def split: if_splits)
    moreover have "separate (withPart (ownedPart utf8) r0)" by (rule withPart_separate [OF sh n(3) o])
    ultimately show ?thesis
      using False withPart_ok [OF n(1), of "ownedPart utf8"] n by (simp add: same_callback_def)
  qed
qed

lemma prependOwned_ok:
  assumes b: "building r" and one: "wr_partCount r = 1" and s: "separate r"
  shows "\<exists>r'. prependOwned v r = Some r' \<and> building r' \<and> content r' = v @ content r \<and> separate r' \<and>
    wr_partCount r' = 2 \<and> same_callback r r'"
proof -
  have sh: "shaped r" using b by (simp add: building_def)
  then obtain p where p: "wr_inlineParts r = [p, emptyPart]" "wr_extraParts r = []"
    using one by (auto simp: shaped_def INLINE_PARTS_def numeral_2_eq_2 length_Suc_conv all_conj_distrib)
  let ?r = "r\<lparr>wr_inlineParts := [ownedPart v, movePart p], wr_partCount := 2\<rparr>"
  have ps: "parts r = [p]" "parts ?r = [ownedPart v, movePart p]"
    using one p by (simp_all add: parts_def part_def INLINE_PARTS_def numeral_2_eq_2)
  have w: "whole ?r = whole r" "intact ?r = intact r" by (auto intro!: whole_cong)
  have "prependOwned v r = Some ?r" using one p by (simp add: prependOwned_def assignPart_def ownedPart_def)
  moreover have "shaped ?r" using sh p by (auto simp: shaped_def INLINE_PARTS_def)
  moreover have "intact r p" using b ps by (simp add: building_def)
  moreover have "separate ?r"
    using s unfolding separate_def ps by (auto simp: ownedPart_def movePart_def split: pointer.splits)
  ultimately show ?thesis by (simp add: building_def content_def ps w same_callback_def)
qed

section \<open>Requests that can be submitted\<close>

definition submittable :: "WriteRequest \<Rightarrow> bool" where
  "submittable r \<longleftrightarrow> building r \<and> (1 < wr_partCount r \<longrightarrow> separate r) \<and> wr_sent r = 0 \<and> \<not> wr_deferred r \<and> wr_callback r = None"

lemma submittable_prepare:
  assumes "submittable r" "prepare r = (True, r')"
  shows "prepared r'" "remaining r' = content r" "1 < wr_partCount r' \<longrightarrow> separate r'" "same_callback r r'"
proof -
  have b: "building r" using assms by (simp add: submittable_def)
  then have "length (content r) \<le> SIZE_MAX" "wr_partCount r \<noteq> 0"
    using prepare_overflow [OF b] prepare_ok [OF b] assms(2) by (fastforce simp: not_le)+
  from prepare_prepared [OF b this] assms show "prepared r'" "remaining r' = content r" "1 < wr_partCount r' \<longrightarrow> separate r'"
    "same_callback r r'" by (auto simp: submittable_def)
qed

section \<open>Deferring\<close>

definition alike :: "WriteRequest \<Rightarrow> WriteRequest \<Rightarrow> bool" where
  "alike r r' \<longleftrightarrow> shaped r \<and> shaped r' \<and> wr_partCount r' = wr_partCount r \<and> wr_bytes r' = wr_bytes r \<and> wr_sent r' = wr_sent r \<and>
     wr_cursorPart r' = wr_cursorPart r \<and> wr_cursorOffset r' = wr_cursorOffset r \<and> wr_callback r' = wr_callback r \<and>
     wr_callbackValue r' = wr_callbackValue r \<and> wr_deferred r' = wr_deferred r \<and>
     (\<forall>i < wr_partCount r. ip_length (part r' i) = ip_length (part r i) \<and> storage r' (part r' i) = storage r (part r i))"

lemma alike_refl: "shaped r \<Longrightarrow> alike r r"
  by (simp add: alike_def)

lemma storage_retain [simp]: "storage r (retainBackingStore p) = storage r p" "ip_length (retainBackingStore p) = ip_length p"
  by (simp_all add: retainBackingStore_def storage_def split: pointer.split)

lemma live_callback [simp]:
  "live (r\<lparr>wr_callback := x, wr_callbackValue := y, wr_deferred := z\<rparr>) = live r"
  "remaining (r\<lparr>wr_callback := x, wr_callbackValue := y, wr_deferred := z\<rparr>) = remaining r"
proof -
  let ?r = "r\<lparr>wr_callback := x, wr_callbackValue := y, wr_deferred := z\<rparr>"
  have p: "part ?r = part r" by (simp add: part_def fun_eq_iff)
  have q: "parts ?r = parts r" by (simp add: parts_def p)
  have s: "storage ?r = storage r" by (rule storage_cong) simp
  have d: "partData ?r = partData r" by (simp add: partData_def s fun_eq_iff)
  have "shaped ?r = shaped r" by (simp add: shaped_def)
  then show "live ?r = live r" "remaining ?r = remaining r"
    by (simp_all add: live_def remaining_def p q s d)
qed

lemma alike_fold:
  "alike r r0 \<Longrightarrow> \<forall>i \<in> set indices. i < wr_partCount r \<Longrightarrow>
   alike r (fold (\<lambda>index r. if ip_source (part r index) then setPart index (retainBackingStore (part r index)) r else r) indices r0)"
proof (induction indices arbitrary: r0)
  case (Cons index indices)
  let ?s = "if ip_source (part r0 index) then setPart index (retainBackingStore (part r0 index)) r0 else r0"
  have "alike r ?s" using Cons.prems by (auto simp: alike_def part_setPart)
  with Cons.IH Cons.prems(2) show ?case by simp
qed simp

lemma alike_live:
  assumes "alike r r'"
  shows "live r' = live r" "remaining r' = remaining r"
proof -
  have i: "map ip_length (parts r') = map ip_length (parts r)" "map (partData r') (parts r') = map (partData r) (parts r)"
    "map (storage r') (parts r') = map (storage r) (parts r)"
    using assms by (auto simp: alike_def parts_def partData_def)
  then show "remaining r' = remaining r"
    using assms by (simp add: remaining_def alike_def drop_map [symmetric])
  have "list_all2 (\<lambda>p q. ip_length p = ip_length q \<and> storage r' p = storage r q) (parts r') (parts r)"
    using i assms by (auto simp: list_all2_conv_all_nth alike_def)
  then have "list_all2 (\<lambda>p q. ip_length p = ip_length q \<and> storage r' p = storage r q) (drop (wr_cursorPart r) (parts r')) (drop (wr_cursorPart r) (parts r))"
    by (rule list_all2_dropI)
  then have "(\<forall>p \<in> set (drop (wr_cursorPart r) (parts r')). ip_length p \<le> length (storage r' p)) \<longleftrightarrow>
     (\<forall>p \<in> set (drop (wr_cursorPart r) (parts r)). ip_length p \<le> length (storage r p))"
    by (induction rule: list_all2_induct) auto
  with assms show "live r' = live r" by (auto simp: live_def alike_def)
qed

lemma wr_defer_ok:
  assumes "live r"
  shows "fst (wr_defer True r)" "live (snd (wr_defer True r))" "remaining (snd (wr_defer True r)) = remaining r"
    "wr_bytes (snd (wr_defer True r)) = wr_bytes r" "wr_sent (snd (wr_defer True r)) = wr_sent r" "wr_deferred (snd (wr_defer True r))"
    "wr_callback (snd (wr_defer True r)) =
       (if \<not> wr_deferred r \<and> wr_callbackValue r \<noteq> None then wr_callbackValue r else wr_callback r)"
proof -
  have s: "shaped r" "wr_cursorPart r \<le> wr_partCount r" using assms by (simp_all add: live_def)
  have "alike r (retainRemainingInputs r)"
    unfolding retainRemainingInputs_def using s by (intro alike_fold alike_refl) auto
  note a = this alike_live [OF this]
  show "fst (wr_defer True r)" "live (snd (wr_defer True r))" "remaining (snd (wr_defer True r)) = remaining r"
    "wr_bytes (snd (wr_defer True r)) = wr_bytes r" "wr_sent (snd (wr_defer True r)) = wr_sent r" "wr_deferred (snd (wr_defer True r))"
    "wr_callback (snd (wr_defer True r)) =
       (if \<not> wr_deferred r \<and> wr_callbackValue r \<noteq> None then wr_callbackValue r else wr_callback r)"
    using assms s a by (auto simp: wr_defer_def Let_def alike_def)
qed

lemma remainingIovecs_prefix:
  assumes "live r"
  shows "take n (concat (remainingIovecs limit r)) = take (min n (length (concat (remainingIovecs limit r)))) (remaining r)"
    "length (concat (remainingIovecs limit r)) \<le> length (remaining r)"
proof -
  have "\<exists>k. concat (remainingIovecs limit r) = take k (remaining r)"
    using remainingIovecs_ok [OF assms, of limit] by (cases "limit = 0") (auto simp: remainingIovecs_def intro: exI [of _ 0])
  then obtain k where k: "concat (remainingIovecs limit r) = take k (remaining r)" by blast
  then show "take n (concat (remainingIovecs limit r)) = take (min n (length (concat (remainingIovecs limit r)))) (remaining r)"
    "length (concat (remainingIovecs limit r)) \<le> length (remaining r)" by (simp_all add: min_def)
qed

section \<open>Sending\<close>

text \<open>How a request is sent: every call takes some of the bytes it is offered.\<close>

inductive sends :: "WriteRequest \<Rightarrow> byte list \<Rightarrow> WriteRequest \<Rightarrow> bool" where
  sends_none: "sends r [] r"
| sends_some: "sends r bs r' \<Longrightarrow> 0 < limit \<Longrightarrow> n \<le> length (concat (remainingIovecs limit r')) \<Longrightarrow>
    sends r (bs @ take n (concat (remainingIovecs limit r'))) (advance n r')"
| sends_tls: "sends r bs r' \<Longrightarrow> wr_cursorPart r' < wr_partCount r' \<Longrightarrow> n \<le> remainingPartBytes r' \<Longrightarrow>
    sends r (bs @ take n (remainingData r')) (commitTLS n (stageTLS n r'))"

lemma remainingIovecs_take:
  assumes "live r" "0 < limit" "n \<le> length (concat (remainingIovecs limit r))"
  shows "take n (concat (remainingIovecs limit r)) = take n (remaining r)" "n \<le> length (remaining r)"
proof -
  obtain k where "concat (remainingIovecs limit r) = take k (remaining r)"
    using remainingIovecs_ok [OF assms(1,2)] by blast
  with assms(3) show "take n (concat (remainingIovecs limit r)) = take n (remaining r)" "n \<le> length (remaining r)"
    by (simp_all add: min_def split: if_splits)
qed

lemma commitTLS_fields [simp]:
  "live (commitTLS n r) = live r" "remaining (commitTLS n r) = remaining r" "wr_bytes (commitTLS n r) = wr_bytes r"
  "wr_sent (commitTLS n r) = wr_sent r + n" "wr_callback (commitTLS n r) = wr_callback r"
  "wr_deferred (commitTLS n r) = wr_deferred r" "wr_callbackValue (commitTLS n r) = wr_callbackValue r"
  by (simp_all add: commitTLS_def)

lemma sends_ok:
  assumes "sends r bs r'" "live r" "wr_sent r + length (remaining r) = wr_bytes r"
  shows "live r' \<and> remaining r = bs @ remaining r' \<and> wr_sent r' + length (remaining r') = wr_bytes r' \<and>
    wr_bytes r' = wr_bytes r"
  using assms
proof (induction rule: sends.induct)
  case (sends_some r bs r' limit n)
  then have "live r'" by blast
  note t = remainingIovecs_take [OF this sends_some.hyps(2,3)]
  show ?case using sends_some.IH sends_some.prems advance_ok [OF \<open>live r'\<close> t(2)] t by simp
next
  case (sends_tls r bs r' n)
  then have l: "live r'" by blast
  then have ne: "remaining r' \<noteq> []" using remaining_Nil [of r'] sends_tls.hyps(2) by auto
  note t = remainingData_ok [OF l ne]
  have n: "n \<le> length (remaining r')" using t(2) sends_tls.hyps(3) by simp
  show ?case using sends_tls.IH sends_tls.prems stageTLS_ok [OF l n] t(3) [OF sends_tls.hyps(3)] n by simp
qed simp

section \<open>Properties\<close>

text \<open>
  C23: \<open>prepare\<close> makes a built request sendable: whatever pointers were lost when parts moved (part vectors grow,
  short strings lie inside the objects) they are repaired, the bytes to be sent are exactly those the parts were
  built from, and their number is counted. It refuses a request without parts, and the size counter never
  wraps: more bytes than \<open>size_t\<close> holds are refused.
\<close>

theorem prepare_repairs:
  assumes "building r" "prepare r = (ok, r')"
  shows "(ok \<longleftrightarrow> wr_partCount r \<noteq> 0 \<and> length (content r) \<le> SIZE_MAX) \<and>
    (length (content r) \<le> SIZE_MAX \<longrightarrow> live r' \<and> remaining r' = content r \<and> wr_bytes r' = length (content r) \<and>
       (\<forall>p \<in> set (parts r'). ip_pointer p = Dangling \<longrightarrow> ip_length p = 0))"
proof -
  have d: "ip_pointer p = Dangling \<longrightarrow> ip_length p = 0" if "ip_length p \<le> length (storage r' p)" for p
    using that by (auto simp: storage_def)
  have k: "length (content r) \<le> SIZE_MAX \<Longrightarrow> ok = (wr_partCount r \<noteq> 0) \<and> live r' \<and> remaining r' = content r \<and>
      wr_bytes r' = length (content r) \<and> readable r'"
    using prepare_ok [OF assms(1)] assms(2) by auto
  then have "ok \<longleftrightarrow> wr_partCount r \<noteq> 0 \<and> length (content r) \<le> SIZE_MAX"
    using prepare_overflow [OF assms(1)] assms(2) by (cases "length (content r) \<le> SIZE_MAX") auto
  then show ?thesis
    using k d unfolding readable_def list_all_iff by blast
qed

text \<open>
  C22: joining the parts of a request before they are encrypted (\<open>flatten\<close> into one buffer, \<open>coalescePrefix\<close> of
  any length) never changes the bytes to be sent, never aborts and never fails on a prepared request, and
  leaves its callback alone.
\<close>

theorem coalescing_keeps_bytes:
  assumes "prepared r" "1 < wr_partCount r \<longrightarrow> separate r"
  shows "(\<exists>r'. flatten r = (True, r') \<and> prepared r' \<and> remaining r' = remaining r \<and> wr_partCount r' = 1 \<and> same_callback r r') \<and>
    (\<exists>r'. coalescePrefix prefixLength r = Some (True, r') \<and> prepared r' \<and> remaining r' = remaining r \<and> same_callback r r')"
  using flatten_ok [OF assms] coalescePrefix_ok [OF assms, of prefixLength] by blast+

text \<open>
  C20: however the calls of \<open>sendmsg\<close> and \<open>SSL_write_ex\<close> cut it up (each takes any number of the bytes it is
  offered), a prepared request is sent in order, without loss or repetition: what was taken, followed by what
  remains, is what the request held, the two counters agree with it, and the request counts as complete exactly
  when every byte was taken.
\<close>

theorem sends_exactly:
  assumes "prepared r" "wr_sent r = 0" "sends r bs r'"
  shows "remaining r = bs @ remaining r' \<and> wr_remainingBytes r' = length (remaining r') \<and>
    (wr_remainingBytes r' = 0 \<longleftrightarrow> bs = remaining r)"
  using sends_ok [OF assms(3)] assms(1,2) by (auto simp: prepared_def wr_remainingBytes_def)

text \<open>
  C26: a text message of any length and opcode becomes one well-formed unmasked frame, whether it is framed
  in the request's inline storage (\<open>addSmallTextFrame\<close>) or taken up and prefixed with its header
  (\<open>prependOwned\<close>), which never aborts.
\<close>

theorem textFrame_ok:
  assumes "length garbage = INLINE_BYTES" "length utf8 \<le> SIZE_MAX - 10"
    and "addSmallTextFrame (JsString utf8) opc (newWriteRequest garbage) = (ok, r, framed)"
  shows "ok \<and> (\<exists>q r'. (if framed then Some r else prependOwned (frameHeader (ip_length (part r 0)) opc) r) = Some q \<and>
     prepare q = (True, r') \<and> prepared r' \<and> remaining r' = frameHeader (length utf8) opc @ utf8)"
proof -
  let ?fr = "frameHeader (length utf8) opc @ utf8"
  obtain r0 where "addSmallTextFrame (JsString utf8) opc (newWriteRequest garbage) = (True, r0, length ?fr \<le> INLINE_BYTES) \<and>
    building r0 \<and> wr_partCount r0 = 1 \<and> content r0 = (if length ?fr \<le> INLINE_BYTES then ?fr else utf8) \<and>
    (INLINE_BYTES < length ?fr \<longrightarrow> separate r0)"
    using addSmallTextFrame_blank [OF blank_new [OF assms(1)]] by blast
  with assms(3) have r: "ok" "framed = (length ?fr \<le> INLINE_BYTES)" "building r" "wr_partCount r = 1"
    "content r = (if framed then ?fr else utf8)" "\<not> framed \<longrightarrow> separate r" by auto
  have n: "length ?fr \<le> SIZE_MAX" using assms(2) by (simp add: length_frameHeader SIZE_MAX_def split: if_splits)
  have "\<exists>q. (if framed then Some r else prependOwned (frameHeader (ip_length (part r 0)) opc) r) = Some q \<and>
    building q \<and> content q = ?fr \<and> wr_partCount q \<noteq> 0"
  proof (cases framed)
    case True with r show ?thesis by simp
  next
    case False
    have "sum_list (map ip_length (parts r)) = length utf8" using r content_length [OF r(3)] False by simp
    then have "ip_length (part r 0) = length utf8" by (simp add: parts_def r(4))
    with False r prependOwned_ok [OF r(3,4), of "frameHeader (length utf8) opc"] show ?thesis by auto
  qed
  then obtain q where "(if framed then Some r else prependOwned (frameHeader (ip_length (part r 0)) opc) r) = Some q"
    "building q" "content q = ?fr" "wr_partCount q \<noteq> 0" by blast
  with prepare_prepared [of q] n r(1) show ?thesis by auto
qed

section \<open>Examples\<close>

text \<open>Four short strings: the third one dangles once the fourth is added.\<close>

definition exampleRequest :: WriteRequest where
  "exampleRequest = fold (\<lambda>b. addOwned [b]) [1, 2, 3, 4] (newWriteRequest (replicate INLINE_BYTES 0))"

lemma exampleRequest_ok:
  "building exampleRequest" "content exampleRequest = [1, 2, 3, 4]" "wr_partCount exampleRequest = 4" "separate exampleRequest"
proof -
  note n = newWriteRequest_ok [of "replicate INLINE_BYTES 0", OF length_replicate]
  show "building exampleRequest" "content exampleRequest = [1, 2, 3, 4]" "wr_partCount exampleRequest = 4" "separate exampleRequest"
    by (simp_all add: exampleRequest_def n addOwned_ok)
qed

lemma exampleRequest_parts: "wr_sent exampleRequest = 0" "ip_pointer (part exampleRequest 2) = Dangling"
  by (simp_all add: exampleRequest_def newWriteRequest_def addOwned_def appendPart_def setPart_def part_def parts_def
      INLINE_PARTS_def Let_def movePart_def numeral_2_eq_2 emptyPart_def upt_rec)

lemma prepare_repairs_witness:
  "ip_pointer (part exampleRequest 2) = Dangling \<and> fst (prepare exampleRequest) \<and>
   remaining (snd (prepare exampleRequest)) = [1, 2, 3, 4]"
proof -
  from prepare_repairs [OF exampleRequest_ok(1) prod.collapse [symmetric]] show ?thesis
    using exampleRequest_parts(2) by (simp add: exampleRequest_ok SIZE_MAX_def)
qed

lemma examplePrepared_ok:
  "prepared (snd (prepare exampleRequest))" "separate (snd (prepare exampleRequest))"
  "remaining (snd (prepare exampleRequest)) = [1, 2, 3, 4]"
  using prepare_prepared [OF exampleRequest_ok(1)] exampleRequest_ok by (auto simp: SIZE_MAX_def)

lemma coalescing_keeps_bytes_witness:
  "remaining (snd (flatten (snd (prepare exampleRequest)))) = [1, 2, 3, 4] \<and>
   (\<exists>r. coalescePrefix 3 (snd (prepare exampleRequest)) = Some (True, r) \<and> remaining r = [1, 2, 3, 4])"
proof -
  have s: "1 < wr_partCount (snd (prepare exampleRequest)) \<longrightarrow> separate (snd (prepare exampleRequest))"
    using examplePrepared_ok(2) by simp
  show ?thesis
    using coalescing_keeps_bytes [OF examplePrepared_ok(1) s, of 3]
      examplePrepared_ok(3) by auto
qed

lemma sends_exactly_witness:
  "remaining (snd (prepare exampleRequest)) =
     take 1 (concat (remainingIovecs 1 (snd (prepare exampleRequest)))) @ remaining (advance 1 (snd (prepare exampleRequest)))"
proof -
  let ?r = "snd (prepare exampleRequest)"
  have l: "live ?r" using examplePrepared_ok(1) by (simp add: prepared_def)
  have "1 \<le> length (concat (remainingIovecs 1 ?r))"
    using remainingIovecs_ok [OF l, of 1] examplePrepared_ok(3) by (auto simp: Suc_le_eq)
  then have "sends ?r ([] @ take 1 (concat (remainingIovecs 1 ?r))) (advance 1 ?r)"
    by (intro sends_some sends_none) simp_all
  moreover have "wr_sent ?r = 0" using prepare_prepared [OF exampleRequest_ok(1)] exampleRequest_ok
    by (auto simp: SIZE_MAX_def same_callback_def exampleRequest_parts(1))
  ultimately show ?thesis using sends_exactly [OF examplePrepared_ok(1)] by auto
qed

lemma textFrame_ok_witness:
  "\<exists>q r'. prependOwned (frameHeader 2000 TEXT) (fst (snd (addSmallTextFrame (JsString (replicate 2000 0x61)) TEXT
      (newWriteRequest (replicate INLINE_BYTES 0))))) = Some q \<and>
     prepare q = (True, r') \<and> remaining r' = frameHeader 2000 TEXT @ replicate 2000 0x61"
proof -
  let ?n = "newWriteRequest (replicate INLINE_BYTES 0)"
  obtain ok r framed where a: "addSmallTextFrame (JsString (replicate 2000 0x61)) TEXT ?n = (ok, r, framed)"
    by (metis prod.collapse)
  obtain r0 where "addSmallTextFrame (JsString (replicate 2000 0x61)) TEXT ?n = (True, r0, False)" "building r0"
    "wr_partCount r0 = 1" "length (content r0) = 2000"
    using addSmallTextFrame_blank [OF blank_new [of "replicate INLINE_BYTES 0"], of "replicate 2000 0x61" TEXT]
    by (auto simp: length_frameHeader INLINE_BYTES_def)
  with a content_length [of r0] have "\<not> framed" "ip_length (part r 0) = 2000" by (auto simp: parts_def)
  with textFrame_ok [OF _ _ a] a show ?thesis by (auto simp: SIZE_MAX_def)
qed

end
