(* ===== verification/Transport.thy ===== *)
theory Transport
  imports Write_Request Stream_WebSocket
begin

text \<open>
  \<open>NativeTransport\<close>: the connection a WebSocket owns after the upgrade. It queues writes, sends them with
  \<open>sendmsg\<close> or through OpenSSL's memory BIOs, feeds what it reads to the session and calls JavaScript,
  which may call back. The answers of the system and of OpenSSL are a list that the calls consume, one
  after the other; every run uses finitely many of them. What JavaScript does in a callback is a list of
  operations, taken from a second list. Failures of N-API and exceptions are not modelled.
\<close>

section \<open>The outside\<close>

datatype status =
  WRITE_SYNCHRONOUS | WRITE_ASYNCHRONOUS | WRITE_NOT_SENT | UV_OK
| UV_EBADF | UV_EINVAL | UV_EOVERFLOW | UV_EIO | UV_ENOBUFS | UV_ECANCELED | UV_ERRNO nat | ABORTED

definition isError :: "status \<Rightarrow> bool" where
  "isError st \<longleftrightarrow> st \<notin> {WRITE_SYNCHRONOUS, WRITE_ASYNCHRONOUS, WRITE_NOT_SENT, UV_OK}"

text \<open>
  An answer of \<open>sendmsg\<close>, \<open>send\<close>, \<open>recv\<close>, \<open>uv_poll_start\<close> or OpenSSL: a count, the bytes received and the ciphertext
  OpenSSL adds to its write BIO; or the reason why there is none.
\<close>

datatype answer =
  Interrupted
| Done nat "byte list" "byte list"
| WantRead "byte list"
| WantWrite "byte list"
| ZeroReturn
| Failure nat

text \<open>What JavaScript is called with.\<close>

datatype jsCall =
  OnMessage bool bool "byte list"
| OnClose nat "byte list"
| OnBackpressure
| OnTransportError string
| OnClosed
| WriteCallback nat status

datatype action =
  WriteMessage jsValue OpCode bool jsValue
| WriteFrameList "jsValue list option" jsValue
| WriteFrame jsValue jsValue
| WriteClose nat "byte list"
| Terminate
| Destroy

text \<open>
  The history of a connection, for the statements about it. \<open>Returned callback st\<close> is what JavaScript sees of
  a write: the callback it passed, and the status the write returned.
\<close>

datatype happening =
  Called jsCall
| Submitted "byte list"
| Promised nat
| Returned jsValue status
| Sent "byte list"
| Broken
| Encrypted "byte list"
| Ciphertext "byte list"

record 'z host =
  cpuOf :: simd
  zlibOf :: "'z zlib"
  maximumIOVectors :: nat
  strerror :: "nat \<Rightarrow> string"
  uv_strerror :: "status \<Rightarrow> string"
  uninitialised :: "nat \<Rightarrow> byte"
  sslReadBIO :: bool
  sslWriteBIO :: bool

section \<open>State\<close>

text \<open>
  Requests carry a number, which stands for their address. \<open>nt_session\<close> tells whether \<open>session_\<close> is set,
  \<open>nt_descriptor\<close> whether the descriptor is open, \<open>nt_nodeBIOs\<close> whether the BIOs are known;
  \<open>nt_writeBIO\<close> is the content of \<open>nodeWriteBIO_\<close>.
\<close>

record 'z NativeTransport =
  nt_ssl :: bool
  nt_textAsBuffer :: bool
  nt_maxBackpressure :: nat
  nt_sessionObject :: "'z Session"
  nt_session :: bool
  nt_descriptor :: bool
  nt_nodeBIOs :: bool
  nt_writeBIO :: "byte list"
  nt_queue :: "(nat \<times> WriteRequest) list"
  nt_fresh :: nat
  nt_pendingBytes :: nat
  nt_pollEvents :: "(bool \<times> bool) option"
  nt_tlsCiphertext :: "byte list"
  nt_tlsCiphertextOffset :: nat
  nt_tlsCommittedPlaintext :: nat
  nt_pendingCloseReason :: "byte list"
  nt_pendingCloseCode :: nat
  nt_active :: bool
  nt_pollInitialized :: bool
  nt_uvClosing :: bool
  nt_pollClosed :: bool
  nt_insideCloseCallback :: bool
  nt_closing :: bool
  nt_destroyRequested :: bool
  nt_flushingWrites :: bool
  nt_reportingError :: bool
  nt_pendingClose :: bool
  nt_gracefulCloseRequested :: bool
  nt_tlsWriteBlockedOnRead :: bool
  nt_tlsShutdownPending :: bool
  nt_tlsShutdownGenerated :: bool
  nt_tlsProcessingInput :: bool
  nt_environmentCleaning :: bool
  nt_deleted :: bool
  nt_io :: "answer list"
  nt_reactions :: "(action list \<times> bool) list"
  nt_history :: "happening list"

definition newNativeTransport ::
  "bool \<Rightarrow> 'z Session \<Rightarrow> bool \<Rightarrow> nat \<Rightarrow> byte list \<Rightarrow> answer list \<Rightarrow> (action list \<times> bool) list \<Rightarrow> 'z NativeTransport" where
  "newNativeTransport ssl session textAsBuffer maxBackpressure bio io reactions =
     \<lparr>nt_ssl = ssl, nt_textAsBuffer = textAsBuffer, nt_maxBackpressure = maxBackpressure,
      nt_sessionObject = session, nt_session = True, nt_descriptor = True, nt_nodeBIOs = False, nt_writeBIO = bio,
      nt_queue = [], nt_fresh = 0, nt_pendingBytes = 0, nt_pollEvents = None,
      nt_tlsCiphertext = [], nt_tlsCiphertextOffset = 0, nt_tlsCommittedPlaintext = 0,
      nt_pendingCloseReason = [], nt_pendingCloseCode = 1006,
      nt_active = False, nt_pollInitialized = False, nt_uvClosing = False, nt_pollClosed = False,
      nt_insideCloseCallback = False, nt_closing = False, nt_destroyRequested = False,
      nt_flushingWrites = False, nt_reportingError = False, nt_pendingClose = False,
      nt_gracefulCloseRequested = False, nt_tlsWriteBlockedOnRead = False, nt_tlsShutdownPending = False,
      nt_tlsShutdownGenerated = False, nt_tlsProcessingInput = False, nt_environmentCleaning = False,
      nt_deleted = False, nt_io = io, nt_reactions = reactions, nt_history = [Ciphertext bio]\<rparr>"

text \<open>
  What an operation calls that may come back to the transport: JavaScript, and the end of a flush. The
  C++ stack is cut at a depth (\<open>upcallsAt\<close> below); the theorems hold for every depth.
\<close>

record 'z upcalls =
  up_js :: "jsCall \<Rightarrow> 'z NativeTransport \<Rightarrow> bool \<times> 'z NativeTransport"
  up_finish :: "'z NativeTransport \<Rightarrow> 'z NativeTransport"

definition happen :: "happening \<Rightarrow> 'z NativeTransport \<Rightarrow> 'z NativeTransport" where
  "happen h t = t\<lparr>nt_history := nt_history t @ [h]\<rparr>"

definition callOwner :: "'z upcalls \<Rightarrow> jsCall \<Rightarrow> 'z NativeTransport \<Rightarrow> bool \<times> 'z NativeTransport" where
  "callOwner U call t = up_js U call (happen (Called call) t)"

text \<open>
  The next answer; interrupted calls are repeated at once. Without an answer left the call would block.
\<close>

definition nextAnswer :: "'z NativeTransport \<Rightarrow> answer \<times> 'z NativeTransport" where
  "nextAnswer t =
     (case dropWhile (\<lambda>a. a = Interrupted) (nt_io t) of
        [] \<Rightarrow> (WantRead [], t\<lparr>nt_io := []\<rparr>)
      | a # rest \<Rightarrow> (a, t\<lparr>nt_io := rest\<rparr>))"

datatype ioResult = Wrote nat | WouldBlock | IoError nat

definition bioAppend :: "byte list \<Rightarrow> 'z NativeTransport \<Rightarrow> 'z NativeTransport" where
  "bioAppend ciphertext t = happen (Ciphertext ciphertext) (t\<lparr>nt_writeBIO := nt_writeBIO t @ ciphertext\<rparr>)"

definition sendRaw :: "byte list \<Rightarrow> 'z NativeTransport \<Rightarrow> ioResult \<times> 'z NativeTransport" where
  "sendRaw dat t =
     (case nextAnswer t of
        (Done n _ _, t) \<Rightarrow> (Wrote (min n (length dat)), happen (Sent (take n dat)) t)
      | (Failure e, t) \<Rightarrow> (IoError e, happen Broken t)
      | (_, t) \<Rightarrow> (WouldBlock, t))"

section \<open>The queue\<close>

definition writable :: "'z NativeTransport \<Rightarrow> bool" where
  "writable t \<longleftrightarrow> \<not> nt_closing t \<and> nt_session t \<and> nt_descriptor t"

definition invokeWriteCallback :: "'z upcalls \<Rightarrow> WriteRequest \<Rightarrow> status \<Rightarrow> 'z NativeTransport \<Rightarrow> 'z NativeTransport" where
  "invokeWriteCallback U r st t =
     (case wr_callback r of None \<Rightarrow> t | Some f \<Rightarrow> snd (callOwner U (WriteCallback f st) t))"

definition enqueueWrite :: "nat \<times> WriteRequest \<Rightarrow> 'z NativeTransport \<Rightarrow> 'z NativeTransport" where
  "enqueueWrite request t = t\<lparr>nt_queue := nt_queue t @ [request]\<rparr>"

definition dequeueWrite :: "'z NativeTransport \<Rightarrow> WriteRequest \<times> 'z NativeTransport" where
  "dequeueWrite t = (snd (hd (nt_queue t)), t\<lparr>nt_queue := tl (nt_queue t)\<rparr>)"

definition completeHeadWrite :: "'z upcalls \<Rightarrow> status \<Rightarrow> 'z NativeTransport \<Rightarrow> 'z NativeTransport" where
  "completeHeadWrite U st t =
     (let (r, t) = dequeueWrite t in if wr_deferred r then invokeWriteCallback U r st t else t)"

primrec cancelLoop :: "'z upcalls \<Rightarrow> status \<Rightarrow> nat \<Rightarrow> 'z NativeTransport \<Rightarrow> 'z NativeTransport" where
  "cancelLoop U st 0 t = t"
| "cancelLoop U st (Suc n) t =
     (if nt_queue t = [] then t
      else let (r, t) = dequeueWrite t;
               t = t\<lparr>nt_pendingBytes := nt_pendingBytes t - min (nt_pendingBytes t) (wr_remainingBytes r)\<rparr>;
               t = (if nt_environmentCleaning t then t
                    else if wr_deferred r then invokeWriteCallback U r st t else t)
           in cancelLoop U st n t)"

text \<open>While writes are cancelled none is queued: as many rounds as there are requests are enough.\<close>

definition cancelWrites :: "'z upcalls \<Rightarrow> status \<Rightarrow> 'z NativeTransport \<Rightarrow> 'z NativeTransport" where
  "cancelWrites U st t = cancelLoop U st (length (nt_queue t)) t"

section \<open>Closing\<close>

definition closeNow :: "'z upcalls \<Rightarrow> status \<Rightarrow> 'z NativeTransport \<Rightarrow> 'z NativeTransport" where
  "closeNow U st t =
     (if nt_closing t then t
      else let t = cancelWrites U st (t\<lparr>nt_closing := True\<rparr>);
               t = t\<lparr>nt_tlsCiphertext := [], nt_tlsCiphertextOffset := 0, nt_tlsCommittedPlaintext := 0\<rparr>;
               t = (if nt_pollInitialized t then t\<lparr>nt_pollEvents := None\<rparr> else t);
               t = t\<lparr>nt_descriptor := False\<rparr>
           in if nt_pollInitialized t \<and> \<not> nt_uvClosing t then t\<lparr>nt_uvClosing := True\<rparr>
              else t\<lparr>nt_pollClosed := True\<rparr>)"

definition reportTransportError :: "'z upcalls \<Rightarrow> string \<Rightarrow> 'z NativeTransport \<Rightarrow> 'z NativeTransport" where
  "reportTransportError U message t =
     (if nt_reportingError t then t
      else let (ok, t) = callOwner U (OnTransportError message) (t\<lparr>nt_reportingError := True\<rparr>)
           in t\<lparr>nt_reportingError := False\<rparr>)"

definition nt_fail :: "'z upcalls \<Rightarrow> string \<Rightarrow> 'z NativeTransport \<Rightarrow> 'z NativeTransport" where
  "nt_fail U message t =
     (if nt_closing t then t else closeNow U UV_ECANCELED (reportTransportError U message t))"

definition backpressureExceeded :: "'z NativeTransport \<Rightarrow> bool" where
  "backpressureExceeded t \<longleftrightarrow> nt_maxBackpressure t \<noteq> 0 \<and> nt_pendingBytes t > nt_maxBackpressure t"

definition terminateForBackpressure :: "'z upcalls \<Rightarrow> 'z NativeTransport \<Rightarrow> 'z NativeTransport" where
  "terminateForBackpressure U t =
     (if nt_closing t then t else closeNow U UV_ENOBUFS (snd (callOwner U OnBackpressure t)))"

section \<open>TLS output\<close>

definition TLS_COALESCE_PREFIX :: nat where "TLS_COALESCE_PREFIX = 4 * 1024"
definition TLS_FULL_COALESCE_LIMIT :: nat where "TLS_FULL_COALESCE_LIMIT = 16 * 1024 + 14"
definition TLS_OUTPUT_BATCH_SIZE :: nat where "TLS_OUTPUT_BATCH_SIZE = 64 * 1024"
definition TLS_PLAINTEXT_BATCH_SIZE :: nat where "TLS_PLAINTEXT_BATCH_SIZE = 60 * 1024"
definition SHARED_READ_BUFFER_SIZE :: nat where "SHARED_READ_BUFFER_SIZE = 64 * 1024"

definition hasTLSOutput :: "'z NativeTransport \<Rightarrow> bool" where
  "hasTLSOutput t \<longleftrightarrow> nt_tlsCiphertextOffset t < length (nt_tlsCiphertext t) \<or>
     nt_nodeBIOs t \<and> nt_writeBIO t \<noteq> []"

text \<open>
  The loop that moves batches from the write BIO to the descriptor. A memory BIO hands out what it is
  asked for, up to what is pending, so that the inner loop of \<open>BIO_read\<close> fills the batch.
\<close>

function drainBIO :: "'z host \<Rightarrow> 'z upcalls \<Rightarrow> 'z NativeTransport \<Rightarrow> bool \<times> 'z NativeTransport" where
  "drainBIO E U t =
     (if nt_writeBIO t = [] then (True, t)
      else let batch = take TLS_OUTPUT_BATCH_SIZE (nt_writeBIO t);
               t = t\<lparr>nt_writeBIO := drop TLS_OUTPUT_BATCH_SIZE (nt_writeBIO t)\<rparr>
           in case sendRaw batch t of
                (IoError e, t) \<Rightarrow> (False, nt_fail U (strerror E e) t)
              | (Wrote n, t) \<Rightarrow>
                  if n = length batch then drainBIO E U t
                  else (True, t\<lparr>nt_tlsCiphertext := drop n batch, nt_tlsCiphertextOffset := 0\<rparr>)
              | (WouldBlock, t) \<Rightarrow> (True, t\<lparr>nt_tlsCiphertext := batch, nt_tlsCiphertextOffset := 0\<rparr>))"
  by pat_completeness auto

lemma nextAnswer_fields:
  assumes "nextAnswer t = (a, t')"
  shows "\<exists>io. t' = t\<lparr>nt_io := io\<rparr> \<and> length io \<le> length (nt_io t) \<and> (a \<noteq> WantRead [] \<longrightarrow> length io < length (nt_io t))"
proof -
  have "length (dropWhile (\<lambda>a. a = Interrupted) (nt_io t)) \<le> length (nt_io t)" by (rule length_dropWhile_le)
  with assms show ?thesis by (auto simp: nextAnswer_def split: list.splits)
qed

lemma sendRaw_fields:
  assumes "sendRaw dat t = (res, t')"
  shows "\<exists>io. length io \<le> length (nt_io t) \<and>
    t' = (case res of Wrote n \<Rightarrow> happen (Sent (take n dat)) (t\<lparr>nt_io := io\<rparr>) 
      | IoError e \<Rightarrow> happen Broken (t\<lparr>nt_io := io\<rparr>) | WouldBlock \<Rightarrow> t\<lparr>nt_io := io\<rparr>) \<and>
    (case res of Wrote n \<Rightarrow> n \<le> length dat | _ \<Rightarrow> True)"
proof -
  obtain a u where u: "nextAnswer t = (a, u)" by (cases "nextAnswer t")
  obtain io where io: "u = t\<lparr>nt_io := io\<rparr>" "length io \<le> length (nt_io t)" using nextAnswer_fields [OF u] by blast
  with assms u show ?thesis
    by (intro exI [of _ io], cases a) (simp_all add: sendRaw_def, auto simp: min_def)
qed

lemma sendRaw_writeBIO: "sendRaw dat t = (res, t') \<Longrightarrow> nt_writeBIO t' = nt_writeBIO t"
  using sendRaw_fields [of dat t res t'] by (auto simp: happen_def split: ioResult.splits)

termination drainBIO
  by (relation "measure (\<lambda>(E, U, t). length (nt_writeBIO t))")
    (auto simp: TLS_OUTPUT_BATCH_SIZE_def dest!: sendRaw_writeBIO [OF sym])

declare drainBIO.simps [simp del]

definition flushMemoryBIOOutput :: "'z host \<Rightarrow> 'z upcalls \<Rightarrow> 'z NativeTransport \<Rightarrow> bool \<times> 'z NativeTransport" where
  "flushMemoryBIOOutput E U t =
     (if nt_tlsCiphertextOffset t < length (nt_tlsCiphertext t) then
        (case sendRaw (drop (nt_tlsCiphertextOffset t) (nt_tlsCiphertext t)) t of
           (IoError e, t) \<Rightarrow> (False, nt_fail U (strerror E e) t)
         | (Wrote n, t) \<Rightarrow>
             (let t = t\<lparr>nt_tlsCiphertextOffset := nt_tlsCiphertextOffset t + n\<rparr>;
                  t = (if nt_tlsCiphertextOffset t = length (nt_tlsCiphertext t)
                       then t\<lparr>nt_tlsCiphertext := [], nt_tlsCiphertextOffset := 0\<rparr> else t)
              in if nt_tlsCiphertextOffset t < length (nt_tlsCiphertext t) then (True, t) else drainBIO E U t)
         | (WouldBlock, t) \<Rightarrow> (True, t))
      else drainBIO E U t)"

section \<open>Writing\<close>

definition setHead :: "WriteRequest \<Rightarrow> 'z NativeTransport \<Rightarrow> 'z NativeTransport" where
  "setHead r t = t\<lparr>nt_queue := (fst (hd (nt_queue t)), r) # tl (nt_queue t)\<rparr>"

definition writeTCP :: "'z host \<Rightarrow> WriteRequest \<Rightarrow> 'z NativeTransport \<Rightarrow> ioResult \<times> 'z NativeTransport" where
  "writeTCP E r t = sendRaw (concat (remainingIovecs (maximumIOVectors E) r)) t"

text \<open>The loop of \<open>writeTLS\<close> on the first request of the queue; \<open>False\<close> is the return of an error.\<close>

function stageLoop :: "nat \<Rightarrow> 'z NativeTransport \<Rightarrow> bool \<times> 'z NativeTransport" where
  "stageLoop batchRemaining t =
     (let r = snd (hd (nt_queue t))
      in if unstagedBytes (nt_tlsCommittedPlaintext t) r = 0 \<or> batchRemaining = 0 then (True, t)
         else let batch = min (remainingPartBytes r) batchRemaining
         in case nextAnswer t of
              (Done n _ ciphertext, t) \<Rightarrow>
                (let n = min n batch; t = bioAppend ciphertext t
                 in if n = 0 then (False, t)
                    else let t = happen (Encrypted (take n (remainingData r))) t;
                             t = (setHead (stageTLS n r) t)\<lparr>nt_tlsWriteBlockedOnRead := False,
                                   nt_tlsCommittedPlaintext := nt_tlsCommittedPlaintext t + n\<rparr>
                         in stageLoop (batchRemaining - n) t)
            | (WantRead ciphertext, t) \<Rightarrow> (True, bioAppend ciphertext (t\<lparr>nt_tlsWriteBlockedOnRead := True\<rparr>))
            | (WantWrite ciphertext, t) \<Rightarrow> (True, bioAppend ciphertext (t\<lparr>nt_tlsWriteBlockedOnRead := False\<rparr>))
            | (_, t) \<Rightarrow> (False, t))"
  by pat_completeness auto
termination
  by (relation "measure fst") auto

declare stageLoop.simps [simp del]

definition takeCommitted :: "'z host \<Rightarrow> 'z upcalls \<Rightarrow> 'z NativeTransport \<Rightarrow> ioResult \<times> 'z NativeTransport" where
  "takeCommitted E U t =
     (case flushMemoryBIOOutput E U t of
        (False, t) \<Rightarrow> (IoError 0, t)
      | (True, t) \<Rightarrow>
          if hasTLSOutput t then (Wrote 0, t)
          else (Wrote (nt_tlsCommittedPlaintext t), t\<lparr>nt_tlsCommittedPlaintext := 0\<rparr>))"

definition EIO :: nat where "EIO = 5"

definition writeTLS :: "'z host \<Rightarrow> 'z upcalls \<Rightarrow> 'z NativeTransport \<Rightarrow> ioResult \<times> 'z NativeTransport" where
  "writeTLS E U t =
     (if nt_tlsCommittedPlaintext t \<noteq> 0 then takeCommitted E U t
      else case stageLoop TLS_PLAINTEXT_BATCH_SIZE t of
             (False, t) \<Rightarrow> (IoError EIO, t)
           | (True, t) \<Rightarrow>
               if nt_tlsCommittedPlaintext t = 0 then
                 (case flushMemoryBIOOutput E U t of (False, t) \<Rightarrow> (IoError 0, t) | (True, t) \<Rightarrow> (Wrote 0, t))
               else takeCommitted E U t)"

text \<open>The loop of \<open>flushWrites\<close>; the result is the error that ends it, if any.\<close>

primrec flushLoop :: "'z host \<Rightarrow> 'z upcalls \<Rightarrow> nat \<Rightarrow> 'z NativeTransport \<Rightarrow> nat option \<times> 'z NativeTransport" where
  "flushLoop E U 0 t = (None, t)"
| "flushLoop E U (Suc fuel) t =
     (if nt_queue t = [] \<or> nt_closing t then (None, t)
      else case (if nt_ssl t then writeTLS E U t else writeTCP E (snd (hd (nt_queue t))) t) of
             (IoError e, t) \<Rightarrow> (Some e, t)
           | (WouldBlock, t) \<Rightarrow> (None, t)
           | (Wrote n, t) \<Rightarrow>
               if n = 0 then (None, t)
               else let r = snd (hd (nt_queue t));
                        r = (if nt_ssl t then commitTLS n r else advance n r);
                        t = (setHead r t)\<lparr>nt_pendingBytes := nt_pendingBytes t - min (nt_pendingBytes t) n\<rparr>;
                        t = (if wr_remainingBytes r = 0 then completeHeadWrite U UV_OK t else t)
                    in flushLoop E U fuel t)"

definition flushFuel :: "'z NativeTransport \<Rightarrow> nat" where
  "flushFuel t = 2 * length (nt_io t) + 3"

text \<open>Each round takes an answer, except the one that hands out plaintext encrypted before.\<close>

definition flushWrites :: "'z host \<Rightarrow> 'z upcalls \<Rightarrow> 'z NativeTransport \<Rightarrow> 'z NativeTransport" where
  "flushWrites E U t =
     (if nt_flushingWrites t \<or> nt_closing t \<or> \<not> nt_active t then t
      else let (flushed, t) = (if nt_ssl t then flushMemoryBIOOutput E U t else (True, t))
      in if \<not> flushed \<or> nt_ssl t \<and> hasTLSOutput t then t
      else let (error, t) = flushLoop E U (flushFuel t) (t\<lparr>nt_flushingWrites := True\<rparr>);
               t = t\<lparr>nt_flushingWrites := False\<rparr>
           in case error of
                Some e \<Rightarrow> nt_fail U (uv_strerror E (if e = 0 then UV_EIO else UV_ERRNO e)) t
              | None \<Rightarrow> if nt_queue t = [] then up_finish U t else t)"

definition updatePoll :: "'z host \<Rightarrow> 'z upcalls \<Rightarrow> 'z NativeTransport \<Rightarrow> 'z NativeTransport" where
  "updatePoll E U t =
     (if \<not> nt_active t \<or> nt_closing t then t
      else let events = Some (True, nt_queue t \<noteq> [] \<and> (\<not> nt_ssl t \<or> \<not> nt_tlsWriteBlockedOnRead t) \<or>
                                    nt_tlsShutdownPending t \<or> nt_ssl t \<and> hasTLSOutput t)
      in if events = nt_pollEvents t then t
      else case nextAnswer t of
             (Failure e, t) \<Rightarrow> nt_fail U (uv_strerror E (UV_ERRNO e)) t
           | (_, t) \<Rightarrow> t\<lparr>nt_pollEvents := events\<rparr>)"

text \<open>A request already queued is deferred before it is counted; references to callbacks are granted.\<close>

definition promise :: "WriteRequest \<Rightarrow> 'z NativeTransport \<Rightarrow> 'z NativeTransport" where
  "promise r t =
     (case (if wr_deferred r then None else wr_callbackValue r) of None \<Rightarrow> t | Some f \<Rightarrow> happen (Promised f) t)"

definition deferQueued :: "nat \<Rightarrow> 'z NativeTransport \<Rightarrow> 'z NativeTransport" where
  "deferQueued number t =
     (case map_of (nt_queue t) number of
        None \<Rightarrow> t
      | Some r \<Rightarrow> promise r (t\<lparr>nt_queue :=
          map (\<lambda>(k, r). (k, if k = number then snd (wr_defer True r) else r)) (nt_queue t)\<rparr>))"

definition joinParts :: "WriteRequest \<Rightarrow> (bool \<times> WriteRequest) option" where
  "joinParts r =
     (if wr_bytes r \<le> TLS_FULL_COALESCE_LIMIT then Some (flatten r) else coalescePrefix TLS_COALESCE_PREFIX r)"

text \<open>The request is counted and enters the queue; behind others it is deferred at once.\<close>

definition queued :: "bool \<Rightarrow> WriteRequest \<Rightarrow> 'z NativeTransport \<Rightarrow> 'z NativeTransport" where
  "queued alreadyQueued r t =
     (let number = nt_fresh t;
          t = happen (Submitted (remaining r)) (t\<lparr>nt_fresh := number + 1\<rparr>);
          t = (if alreadyQueued then promise r t else t);
          r = (if alreadyQueued then snd (wr_defer True r) else r)
      in enqueueWrite (number, r) (t\<lparr>nt_pendingBytes := nt_pendingBytes t + wr_bytes r\<rparr>))"

definition submit :: "'z host \<Rightarrow> 'z upcalls \<Rightarrow> WriteRequest \<Rightarrow> 'z NativeTransport \<Rightarrow> status \<times> 'z NativeTransport" where
  "submit E U request t =
     (if \<not> writable t then (UV_EBADF, t)
      else let (ok, r) = prepare request
      in if \<not> ok then (UV_EINVAL, t)
      else if wr_bytes r = 0 then (WRITE_SYNCHRONOUS, t)
      else if nt_pendingBytes t > SIZE_MAX - wr_bytes r then (UV_EOVERFLOW, t)
      else case (if nt_ssl t \<and> wr_partCount r > 1 then joinParts r else Some (True, r)) of
        None \<Rightarrow> (ABORTED, t)
      | Some (False, r) \<Rightarrow> (UV_EINVAL, t)
      | Some (True, r) \<Rightarrow>
          (let number = nt_fresh t;
               alreadyQueued = nt_queue t \<noteq> [] \<or> nt_flushingWrites t;
               t = queued alreadyQueued r t
           in if alreadyQueued
              then (WRITE_ASYNCHRONOUS,
                    if backpressureExceeded t then terminateForBackpressure U t else updatePoll E U t)
              else let t = flushWrites E U t
              in if nt_closing t then (UV_EIO, t)
              else if number \<in> fst ` set (nt_queue t)
              then let t = deferQueued number t;
                       t = (if backpressureExceeded t then terminateForBackpressure U t else t)
                   in (WRITE_ASYNCHRONOUS, if nt_closing t then t else updatePoll E U t)
              else (WRITE_SYNCHRONOUS, t)))"

definition newRequest :: "'z host \<Rightarrow> WriteRequest" where
  "newRequest E = newWriteRequest (map (uninitialised E) [0..<INLINE_BYTES])"

definition writeOwned :: "'z host \<Rightarrow> 'z upcalls \<Rightarrow> byte list \<Rightarrow> 'z NativeTransport \<Rightarrow> status \<times> 'z NativeTransport" where
  "writeOwned E U v = submit E U (addOwned v (newRequest E))"

section \<open>Reading\<close>

definition dispatchMessage :: "'z upcalls \<Rightarrow> StreamWebSocketEvent \<Rightarrow> 'z NativeTransport \<Rightarrow> bool \<times> 'z NativeTransport" where
  "dispatchMessage U e t =
     callOwner U (OnMessage (ev_opCode e = BINARY) (ev_opCode e = BINARY \<or> nt_textAsBuffer t) (payloadData e)) t"

text \<open>The loop of \<open>consume\<close> over the events of one read.\<close>

primrec consumeEvents :: "'z host \<Rightarrow> 'z upcalls \<Rightarrow> StreamWebSocketEvent list \<Rightarrow> 'z NativeTransport \<Rightarrow> bool \<times> 'z NativeTransport" where
  "consumeEvents E U [] t = (\<not> nt_closing t, t)"
| "consumeEvents E U (e # es) t =
     (if \<not> nt_session t \<or> nt_closing t then (False, t)
      else case ev_type e of
        FRAME \<Rightarrow>
          (let (st, t) = writeOwned E U (ev_data e) t
           in if isError st then (False, nt_fail U (uv_strerror E st) t) else consumeEvents E U es t)
      | MESSAGE \<Rightarrow>
          (let (ok, t) = dispatchMessage U e t in if ok then consumeEvents E U es t else (False, t))
      | CLOSED \<Rightarrow>
          consumeEvents E U es
            (up_finish U (t\<lparr>nt_pendingClose := True, nt_pendingCloseCode := ev_code e,
                             nt_pendingCloseReason := payloadData e\<rparr>)))"

definition nt_consume :: "'z host \<Rightarrow> 'z upcalls \<Rightarrow> byte list \<Rightarrow> 'z NativeTransport \<Rightarrow> bool \<times> 'z NativeTransport" where
  "nt_consume E U dat t =
     (let (x, buffer) = sw_consume (cpuOf E) (zlibOf E) dat 0 (length dat) (nt_sessionObject t);
          (ok, t) = consumeEvents E U (events (sock x)) (t\<lparr>nt_sessionObject := x\<rparr>)
      in (ok, t\<lparr>nt_sessionObject := releaseEvents (nt_sessionObject t)\<rparr>))"

text \<open>
  \<open>SSL_read_ex\<close>: the count of the answer tells whether OpenSSL or the read BIO have more. Each round takes
  an answer.
\<close>

primrec readLoop :: "'z host \<Rightarrow> 'z upcalls \<Rightarrow> nat \<Rightarrow> 'z NativeTransport \<Rightarrow> bool \<times> 'z NativeTransport" where
  "readLoop E U 0 t = (True, t)"
| "readLoop E U (Suc fuel) t =
     (if nt_closing t then (True, t)
      else case nextAnswer t of
        (Done pending plaintext ciphertext, t) \<Rightarrow>
          (let t = bioAppend ciphertext t
           in if plaintext = [] then (False, nt_fail U ''SSL_read during TLS transfer'' t)
              else let (ok, t) = nt_consume E U (take SHARED_READ_BUFFER_SIZE plaintext) t
              in if \<not> ok then (False, t) else if pending = 0 then (True, t) else readLoop E U fuel t)
      | (WantRead ciphertext, t) \<Rightarrow> (True, bioAppend ciphertext t)
      | (WantWrite ciphertext, t) \<Rightarrow> (True, bioAppend ciphertext t)
      | (ZeroReturn, t) \<Rightarrow> (False, closeNow U UV_ECANCELED t)
      | (_, t) \<Rightarrow> (False, nt_fail U ''SSL_read during TLS transfer'' t))"

definition processMemoryBIO :: "'z host \<Rightarrow> 'z upcalls \<Rightarrow> 'z NativeTransport \<Rightarrow> bool \<times> 'z NativeTransport" where
  "processMemoryBIO E U t =
     (if \<not> nt_ssl t \<or> nt_closing t then (\<not> nt_closing t, t)
      else if nt_tlsProcessingInput t then flushMemoryBIOOutput E U t
      else let (ok, t) = readLoop E U (Suc (length (nt_io t))) (t\<lparr>nt_tlsProcessingInput := True\<rparr>);
               (ok, t) = (if ok then flushMemoryBIOOutput E U t else (False, t))
           in (ok, t\<lparr>nt_tlsProcessingInput := False\<rparr>))"

definition performTLSShutdown :: "'z host \<Rightarrow> 'z upcalls \<Rightarrow> 'z NativeTransport \<Rightarrow> 'z NativeTransport" where
  "performTLSShutdown E U t =
     (if \<not> nt_gracefulCloseRequested t \<or> nt_closing t \<or> nt_queue t \<noteq> [] then t
      else if \<not> nt_ssl t then closeNow U UV_ECANCELED t
      else if nt_tlsShutdownGenerated t then
        (let (ok, t) = flushMemoryBIOOutput E U t
         in if \<not> ok then t
            else if hasTLSOutput t then t\<lparr>nt_tlsShutdownPending := True\<rparr>
            else closeNow U UV_ECANCELED (t\<lparr>nt_tlsShutdownPending := False\<rparr>))
      else let (ok, t) = processMemoryBIO E U t
      in if \<not> ok \<or> hasTLSOutput t then t\<lparr>nt_tlsShutdownPending := True\<rparr>
         else let (generated, t) =
                (case nextAnswer t of
                   (Done _ _ ciphertext, t) \<Rightarrow> (True, bioAppend ciphertext t)
                 | (WantRead ciphertext, t) \<Rightarrow> (True, bioAppend ciphertext t)
                 | (WantWrite ciphertext, t) \<Rightarrow> (True, bioAppend ciphertext t)
                 | (_, t) \<Rightarrow> (False, t))
              in if \<not> generated then closeNow U UV_ECANCELED (t\<lparr>nt_tlsShutdownPending := False\<rparr>)
                 else let (ok, t) = flushMemoryBIOOutput E U (t\<lparr>nt_tlsShutdownGenerated := True\<rparr>)
                 in if \<not> ok then t
                    else if hasTLSOutput t then t\<lparr>nt_tlsShutdownPending := True\<rparr>
                    else closeNow U UV_ECANCELED (t\<lparr>nt_tlsShutdownPending := False\<rparr>))"

definition maybeFinishPeerClose :: "'z host \<Rightarrow> 'z upcalls \<Rightarrow> 'z NativeTransport \<Rightarrow> 'z NativeTransport" where
  "maybeFinishPeerClose E U t =
     (if nt_closing t then t
      else let (ok, t) =
             (if nt_pendingClose t
              then (let (ok, t) = callOwner U (OnClose (nt_pendingCloseCode t) (nt_pendingCloseReason t))
                                    (t\<lparr>nt_pendingClose := False\<rparr>)
                    in (ok, if ok then t\<lparr>nt_gracefulCloseRequested := True\<rparr> else t))
              else (True, t))
           in if ok \<and> nt_gracefulCloseRequested t then performTLSShutdown E U t else t)"

definition readTCP :: "'z host \<Rightarrow> 'z upcalls \<Rightarrow> 'z NativeTransport \<Rightarrow> 'z NativeTransport" where
  "readTCP E U t =
     (case nextAnswer t of
        (Done _ dat _, t) \<Rightarrow>
          (if dat = [] then closeNow U UV_ECANCELED t
           else snd (nt_consume E U (take SHARED_READ_BUFFER_SIZE dat) t))
      | (ZeroReturn, t) \<Rightarrow> closeNow U UV_ECANCELED t
      | (Failure e, t) \<Rightarrow> nt_fail U (strerror E e) t
      | (_, t) \<Rightarrow> t)"

text \<open>The loop of \<open>BIO_write\<close> over what was received; only its length matters here.\<close>

function bioWrite :: "nat \<Rightarrow> 'z NativeTransport \<Rightarrow> bool \<times> 'z NativeTransport" where
  "bioWrite n t =
     (if n = 0 then (True, t)
      else case nextAnswer t of
             (Done k _ _, t) \<Rightarrow> if k = 0 then (False, t) else bioWrite (n - min k n) t
           | (_, t) \<Rightarrow> (False, t))"
  by pat_completeness auto
termination
  by (relation "measure fst") auto

declare bioWrite.simps [simp del]

definition readTLSMemoryBIO :: "'z host \<Rightarrow> 'z upcalls \<Rightarrow> 'z NativeTransport \<Rightarrow> 'z NativeTransport" where
  "readTLSMemoryBIO E U t =
     (if nt_closing t then t
      else case nextAnswer t of
        (Done _ dat _, t) \<Rightarrow>
          (if dat = [] then closeNow U UV_ECANCELED t
           else let (ok, t) = bioWrite (length (take SHARED_READ_BUFFER_SIZE dat)) t
           in if \<not> ok then nt_fail U ''failed to transfer encrypted TLS input'' t
              else snd (processMemoryBIO E U t))
      | (ZeroReturn, t) \<Rightarrow> closeNow U UV_ECANCELED t
      | (Failure e, t) \<Rightarrow> nt_fail U (strerror E e) t
      | (_, t) \<Rightarrow> snd (processMemoryBIO E U t))"

definition readAvailable :: "'z host \<Rightarrow> 'z upcalls \<Rightarrow> 'z NativeTransport \<Rightarrow> 'z NativeTransport" where
  "readAvailable E U t = (if nt_ssl t then readTLSMemoryBIO E U t else readTCP E U t)"

definition nt_poll :: "'z host \<Rightarrow> 'z upcalls \<Rightarrow> nat option \<Rightarrow> bool \<Rightarrow> bool \<Rightarrow> 'z NativeTransport \<Rightarrow> 'z NativeTransport" where
  "nt_poll E U error reading writing t =
     (if nt_closing t then t
      else case error of Some e \<Rightarrow> nt_fail U (uv_strerror E (UV_ERRNO e)) t
      | None \<Rightarrow>
          let t = (if reading then
                     (let retryWrite = nt_tlsWriteBlockedOnRead t;
                          t = readAvailable E U (t\<lparr>nt_tlsWriteBlockedOnRead := False\<rparr>)
                      in if \<not> nt_closing t \<and> retryWrite then flushWrites E U t else t)
                   else t)
          in if \<not> nt_closing t \<and> writing then
               (let t = (if nt_tlsShutdownPending t then performTLSShutdown E U t else t)
                in if nt_closing t then t
                   else let t = (if nt_ssl t then snd (processMemoryBIO E U t) else t);
                            t = (if \<not> nt_closing t then flushWrites E U t else t);
                            t = (if \<not> nt_closing t \<and> nt_tlsShutdownPending t then performTLSShutdown E U t else t)
                        in if \<not> nt_closing t then updatePoll E U t else t)
             else if \<not> nt_closing t then updatePoll E U t else t)"

section \<open>The operations of JavaScript\<close>

text \<open>The lifetime of the object ends where its destructor begins.\<close>

definition nt_delete :: "'z upcalls \<Rightarrow> 'z NativeTransport \<Rightarrow> 'z NativeTransport" where
  "nt_delete U t = (cancelWrites U UV_ECANCELED (t\<lparr>nt_deleted := True\<rparr>))\<lparr>nt_descriptor := False\<rparr>"

definition activate :: "'z host \<Rightarrow> 'z upcalls \<Rightarrow> 'z NativeTransport \<Rightarrow> status \<times> 'z NativeTransport" where
  "activate E U t =
     (if nt_active t \<or> nt_closing t then (UV_EINVAL, t)
      else let t = (if nt_ssl t then t\<lparr>nt_nodeBIOs := sslWriteBIO E\<rparr> else t)
      in if nt_ssl t \<and> \<not> (sslReadBIO E \<and> sslWriteBIO E) then (UV_EINVAL, t)
      else case nextAnswer t of
        (Failure e, t) \<Rightarrow> (UV_ERRNO e, t)
      | (_, t) \<Rightarrow>
          (let t = t\<lparr>nt_pollInitialized := True, nt_active := True\<rparr>;
               (ok, t) = (if nt_ssl t then processMemoryBIO E U t else (True, t))
           in if \<not> ok then (UV_EIO, t)
              else let t = updatePoll E U (flushWrites E U t)
              in (if nt_closing t then UV_EIO else UV_OK, t)))"

definition requestDestroy :: "'z upcalls \<Rightarrow> 'z NativeTransport \<Rightarrow> 'z NativeTransport" where
  "requestDestroy U t =
     (let t = t\<lparr>nt_destroyRequested := True, nt_session := False\<rparr>
      in if \<not> nt_active t then nt_delete U t
         else let t = closeNow U UV_ECANCELED t
         in if nt_pollClosed t \<and> \<not> nt_insideCloseCallback t then nt_delete U t else t)"

definition terminate :: "'z upcalls \<Rightarrow> 'z NativeTransport \<Rightarrow> 'z NativeTransport" where
  "terminate U t = closeNow U UV_ECANCELED t"

definition feed :: "'z host \<Rightarrow> 'z upcalls \<Rightarrow> byte list \<Rightarrow> 'z NativeTransport \<Rightarrow> bool \<times> 'z NativeTransport" where
  "feed E U dat t = (if \<not> nt_session t \<or> nt_closing t then (False, t) else nt_consume E U dat t)"

text \<open>The first part of a request is its \<open>front\<close>; \<open>None\<close> from \<open>prependOwned\<close> is \<open>std::abort\<close>.\<close>

definition writeMessage ::
  "'z host \<Rightarrow> 'z upcalls \<Rightarrow> jsValue \<Rightarrow> OpCode \<Rightarrow> bool \<Rightarrow> jsValue \<Rightarrow> 'z NativeTransport \<Rightarrow> status \<times> 'z NativeTransport" where
  "writeMessage E U input opc compress callback t =
     (if \<not> writable t then (UV_EBADF, t)
      else let compress = (compress \<and> \<not> isClosing (sock (nt_sessionObject t)));
               (ok, r) = retainCallback callback (newRequest E)
      in if \<not> ok then (UV_EINVAL, t)
      else let (ok, r, framed) =
             (if opc = TEXT
              then if compress then (let (ok, r) = addTextInput input r in (ok, r, False))
                   else addSmallTextFrame input opc r
              else let (ok, r) = addInput input r in (ok, r, False))
      in if \<not> ok then (UV_EINVAL, t)
      else if compress then
        (let source = partData r (part r 0);
             (fr, s) = createFrame (cpuOf E) (zlibOf E) source opc True (sock (nt_sessionObject t));
             t = t\<lparr>nt_sessionObject := (nt_sessionObject t)\<lparr>sock := s\<rparr>\<rparr>
         in case fr of
              None \<Rightarrow> (UV_EINVAL, t)
            | Some fr \<Rightarrow> submit E U (addOwned fr (clearParts r)) t)
      else if \<not> framed then
        (case prependOwned (frameHeader (ip_length (part r 0)) opc) r of
           None \<Rightarrow> (ABORTED, t)
         | Some r \<Rightarrow> submit E U r t)
      else submit E U r t)"

primrec addInputs :: "jsValue list \<Rightarrow> WriteRequest \<Rightarrow> bool \<times> WriteRequest" where
  "addInputs [] r = (True, r)"
| "addInputs (v # vs) r = (let (ok, r) = addInput v r in if ok then addInputs vs r else (False, r))"

definition writeFrameList ::
  "'z host \<Rightarrow> 'z upcalls \<Rightarrow> jsValue list option \<Rightarrow> jsValue \<Rightarrow> 'z NativeTransport \<Rightarrow> status \<times> 'z NativeTransport" where
  "writeFrameList E U inputs callback t =
     (if \<not> writable t then (UV_EBADF, t)
      else case inputs of
        None \<Rightarrow> (UV_EINVAL, t)
      | Some [] \<Rightarrow> (UV_EINVAL, t)
      | Some vs \<Rightarrow>
          (let (ok, r) = retainCallback callback (newRequest E)
           in if \<not> ok then (UV_EINVAL, t)
              else let (ok, r) = addInputs vs r
              in if \<not> ok then (UV_EINVAL, t) else submit E U r t))"

definition writeFrame ::
  "'z host \<Rightarrow> 'z upcalls \<Rightarrow> jsValue \<Rightarrow> jsValue \<Rightarrow> 'z NativeTransport \<Rightarrow> status \<times> 'z NativeTransport" where
  "writeFrame E U input callback t =
     (if \<not> writable t then (UV_EBADF, t)
      else let (ok, r) = retainCallback callback (newRequest E);
               (ok, r) = (if ok then addInput input r else (False, r))
           in if \<not> ok then (UV_EINVAL, t) else submit E U r t)"

definition writeClose ::
  "'z host \<Rightarrow> 'z upcalls \<Rightarrow> nat \<Rightarrow> byte list \<Rightarrow> 'z NativeTransport \<Rightarrow> status \<times> 'z NativeTransport" where
  "writeClose E U code reason t =
     (if \<not> writable t then (UV_EBADF, t)
      else let (fr, s) = createCloseFrame (cpuOf E) code (Some reason) (sock (nt_sessionObject t));
               t = t\<lparr>nt_sessionObject := (nt_sessionObject t)\<lparr>sock := s\<rparr>\<rparr>
           in case fr of None \<Rightarrow> (WRITE_NOT_SENT, t) | Some fr \<Rightarrow> writeOwned E U fr t)"

definition bufferedAmount :: "'z NativeTransport \<Rightarrow> nat" where
  "bufferedAmount t = nt_pendingBytes t"

text \<open>A write of JavaScript, with the callback it passed, noted in the history when it returns.\<close>

definition answering :: "jsValue \<Rightarrow> status \<times> 'z NativeTransport \<Rightarrow> status \<times> 'z NativeTransport" where
  "answering callback result = (fst result, happen (Returned callback (fst result)) (snd result))"

text \<open>
  JavaScript has lost the transport once it asked for its destruction. It writes only to an active one
  (\<open>_nativeActive\<close> in \<open>dist/eiows.js\<close>).
\<close>

definition perform :: "'z host \<Rightarrow> 'z upcalls \<Rightarrow> action \<Rightarrow> 'z NativeTransport \<Rightarrow> 'z NativeTransport" where
  "perform E U a t =
     (if nt_destroyRequested t then t
      else case a of
        Terminate \<Rightarrow> terminate U t
      | Destroy \<Rightarrow> requestDestroy U t
      | WriteMessage input opc compress callback \<Rightarrow>
          if nt_active t then snd (answering callback (writeMessage E U input opc compress callback t)) else t
      | WriteFrameList inputs callback \<Rightarrow>
          if nt_active t then snd (answering callback (writeFrameList E U inputs callback t)) else t
      | WriteFrame input callback \<Rightarrow> if nt_active t then snd (answering callback (writeFrame E U input callback t)) else t
      | WriteClose code reason \<Rightarrow> if nt_active t then snd (writeClose E U code reason t) else t)"

definition react :: "'z host \<Rightarrow> 'z upcalls \<Rightarrow> 'z NativeTransport \<Rightarrow> bool \<times> 'z NativeTransport" where
  "react E U t =
     (case nt_reactions t of
        [] \<Rightarrow> (True, t)
      | (actions, ok) # rest \<Rightarrow> (ok, fold (perform E U) actions (t\<lparr>nt_reactions := rest\<rparr>)))"

primrec upcallsAt :: "'z host \<Rightarrow> nat \<Rightarrow> 'z upcalls" where
  "upcallsAt E 0 = \<lparr>up_js = \<lambda>call t. (True, t), up_finish = \<lambda>t. t\<rparr>"
| "upcallsAt E (Suc depth) =
     \<lparr>up_js = \<lambda>call. react E (upcallsAt E depth), up_finish = maybeFinishPeerClose E (upcallsAt E depth)\<rparr>"

section \<open>The life of a connection\<close>

definition onPollClosed :: "'z upcalls \<Rightarrow> 'z NativeTransport \<Rightarrow> 'z NativeTransport" where
  "onPollClosed U t =
     (let t = t\<lparr>nt_pollClosed := True\<rparr>
      in if nt_environmentCleaning t then nt_delete U t
         else let (ok, t) = callOwner U OnClosed (t\<lparr>nt_insideCloseCallback := True\<rparr>);
                  t = t\<lparr>nt_insideCloseCallback := False\<rparr>
              in if nt_destroyRequested t then nt_delete U t else t)"

definition beginEnvironmentCleanup :: "'z upcalls \<Rightarrow> 'z NativeTransport \<Rightarrow> 'z NativeTransport" where
  "beginEnvironmentCleanup U t =
     (let t = closeNow U UV_ECANCELED
                (t\<lparr>nt_environmentCleaning := True, nt_destroyRequested := True, nt_session := False\<rparr>)
      in if \<not> nt_pollInitialized t \<or> nt_pollClosed t then nt_delete U t else t)"

datatype step =
  Activate
| Poll "nat option" bool bool
| Feed "byte list"
| Act action
| PollClosed
| EnvironmentCleanup

definition takeStep :: "'z host \<Rightarrow> 'z upcalls \<Rightarrow> step \<Rightarrow> 'z NativeTransport \<Rightarrow> 'z NativeTransport" where
  "takeStep E U s t =
     (if nt_deleted t then t
      else case s of
        Activate \<Rightarrow> if nt_destroyRequested t then t else snd (activate E U t)
      | Poll error reading writing \<Rightarrow> if nt_active t then nt_poll E U error reading writing t else t
      | Feed dat \<Rightarrow> if nt_destroyRequested t \<or> \<not> nt_active t then t else snd (feed E U dat t)
      | Act a \<Rightarrow> perform E U a t
      | PollClosed \<Rightarrow> if nt_uvClosing t \<and> \<not> nt_pollClosed t then onPollClosed U t else t
      | EnvironmentCleanup \<Rightarrow> beginEnvironmentCleanup U t)"

definition life :: "'z host \<Rightarrow> nat \<Rightarrow> step list \<Rightarrow> 'z NativeTransport \<Rightarrow> 'z NativeTransport" where
  "life E depth steps = fold (takeStep E (upcallsAt E depth)) steps"

end
