(* ===== verification/Transport_Invariant.thy ===== *)
theory Transport_Invariant
  imports Transport "HOL-Library.Sublist" "HOL-Library.Multiset"
begin

text \<open>
  What every operation of the transport keeps, also while JavaScript runs in the middle of it: the queue is
  well formed, \<open>pendingBytes_\<close> is exact, the bytes taken from the requests and the ciphertext go out in order,
  and the callbacks that were promised are called or still queued.
\<close>

section \<open>The history\<close>

fun submittedBy :: "happening \<Rightarrow> byte list" where
  "submittedBy (Submitted bs) = bs"
| "submittedBy _ = []"

fun passedBy :: "bool \<Rightarrow> happening \<Rightarrow> byte list" where
  "passedBy ssl (Sent bs) = (if ssl then [] else bs)"
| "passedBy ssl (Encrypted bs) = (if ssl then bs else [])"
| "passedBy ssl _ = []"

fun ciphertextBy :: "happening \<Rightarrow> byte list" where
  "ciphertextBy (Ciphertext bs) = bs"
| "ciphertextBy _ = []"

fun sentBy :: "happening \<Rightarrow> byte list" where
  "sentBy (Sent bs) = bs"
| "sentBy _ = []"

fun promisedBy :: "happening \<Rightarrow> nat list" where
  "promisedBy (Promised f) = [f]"
| "promisedBy _ = []"

fun answeredBy :: "happening \<Rightarrow> nat list" where
  "answeredBy (Called (WriteCallback f st)) = [f]"
| "answeredBy _ = []"

text \<open>The callbacks of the writes that told JavaScript \<open>WRITE_ASYNCHRONOUS\<close>: what it may count on.\<close>

fun returnedBy :: "happening \<Rightarrow> nat list" where
  "returnedBy (Returned (JsFunction f) WRITE_ASYNCHRONOUS) = [f]"
| "returnedBy _ = []"

fun isDialogue :: "happening \<Rightarrow> bool" where
  "isDialogue (Called call) \<longleftrightarrow> True"
| "isDialogue (Returned v st) \<longleftrightarrow> True"
| "isDialogue _ \<longleftrightarrow> False"

definition logged :: "(happening \<Rightarrow> 'b list) \<Rightarrow> 'z NativeTransport \<Rightarrow> 'b list" where
  "logged what t = concat (map what (nt_history t))"

definition effects :: "'z NativeTransport \<Rightarrow> happening list" where
  "effects t = filter (\<lambda>h. \<not> isDialogue h) (nt_history t)"

definition callbacksOf :: "WriteRequest \<Rightarrow> nat list" where
  "callbacksOf r = (if wr_deferred r then case wr_callback r of None \<Rightarrow> [] | Some f \<Rightarrow> [f] else [])"

abbreviation requests :: "'z NativeTransport \<Rightarrow> WriteRequest list" where
  "requests t \<equiv> map snd (nt_queue t)"

section \<open>The invariant\<close>

definition queue_ok :: "'z NativeTransport \<Rightarrow> bool" where
  "queue_ok t \<longleftrightarrow> distinct (map fst (nt_queue t)) \<and> (\<forall>k \<in> fst ` set (nt_queue t). k < nt_fresh t) \<and>
     (\<forall>r \<in> set (requests t). live r \<and> (\<not> wr_deferred r \<longrightarrow> wr_callback r = None)) \<and>
     nt_pendingBytes t = sum_list (map wr_remainingBytes (requests t))"

text \<open>\<open>c\<close> bytes of the first request are with OpenSSL and not yet counted as sent.\<close>

definition counted :: "nat \<Rightarrow> WriteRequest list \<Rightarrow> bool" where
  "counted c rs \<longleftrightarrow> (case rs of [] \<Rightarrow> c = 0 | r # rs \<Rightarrow>
     wr_bytes r = wr_sent r + c + length (remaining r) \<and> (\<forall>r \<in> set rs. wr_bytes r = wr_sent r + length (remaining r)))"

definition bytes_ok :: "nat \<Rightarrow> 'z NativeTransport \<Rightarrow> bool" where
  "bytes_ok c t \<longleftrightarrow>
     (if nt_closing t then prefix (logged (passedBy (nt_ssl t)) t) (logged submittedBy t)
      else counted c (requests t) \<and>
        logged submittedBy t = logged (passedBy (nt_ssl t)) t @ concat (map remaining (requests t)))"

text \<open>A batch is lost when the socket refuses it for good.\<close>

definition cipher_ok :: "'z NativeTransport \<Rightarrow> bool" where
  "cipher_ok t \<longleftrightarrow> (nt_ssl t \<and> Broken \<notin> set (nt_history t) \<longrightarrow>
     (if nt_closing t then prefix (logged sentBy t) (logged ciphertextBy t)
      else nt_tlsCiphertextOffset t \<le> length (nt_tlsCiphertext t) \<and>
        logged ciphertextBy t = logged sentBy t @ drop (nt_tlsCiphertextOffset t) (nt_tlsCiphertext t) @ nt_writeBIO t))"

text \<open>
  Over TLS, what \<open>pendingBytes_\<close> no longer counts has left with all its ciphertext: there was a moment up to
  which exactly so much plaintext had been encrypted, and the ciphertext of up to then has been sent.
\<close>

definition gone_ok :: "'z NativeTransport \<Rightarrow> bool" where
  "gone_ok t \<longleftrightarrow> (nt_ssl t \<and> \<not> nt_closing t \<and> Broken \<notin> set (nt_history t) \<longrightarrow>
     (\<exists>before after. nt_history t = before @ after \<and>
        length (concat (map (passedBy True) before)) + nt_pendingBytes t = length (logged submittedBy t) \<and>
        prefix (concat (map ciphertextBy before)) (logged sentBy t)))"

definition calls_ok :: "'z NativeTransport \<Rightarrow> bool" where
  "calls_ok t \<longleftrightarrow> (\<not> nt_environmentCleaning t \<longrightarrow>
     mset (logged promisedBy t) = mset (logged answeredBy t) + mset (concat (map callbacksOf (requests t))))"

definition flags_ok :: "'z NativeTransport \<Rightarrow> bool" where
  "flags_ok t \<longleftrightarrow> (\<not> nt_active t \<longrightarrow> nt_queue t = []) \<and> nt_pollInitialized t = nt_active t \<and>
     (nt_uvClosing t \<longrightarrow> nt_closing t \<and> nt_active t) \<and> (nt_pollClosed t \<longrightarrow> nt_closing t) \<and> (nt_ssl t \<and> nt_active t \<longrightarrow> nt_nodeBIOs t) \<and>
     (\<not> nt_ssl t \<longrightarrow> nt_tlsCommittedPlaintext t = 0)"

definition soundWith :: "nat \<Rightarrow> 'z NativeTransport \<Rightarrow> bool" where
  "soundWith c t \<longleftrightarrow> queue_ok t \<and> bytes_ok c t \<and> cipher_ok t \<and> gone_ok t \<and> calls_ok t \<and> flags_ok t"

abbreviation sound :: "'z NativeTransport \<Rightarrow> bool" where
  "sound t \<equiv> soundWith (nt_tlsCommittedPlaintext t) t"

definition quiet :: "'z NativeTransport \<Rightarrow> bool" where
  "quiet t \<longleftrightarrow> (nt_closing t \<longrightarrow> nt_queue t = [])"

definition bounded :: "'z NativeTransport \<Rightarrow> bool" where
  "bounded t \<longleftrightarrow> nt_closing t \<or> \<not> backpressureExceeded t"

text \<open>What may become of a transport in an operation.\<close>

definition keeps :: "'z NativeTransport \<Rightarrow> 'z NativeTransport \<Rightarrow> bool" where
  "keeps t t' \<longleftrightarrow> (sound t \<longrightarrow> sound t' \<and> (quiet t \<longrightarrow> quiet t') \<and> (bounded t \<longrightarrow> bounded t'))"

definition frozen :: "'z NativeTransport \<Rightarrow> 'z NativeTransport \<Rightarrow> bool" where
  "frozen t t' \<longleftrightarrow> (nt_closing t \<longrightarrow> nt_closing t' \<and> length (nt_queue t') \<le> length (nt_queue t) \<and>
     effects t' = effects t \<and> nt_uvClosing t' = nt_uvClosing t) \<and>
     (nt_closing t' \<longrightarrow> nt_closing t \<or> (nt_active t' \<and> nt_pollInitialized t' \<longrightarrow> nt_uvClosing t'))"

definition undeleted :: "'z NativeTransport \<Rightarrow> bool" where
  "undeleted t \<longleftrightarrow> nt_active t \<and> nt_pollInitialized t \<and> (nt_uvClosing t \<longrightarrow> nt_closing t) \<and> \<not> nt_deleted t \<and>
     (\<not> nt_pollClosed t \<or> nt_insideCloseCallback t)"

definition lives :: "'z NativeTransport \<Rightarrow> 'z NativeTransport \<Rightarrow> bool" where
  "lives t t' \<longleftrightarrow> (undeleted t \<longrightarrow> undeleted t' \<and> nt_pollClosed t' = nt_pollClosed t \<and>
     nt_insideCloseCallback t' = nt_insideCloseCallback t)"

definition static :: "'z NativeTransport \<Rightarrow> 'z NativeTransport \<Rightarrow> bool" where
  "static t t' \<longleftrightarrow> length (nt_io t') \<le> length (nt_io t) \<and> nt_ssl t' = nt_ssl t \<and>
     nt_maxBackpressure t' = nt_maxBackpressure t \<and> nt_environmentCleaning t' = nt_environmentCleaning t \<and>
     nt_active t' = nt_active t \<and> nt_pollInitialized t' = nt_pollInitialized t \<and>
     (nt_destroyRequested t \<longrightarrow> nt_destroyRequested t') \<and> (nt_pollClosed t \<longrightarrow> nt_pollClosed t') \<and>
     (nt_deleted t' \<longrightarrow> nt_deleted t \<or> nt_destroyRequested t') \<and> nt_insideCloseCallback t' = nt_insideCloseCallback t \<and>
     prefix (nt_history t) (nt_history t')"

definition follows :: "'z NativeTransport \<Rightarrow> 'z NativeTransport \<Rightarrow> bool" where
  "follows t t' \<longleftrightarrow> keeps t t' \<and> frozen t t' \<and> lives t t' \<and> static t t'"

lemma follows_refl [simp, intro]: "follows t t"
  by (simp add: follows_def keeps_def frozen_def lives_def static_def)

lemma static_trans: "static t u \<Longrightarrow> static u v \<Longrightarrow> static t v"
  by (simp add: static_def) (blast intro: order_trans prefix_order.trans)

lemma follows_trans [trans]: "follows t u \<Longrightarrow> follows u v \<Longrightarrow> follows t v"
proof -
  assume f: "follows t u" "follows u v"
  then have "keeps t v" by (simp add: follows_def keeps_def)
  moreover have "frozen t v"
    using f by (cases "nt_closing t"; cases "nt_closing u") (simp_all add: follows_def frozen_def static_def)
  moreover have "lives t v" using f by (simp add: follows_def lives_def)
  moreover have "static t v" using f by (auto simp: follows_def intro: static_trans)
  ultimately show ?thesis by (simp add: follows_def)
qed

lemmas follow_defs = follows_def keeps_def frozen_def lives_def static_def undeleted_def

lemmas sound_defs = soundWith_def queue_ok_def bytes_ok_def cipher_ok_def gone_ok_def calls_ok_def flags_ok_def quiet_def bounded_def
  backpressureExceeded_def

text \<open>Fields that play no part.\<close>

lemma happen_fields [simp]:
  "nt_ssl (happen h t) = nt_ssl t"
  "nt_textAsBuffer (happen h t) = nt_textAsBuffer t"
  "nt_maxBackpressure (happen h t) = nt_maxBackpressure t"
  "nt_sessionObject (happen h t) = nt_sessionObject t"
  "nt_session (happen h t) = nt_session t"
  "nt_descriptor (happen h t) = nt_descriptor t"
  "nt_nodeBIOs (happen h t) = nt_nodeBIOs t"
  "nt_writeBIO (happen h t) = nt_writeBIO t"
  "nt_queue (happen h t) = nt_queue t"
  "nt_fresh (happen h t) = nt_fresh t"
  "nt_pendingBytes (happen h t) = nt_pendingBytes t"
  "nt_pollEvents (happen h t) = nt_pollEvents t"
  "nt_tlsCiphertext (happen h t) = nt_tlsCiphertext t"
  "nt_tlsCiphertextOffset (happen h t) = nt_tlsCiphertextOffset t"
  "nt_tlsCommittedPlaintext (happen h t) = nt_tlsCommittedPlaintext t"
  "nt_pendingCloseReason (happen h t) = nt_pendingCloseReason t"
  "nt_pendingCloseCode (happen h t) = nt_pendingCloseCode t"
  "nt_active (happen h t) = nt_active t"
  "nt_pollInitialized (happen h t) = nt_pollInitialized t"
  "nt_uvClosing (happen h t) = nt_uvClosing t"
  "nt_pollClosed (happen h t) = nt_pollClosed t"
  "nt_insideCloseCallback (happen h t) = nt_insideCloseCallback t"
  "nt_closing (happen h t) = nt_closing t"
  "nt_destroyRequested (happen h t) = nt_destroyRequested t"
  "nt_flushingWrites (happen h t) = nt_flushingWrites t"
  "nt_reportingError (happen h t) = nt_reportingError t"
  "nt_pendingClose (happen h t) = nt_pendingClose t"
  "nt_gracefulCloseRequested (happen h t) = nt_gracefulCloseRequested t"
  "nt_tlsWriteBlockedOnRead (happen h t) = nt_tlsWriteBlockedOnRead t"
  "nt_tlsShutdownPending (happen h t) = nt_tlsShutdownPending t"
  "nt_tlsShutdownGenerated (happen h t) = nt_tlsShutdownGenerated t"
  "nt_tlsProcessingInput (happen h t) = nt_tlsProcessingInput t"
  "nt_environmentCleaning (happen h t) = nt_environmentCleaning t"
  "nt_deleted (happen h t) = nt_deleted t"
  "nt_io (happen h t) = nt_io t"
  "nt_reactions (happen h t) = nt_reactions t"
  unfolding happen_def by (cases t; simp only: NativeTransport.select_convs NativeTransport.update_convs)+

lemma logged_happen [simp]:
  "logged what (happen h t) = logged what t @ what h" "nt_history (happen h t) = nt_history t @ [h]" "effects (happen h t) = effects t @ (if isDialogue h then [] else [h])"
  by (simp_all add: logged_def effects_def happen_def)

lemma logged_eq: "nt_history t' = nt_history t \<Longrightarrow> logged what t' = logged what t"
  by (simp add: logged_def)

lemma gone_mono:
  assumes "gone_ok t" "nt_history u = nt_history t @ hs" "nt_ssl u = nt_ssl t" "\<not> nt_closing u \<Longrightarrow> \<not> nt_closing t"
    "\<not> nt_closing u \<Longrightarrow> nt_pendingBytes u = nt_pendingBytes t + length (concat (map submittedBy hs))"
  shows "gone_ok u"
  unfolding gone_ok_def
proof
  assume u: "nt_ssl u \<and> \<not> nt_closing u \<and> Broken \<notin> set (nt_history u)"
  have lg: "logged what u = logged what t @ concat (map what hs)" for what :: "happening \<Rightarrow> byte list"
    by (simp add: logged_def assms(2))
  from u assms obtain before after where "nt_history t = before @ after"
    "length (concat (map (passedBy True) before)) + nt_pendingBytes t = length (logged submittedBy t)"
    "prefix (concat (map ciphertextBy before)) (logged sentBy t)"
    unfolding gone_ok_def by auto
  with u assms(2,5) show "\<exists>before after. nt_history u = before @ after \<and>
      length (concat (map (passedBy True) before)) + nt_pendingBytes u = length (logged submittedBy u) \<and>
      prefix (concat (map ciphertextBy before)) (logged sentBy u)"
    by (intro exI [of _ before] exI [of _ "after @ hs"]) (simp add: lg)
qed

lemma gone_same:
  assumes "nt_history u = nt_history t" "nt_ssl u = nt_ssl t" "nt_closing u = nt_closing t" "nt_pendingBytes u = nt_pendingBytes t"
  shows "gone_ok u = gone_ok t"
  using assms by (simp add: gone_ok_def logged_def)

lemma gone_happen [simp]: "submittedBy h = [] \<Longrightarrow> gone_ok t \<Longrightarrow> gone_ok (happen h t)"
  by (rule gone_mono [where hs = "[h]"]) simp_all

lemma gone_closing [simp]: "nt_closing t \<Longrightarrow> gone_ok t"
  by (simp add: gone_ok_def)

text \<open>When all ciphertext has been sent, all that was encrypted is gone.\<close>

lemma gone_all:
  assumes "length (logged (passedBy True) t) + nt_pendingBytes t = length (logged submittedBy t)"
    "logged ciphertextBy t = logged sentBy t"
  shows "gone_ok t"
  unfolding gone_ok_def using assms by (intro impI exI [of _ "nt_history t"] exI [of _ "[]"]) (simp add: logged_def)

lemma happen_ok [simp]:
  "queue_ok (happen h t) = queue_ok t" "flags_ok (happen h t) = flags_ok t" "quiet (happen h t) = quiet t"
  "bounded (happen h t) = bounded t"
  "submittedBy h = [] \<Longrightarrow> passedBy (nt_ssl t) h = [] \<Longrightarrow> bytes_ok c (happen h t) = bytes_ok c t"
  "sentBy h = [] \<Longrightarrow> ciphertextBy h = [] \<Longrightarrow> h \<noteq> Broken \<Longrightarrow> cipher_ok (happen h t) = cipher_ok t"
  "promisedBy h = [] \<Longrightarrow> answeredBy h = [] \<Longrightarrow> calls_ok (happen h t) = calls_ok t"
  "undeleted (happen h t) = undeleted t"
proof -
  show "cipher_ok (happen h t) = cipher_ok t" if "sentBy h = []" "ciphertextBy h = []" "h \<noteq> Broken"
  proof -
    have "Broken \<in> set (nt_history (happen h t)) \<longleftrightarrow> Broken \<in> set (nt_history t)" using that(3) by auto
    then show ?thesis using that by (simp only: cipher_ok_def happen_fields logged_happen append_Nil2)
  qed
qed (simp_all add: queue_ok_def flags_ok_def quiet_def bounded_def backpressureExceeded_def bytes_ok_def calls_ok_def undeleted_def)

definition unchanged :: "'z NativeTransport \<Rightarrow> 'z NativeTransport \<Rightarrow> bool" where
  "unchanged t t' \<longleftrightarrow> nt_queue t' = nt_queue t \<and>
     nt_fresh t' = nt_fresh t \<and>
     nt_pendingBytes t' = nt_pendingBytes t \<and>
     nt_ssl t' = nt_ssl t \<and>
     nt_closing t' = nt_closing t \<and>
     nt_tlsCiphertext t' = nt_tlsCiphertext t \<and>
     nt_tlsCiphertextOffset t' = nt_tlsCiphertextOffset t \<and>
     nt_writeBIO t' = nt_writeBIO t \<and>
     nt_tlsCommittedPlaintext t' = nt_tlsCommittedPlaintext t \<and>
     nt_history t' = nt_history t \<and>
     nt_environmentCleaning t' = nt_environmentCleaning t \<and>
     nt_active t' = nt_active t \<and>
     nt_pollInitialized t' = nt_pollInitialized t \<and>
     nt_uvClosing t' = nt_uvClosing t \<and>
     nt_pollClosed t' = nt_pollClosed t \<and>
     nt_nodeBIOs t' = nt_nodeBIOs t \<and>
     nt_maxBackpressure t' = nt_maxBackpressure t \<and>
     nt_deleted t' = nt_deleted t \<and> (nt_destroyRequested t \<longrightarrow> nt_destroyRequested t') \<and>
     nt_insideCloseCallback t' = nt_insideCloseCallback t"

lemma unchanged_sound:
  assumes "unchanged t t'"
  shows "queue_ok t' = queue_ok t" "bytes_ok c t' = bytes_ok c t" "cipher_ok t' = cipher_ok t" "calls_ok t' = calls_ok t"
    "flags_ok t' = flags_ok t" "quiet t' = quiet t" "bounded t' = bounded t" "effects t' = effects t" "gone_ok t' = gone_ok t"
proof -
  have e: "logged what t' = logged what t" for what :: "happening \<Rightarrow> 'b list" using assms by (simp add: logged_def unchanged_def)
  show "queue_ok t' = queue_ok t" using assms by (simp add: queue_ok_def unchanged_def)
  show "bytes_ok c t' = bytes_ok c t" using assms by (simp add: bytes_ok_def unchanged_def logged_def)
  show "cipher_ok t' = cipher_ok t" using assms by (simp add: cipher_ok_def unchanged_def logged_def)
  show "calls_ok t' = calls_ok t" using assms by (simp add: calls_ok_def unchanged_def logged_def)
  show "flags_ok t' = flags_ok t" using assms by (simp add: flags_ok_def unchanged_def)
  show "quiet t' = quiet t" using assms by (simp add: quiet_def unchanged_def)
  show "bounded t' = bounded t" using assms by (simp add: bounded_def backpressureExceeded_def unchanged_def)
  show "effects t' = effects t" using assms by (simp add: effects_def unchanged_def)
  show "gone_ok t' = gone_ok t" using assms by (intro gone_same) (simp_all add: unchanged_def)
qed

lemma unchanged_soundWith: "unchanged t t' \<Longrightarrow> soundWith c t' = soundWith c t"
  by (simp add: soundWith_def unchanged_sound)

lemma unchanged_follows:
  assumes "unchanged t t'" "length (nt_io t') \<le> length (nt_io t)"
  shows "follows t t'"
proof -
  have "keeps t t'" using unchanged_soundWith [OF assms(1)] unchanged_sound [OF assms(1)] assms(1)
    by (simp add: keeps_def unchanged_def)
  moreover have "frozen t t'" "lives t t'" "static t t'"
    using assms unchanged_sound(8) [OF assms(1)] by (simp_all add: frozen_def lives_def static_def undeleted_def unchanged_def)
  ultimately show ?thesis by (simp add: follows_def)
qed

lemma follows_fields [simp]:
  "follows t (t\<lparr>nt_pollEvents := pe\<rparr>)" "follows t (t\<lparr>nt_sessionObject := so\<rparr>)"
  "follows t (t\<lparr>nt_session := b\<rparr>)" "follows t (t\<lparr>nt_descriptor := b\<rparr>)" "follows t (t\<lparr>nt_destroyRequested := True\<rparr>)"
  "follows t (t\<lparr>nt_flushingWrites := b\<rparr>)" "follows t (t\<lparr>nt_reportingError := b\<rparr>)" "follows t (t\<lparr>nt_pendingClose := b\<rparr>)"
  "follows t (t\<lparr>nt_gracefulCloseRequested := b\<rparr>)" "follows t (t\<lparr>nt_tlsWriteBlockedOnRead := b\<rparr>)"
  "follows t (t\<lparr>nt_tlsShutdownPending := b\<rparr>)" "follows t (t\<lparr>nt_tlsShutdownGenerated := b\<rparr>)"
  "follows t (t\<lparr>nt_tlsProcessingInput := b\<rparr>)" "follows t (t\<lparr>nt_reactions := rs\<rparr>)"
  "follows t (t\<lparr>nt_pendingClose := b, nt_pendingCloseCode := n, nt_pendingCloseReason := m\<rparr>)"
  by (simp_all add: unchanged_follows unchanged_def)

lemma follows_io: "length io \<le> length (nt_io t) \<Longrightarrow> follows t (t\<lparr>nt_io := io\<rparr>)"
  by (simp add: unchanged_follows unchanged_def)

lemma nextAnswer_follows: "nextAnswer t = (a, t') \<Longrightarrow> follows t t'"
  using nextAnswer_fields [of t a t'] follows_io by auto

lemma called_follows: 
  assumes "answeredBy (Called call) = []"
  shows "follows t (happen (Called call) t)"
proof -
  let ?t = "happen (Called call) t"
  have "bytes_ok c ?t = bytes_ok c t" "cipher_ok ?t = cipher_ok t" "calls_ok ?t = calls_ok t" for c
    using assms by simp_all
  then show ?thesis by (simp add: follows_def keeps_def frozen_def lives_def static_def soundWith_def)
qed

section \<open>Cancelling and closing\<close>

text \<open>The contract of what an operation calls: it may do whatever an operation may do.\<close>

locale reentrant =
  fixes U :: "'z upcalls"
  assumes js_follows: "follows t (snd (up_js U call t))"
    and finish_follows: "nt_active t \<Longrightarrow> follows t (up_finish U t)"
begin

lemma callOwner_follows:
  assumes "answeredBy (Called call) = []" "callOwner U call t = (ok, t')"
  shows "follows t t'"
  using follows_trans [OF called_follows [OF assms(1)] js_follows, of t call] assms(2) by (simp add: callOwner_def)

end

lemma closing_soundWith: "nt_closing t \<Longrightarrow> soundWith c t = soundWith d t"
  by (simp add: soundWith_def bytes_ok_def)

text \<open>A request that leaves the queue, and the call that answers it.\<close>

definition answered :: "status \<Rightarrow> WriteRequest \<Rightarrow> 'z NativeTransport \<Rightarrow> 'z NativeTransport" where
  "answered st r t = (case callbacksOf r of [] \<Rightarrow> t | f # fs \<Rightarrow> happen (Called (WriteCallback f st)) t)"

definition withoutHead :: "'z NativeTransport \<Rightarrow> 'z NativeTransport" where
  "withoutHead t = t\<lparr>nt_queue := tl (nt_queue t),
     nt_pendingBytes := nt_pendingBytes t - min (nt_pendingBytes t) (wr_remainingBytes (hd (requests t)))\<rparr>"

lemma withoutHead_sound:
  assumes "soundWith c t" "nt_queue t = (k, r) # q" "nt_closing t \<or> c = 0 \<and> remaining r = []"
  shows "soundWith c (if nt_environmentCleaning t then withoutHead t else answered st r (withoutHead t))"
proof -
  let ?u = "withoutHead t"
  have p: "nt_pendingBytes ?u = sum_list (map wr_remainingBytes (map snd q))"
    using assms(1,2) by (simp add: withoutHead_def soundWith_def queue_ok_def)
  have u: "nt_queue ?u = q" using assms(2) by (simp add: withoutHead_def)
  have same: "nt_closing ?u = nt_closing t" "nt_ssl ?u = nt_ssl t" "nt_active ?u = nt_active t"
      "nt_fresh ?u = nt_fresh t" "nt_history ?u = nt_history t"
    by (simp_all add: withoutHead_def)
  note lg = logged_eq [OF same(5)]
  have q: "queue_ok ?u" using assms(1,2) p unfolding soundWith_def queue_ok_def u same by auto
  have b: "bytes_ok c ?u"
    using assms unfolding soundWith_def bytes_ok_def u same lg by (auto simp: counted_def split: list.splits)
  have c: "cipher_ok ?u" using assms(1) by (simp add: soundWith_def cipher_ok_def lg) (simp add: withoutHead_def)
  have f: "flags_ok ?u" using assms(1,2) by (auto simp: soundWith_def flags_ok_def withoutHead_def)
  have g: "gone_ok ?u"
  proof (cases "nt_closing t")
    case False
    then have z: "wr_remainingBytes (hd (requests t)) = 0"
      using assms by (simp add: soundWith_def bytes_ok_def counted_def wr_remainingBytes_def)
    have "gone_ok t" using assms(1) by (simp add: soundWith_def)
    then show ?thesis by (rule gone_mono [where hs = "[]"]) (simp_all add: withoutHead_def z)
  qed (simp add: same)
  have cb: "nt_environmentCleaning t \<or> mset (logged promisedBy t) = mset (logged answeredBy t) + mset (callbacksOf r) + mset (concat (map callbacksOf (map snd q)))"
    using assms(1,2) by (auto simp: soundWith_def calls_ok_def)
  have n: "callbacksOf r = [] \<or> (\<exists>f. callbacksOf r = [f])" by (simp add: callbacksOf_def split: option.split)
  have e: "nt_environmentCleaning ?u = nt_environmentCleaning t" by (simp add: withoutHead_def)
  show ?thesis
  proof (cases "nt_environmentCleaning t \<or> callbacksOf r = []")
    case True
    have "calls_ok ?u" using cb True unfolding calls_ok_def e lg u by auto
    with q b c f g True show ?thesis by (auto simp: soundWith_def answered_def)
  next
    case False
    note gone = g
    with n False obtain g where g: "callbacksOf r = [g]" by blast
    let ?v = "happen (Called (WriteCallback g st)) ?u"
    have "calls_ok ?v" using cb False unfolding calls_ok_def by (simp add: e lg u g)
    with q b c f gone False g show ?thesis by (simp add: soundWith_def answered_def)
  qed
qed

lemma invoke_answered:
  "snd (dequeueWrite t) = t\<lparr>nt_queue := tl (nt_queue t)\<rparr>" "nt_queue t \<noteq> [] \<Longrightarrow> fst (dequeueWrite t) = hd (requests t)"
  "(if wr_deferred r then invokeWriteCallback U r st t else t) =
     (case callbacksOf r of [] \<Rightarrow> t | f # fs \<Rightarrow> snd (up_js U (WriteCallback f st) (answered st r t)))"
  by (auto simp: dequeueWrite_def callbacksOf_def invokeWriteCallback_def answered_def callOwner_def hd_map split: option.split)

lemma withoutHead_fields [simp]:
  "nt_closing (withoutHead t) = nt_closing t" "nt_environmentCleaning (withoutHead t) = nt_environmentCleaning t"
  "nt_queue (withoutHead t) = tl (nt_queue t)" "nt_tlsCommittedPlaintext (withoutHead t) = nt_tlsCommittedPlaintext t"
  "effects (withoutHead t) = effects t" "nt_uvClosing (withoutHead t) = nt_uvClosing t" "undeleted (withoutHead t) = undeleted t"
  "nt_pollClosed (withoutHead t) = nt_pollClosed t" "nt_insideCloseCallback (withoutHead t) = nt_insideCloseCallback t"
  "nt_io (withoutHead t) = nt_io t" "nt_ssl (withoutHead t) = nt_ssl t" "nt_maxBackpressure (withoutHead t) = nt_maxBackpressure t"
  "nt_active (withoutHead t) = nt_active t" "nt_pollInitialized (withoutHead t) = nt_pollInitialized t"
  "nt_destroyRequested (withoutHead t) = nt_destroyRequested t" "nt_deleted (withoutHead t) = nt_deleted t" "nt_history (withoutHead t) = nt_history t"
  by (simp_all add: withoutHead_def effects_def undeleted_def)

lemma answered_fields [simp]:
  "nt_closing (answered st r t) = nt_closing t" "nt_environmentCleaning (answered st r t) = nt_environmentCleaning t"
  "nt_queue (answered st r t) = nt_queue t" "nt_tlsCommittedPlaintext (answered st r t) = nt_tlsCommittedPlaintext t"
  "effects (answered st r t) = effects t" "nt_uvClosing (answered st r t) = nt_uvClosing t" "undeleted (answered st r t) = undeleted t"
  "nt_pollClosed (answered st r t) = nt_pollClosed t" "nt_insideCloseCallback (answered st r t) = nt_insideCloseCallback t"
  "nt_io (answered st r t) = nt_io t" "nt_ssl (answered st r t) = nt_ssl t" "nt_maxBackpressure (answered st r t) = nt_maxBackpressure t"
  "nt_active (answered st r t) = nt_active t" "nt_pollInitialized (answered st r t) = nt_pollInitialized t"
  "nt_destroyRequested (answered st r t) = nt_destroyRequested t" "nt_deleted (answered st r t) = nt_deleted t"
  "nt_history (answered st r t) = nt_history t @ (case callbacksOf r of [] \<Rightarrow> [] | f # fs \<Rightarrow> [Called (WriteCallback f st)])"
  by (simp_all add: answered_def split: list.split)

context reentrant
begin

lemma cancelled_follows:
  assumes "nt_closing t" "nt_queue t = (k, r) # q"
  shows "follows t (if nt_environmentCleaning t then withoutHead t else answered st r (withoutHead t))"
proof -
  let ?u = "if nt_environmentCleaning t then withoutHead t else answered st r (withoutHead t)"
  have "keeps t ?u"
    using withoutHead_sound [OF _ assms(2), of "nt_tlsCommittedPlaintext t" st] assms
    by (cases "nt_environmentCleaning t") (simp_all add: keeps_def quiet_def bounded_def)
  moreover have "frozen t ?u" "lives t ?u" "static t ?u"
    using assms by (simp_all add: frozen_def lives_def static_def)
  ultimately show ?thesis by (simp add: follows_def)
qed

lemma cancelLoop_step:
  assumes "nt_queue t = (k, r) # q"
  shows "\<exists>u. cancelLoop U st (Suc n) t = cancelLoop U st n u \<and>
    follows (if nt_environmentCleaning t then withoutHead t else answered st r (withoutHead t)) u"
proof -
  let ?u = "if nt_environmentCleaning t then withoutHead t
     else if wr_deferred r then invokeWriteCallback U r st (withoutHead t) else withoutHead t"
  have "cancelLoop U st (Suc n) t = cancelLoop U st n ?u"
    using assms by (simp add: Let_def dequeueWrite_def withoutHead_def)
  moreover have "follows (if nt_environmentCleaning t then withoutHead t else answered st r (withoutHead t)) ?u"
    using js_follows unfolding invoke_answered(3) by (auto simp: answered_def split: list.split)
  ultimately show ?thesis by blast
qed

lemma cancelLoop_ok:
  "nt_closing t \<Longrightarrow> follows t (cancelLoop U st n t) \<and> (length (nt_queue t) \<le> n \<longrightarrow> nt_queue (cancelLoop U st n t) = [])"
proof (induction n arbitrary: t)
  case (Suc n)
  show ?case
  proof (cases "nt_queue t")
    case (Cons x q)
    obtain k r where x: "nt_queue t = (k, r) # q" using Cons by (cases x) auto
    obtain u where u: "cancelLoop U st (Suc n) t = cancelLoop U st n u"
      "follows (if nt_environmentCleaning t then withoutHead t else answered st r (withoutHead t)) u"
      using cancelLoop_step [OF x] by blast
    note f = follows_trans [OF cancelled_follows [OF Suc.prems x] u(2)]
    have c: "nt_closing u" using f Suc.prems by (simp add: follows_def frozen_def)
    have "length (nt_queue u) \<le> length q"
      using u(2) Suc.prems x by (simp add: follows_def frozen_def split: if_splits)
    with Suc.IH [OF c] u(1) x follows_trans [OF f] show ?thesis by auto
  qed simp
qed simp

lemma cancelWrites_ok:
  assumes "nt_closing t"
  shows "follows t (cancelWrites U st t)" "nt_queue (cancelWrites U st t) = []"
  using cancelLoop_ok [OF assms, of st "length (nt_queue t)"] by (simp_all add: cancelWrites_def)

lemma closed_sound:
  assumes "soundWith c t" "nt_closing t" "uc \<longrightarrow> nt_pollInitialized t \<or> nt_uvClosing t"
  shows "soundWith d (t\<lparr>nt_tlsCiphertext := [], nt_tlsCiphertextOffset := 0, nt_tlsCommittedPlaintext := 0, nt_pollEvents := pe,
    nt_descriptor := False, nt_uvClosing := uc, nt_pollClosed := pc\<rparr>)"
  using assms by (auto simp: soundWith_def queue_ok_def bytes_ok_def cipher_ok_def calls_ok_def flags_ok_def logged_def)

lemma set_closing:
  "soundWith c t \<Longrightarrow> soundWith d (t\<lparr>nt_closing := True\<rparr>)"
  by (auto simp: soundWith_def queue_ok_def bytes_ok_def cipher_ok_def calls_ok_def flags_ok_def logged_def split: if_splits)

lemma closeNow_ok:
  "follows t (closeNow U st t)" "nt_closing (closeNow U st t)" "\<not> nt_closing t \<Longrightarrow> nt_queue (closeNow U st t) = []"
proof -
  let ?c = "t\<lparr>nt_closing := True\<rparr>"
  let ?w = "cancelWrites U st ?c"
  have w: "follows ?c ?w" "nt_queue ?w = []" using cancelWrites_ok [of ?c st] by simp_all
  then have wc: "nt_closing ?w" "nt_uvClosing ?w = nt_uvClosing t" by (simp_all add: follows_def frozen_def)
  show "nt_closing (closeNow U st t)" using wc by (simp add: closeNow_def Let_def)
  show "nt_queue (closeNow U st t) = []" if "\<not> nt_closing t" using that w by (simp add: closeNow_def Let_def)
  show "follows t (closeNow U st t)"
  proof (cases "nt_closing t")
    case False
    let ?z = "closeNow U st t"
    define uc pc where "uc = (nt_pollInitialized ?w \<and> \<not> nt_uvClosing ?w \<or> nt_uvClosing ?w)"
      and "pc = (\<not> (nt_pollInitialized ?w \<and> \<not> nt_uvClosing ?w) \<or> nt_pollClosed ?w)"
    define pe where "pe = (if nt_pollInitialized ?w then None else nt_pollEvents ?w)"
    have z: "?z = ?w\<lparr>nt_tlsCiphertext := [], nt_tlsCiphertextOffset := 0, nt_tlsCommittedPlaintext := 0, nt_pollEvents := pe,
      nt_descriptor := False, nt_uvClosing := uc, nt_pollClosed := pc\<rparr>"
      using False by (simp add: closeNow_def Let_def uc_def pc_def pe_def)
    have "sound t \<Longrightarrow> sound ?w" using w(1) set_closing [of _ t] by (simp add: follows_def keeps_def)
    moreover have "uc \<longrightarrow> nt_pollInitialized ?w \<or> nt_uvClosing ?w" by (auto simp: uc_def)
    ultimately have "sound t \<Longrightarrow> sound ?z" using closed_sound [OF _ wc(1)] unfolding z by simp
    then have "keeps t ?z" using w(2) wc(1) unfolding keeps_def by (simp add: z quiet_def bounded_def)
    moreover have "frozen t ?z" using False unfolding z by (simp add: frozen_def uc_def)
    moreover have "lives t ?z" using w(1) wc False unfolding z
      by (auto simp: lives_def follows_def undeleted_def uc_def pc_def)
    moreover have "static t ?z" using w(1) unfolding z by (simp add: static_def follows_def pc_def)
    ultimately show ?thesis by (simp add: follows_def)
  qed (simp add: closeNow_def)
qed

lemma reportTransportError_follows: "follows t (reportTransportError U m t)"
proof (cases "nt_reportingError t")
  case False
  obtain ok u where u: "callOwner U (OnTransportError m) (t\<lparr>nt_reportingError := True\<rparr>) = (ok, u)" by (cases rule: prod.exhaust)
  have "follows t u" using follows_trans [OF follows_fields(7) callOwner_follows [OF _ u]] by simp
  then have "follows t (u\<lparr>nt_reportingError := False\<rparr>)" by (rule follows_trans) simp
  with False u show ?thesis by (simp add: reportTransportError_def)
qed (simp add: reportTransportError_def)

lemma nt_fail_ok: "follows t (nt_fail U m t)" "nt_closing (nt_fail U m t)"
  using follows_trans [OF reportTransportError_follows closeNow_ok(1)] closeNow_ok(2) by (simp_all add: nt_fail_def)

lemma terminateForBackpressure_ok: "follows t (terminateForBackpressure U t)" "nt_closing (terminateForBackpressure U t)"
proof -
  have "follows t (snd (callOwner U OnBackpressure t))" using callOwner_follows [OF _ prod.collapse [symmetric]] by simp
  with follows_trans [OF this closeNow_ok(1)] closeNow_ok(2)
  show "follows t (terminateForBackpressure U t)" "nt_closing (terminateForBackpressure U t)"
    by (simp_all add: terminateForBackpressure_def)
qed

end

section \<open>TLS output\<close>

text \<open>Steps of a transport that is not closing.\<close>

definition open_follows :: "'z NativeTransport \<Rightarrow> 'z NativeTransport \<Rightarrow> bool" where
  "open_follows t t' \<longleftrightarrow> follows t t' \<and> (\<not> nt_closing t \<longrightarrow> \<not> nt_closing t') \<and> nt_queue t' = nt_queue t \<and>
     nt_tlsCommittedPlaintext t' = nt_tlsCommittedPlaintext t \<and> nt_pendingBytes t' = nt_pendingBytes t \<and>
     nt_flushingWrites t' = nt_flushingWrites t \<and> nt_fresh t' = nt_fresh t"

lemma open_follows_refl [simp]: "open_follows t t"
  by (simp add: open_follows_def)

lemma open_follows_trans: "open_follows t u \<Longrightarrow> open_follows u v \<Longrightarrow> open_follows t v"
  by (auto simp: open_follows_def intro: follows_trans)

lemma open_followsI:
  assumes "\<not> nt_closing t" "\<not> nt_closing t'" "nt_queue t' = nt_queue t" "nt_tlsCommittedPlaintext t' = nt_tlsCommittedPlaintext t"
    "nt_pendingBytes t' = nt_pendingBytes t" "nt_flushingWrites t' = nt_flushingWrites t" "nt_fresh t' = nt_fresh t"
    "static t t'" "lives t t'" "sound t \<Longrightarrow> sound t'"
  shows "open_follows t t'"
proof -
  have "keeps t t'" using assms by (auto simp: keeps_def quiet_def bounded_def backpressureExceeded_def static_def)
  with assms show ?thesis by (simp add: open_follows_def follows_def frozen_def)
qed

lemma bioAppend_fields [simp]:
  "nt_closing (bioAppend c t) = nt_closing t" "nt_queue (bioAppend c t) = nt_queue t" "nt_writeBIO (bioAppend c t) = nt_writeBIO t @ c"
  "nt_tlsCommittedPlaintext (bioAppend c t) = nt_tlsCommittedPlaintext t" "nt_io (bioAppend c t) = nt_io t" "nt_ssl (bioAppend c t) = nt_ssl t"
  "nt_pendingBytes (bioAppend c t) = nt_pendingBytes t" "nt_flushingWrites (bioAppend c t) = nt_flushingWrites t" "nt_fresh (bioAppend c t) = nt_fresh t"
  by (simp_all add: bioAppend_def)

lemma bioAppend_open: "\<not> nt_closing t \<Longrightarrow> open_follows t (bioAppend c t)"
proof (rule open_followsI)
  assume c: "\<not> nt_closing t"
  let ?u = "t\<lparr>nt_writeBIO := nt_writeBIO t @ c\<rparr>"
  have "nt_history ?u = nt_history t" by simp
  note l = logged_eq [OF this]
  show "static t (bioAppend c t)" by (simp add: static_def bioAppend_def)
  show "lives t (bioAppend c t)" by (simp add: lives_def bioAppend_def) (simp add: undeleted_def)
  assume "sound t"
  then show "sound (bioAppend c t)"
    using c gone_same [of ?u t] by (auto simp: bioAppend_def soundWith_def queue_ok_def bytes_ok_def cipher_ok_def calls_ok_def flags_ok_def l)
qed simp_all

definition withOutput :: "answer list \<Rightarrow> byte list \<Rightarrow> nat \<Rightarrow> byte list \<Rightarrow> 'z NativeTransport \<Rightarrow> 'z NativeTransport" where
  "withOutput io cipher off bio t =
     t\<lparr>nt_io := io, nt_tlsCiphertext := cipher, nt_tlsCiphertextOffset := off, nt_writeBIO := bio\<rparr>"

definition outgoing :: "'z NativeTransport \<Rightarrow> byte list" where
  "outgoing t = drop (nt_tlsCiphertextOffset t) (nt_tlsCiphertext t) @ nt_writeBIO t"

lemma withOutput_update [simp]:
  "(happen h t)\<lparr>nt_tlsCiphertext := c, nt_tlsCiphertextOffset := k\<rparr> = happen h (t\<lparr>nt_tlsCiphertext := c, nt_tlsCiphertextOffset := k\<rparr>)"
  "(happen h t)\<lparr>nt_tlsCiphertextOffset := k\<rparr> = happen h (t\<lparr>nt_tlsCiphertextOffset := k\<rparr>)"
  "(withOutput io c0 k0 b t)\<lparr>nt_tlsCiphertext := c, nt_tlsCiphertextOffset := k\<rparr> = withOutput io c k b t"
  "(withOutput io c0 k0 b t)\<lparr>nt_tlsCiphertextOffset := k\<rparr> = withOutput io c0 k b t"
  by (cases t, simp add: happen_def withOutput_def)+

lemma withOutput_fields [simp]:
  "nt_closing (withOutput io cipher off bio t) = nt_closing t" "nt_queue (withOutput io cipher off bio t) = nt_queue t"
  "nt_tlsCommittedPlaintext (withOutput io cipher off bio t) = nt_tlsCommittedPlaintext t" "nt_io (withOutput io cipher off bio t) = io"
  "nt_ssl (withOutput io cipher off bio t) = nt_ssl t" "nt_pendingBytes (withOutput io cipher off bio t) = nt_pendingBytes t"
  "nt_flushingWrites (withOutput io cipher off bio t) = nt_flushingWrites t" "nt_fresh (withOutput io cipher off bio t) = nt_fresh t"
  "nt_history (withOutput io cipher off bio t) = nt_history t" "nt_maxBackpressure (withOutput io cipher off bio t) = nt_maxBackpressure t"
  "nt_environmentCleaning (withOutput io cipher off bio t) = nt_environmentCleaning t" "nt_active (withOutput io cipher off bio t) = nt_active t"
  "nt_pollInitialized (withOutput io cipher off bio t) = nt_pollInitialized t" "nt_deleted (withOutput io cipher off bio t) = nt_deleted t"
  "nt_destroyRequested (withOutput io cipher off bio t) = nt_destroyRequested t"
  "undeleted (withOutput io cipher off bio t) = undeleted t" "nt_pollClosed (withOutput io cipher off bio t) = nt_pollClosed t"
  "nt_insideCloseCallback (withOutput io cipher off bio t) = nt_insideCloseCallback t"
  "queue_ok (withOutput io cipher off bio t) = queue_ok t" "flags_ok (withOutput io cipher off bio t) = flags_ok t"
  "logged what (withOutput io cipher off bio t) = logged what t"
  "nt_tlsCiphertext (withOutput io cipher off bio t) = cipher" "nt_tlsCiphertextOffset (withOutput io cipher off bio t) = off"
  "nt_writeBIO (withOutput io cipher off bio t) = bio" "gone_ok (withOutput io cipher off bio t) = gone_ok t"
  by (simp_all add: withOutput_def undeleted_def queue_ok_def flags_ok_def gone_ok_def logged_def)

lemma withOutput_sound:
  assumes "sound t" "\<not> nt_closing t" "nt_ssl t" "off \<le> length cipher \<or> off = nt_tlsCiphertextOffset t \<and> cipher = nt_tlsCiphertext t"
  shows "outgoing t = drop off cipher @ bio \<Longrightarrow> sound (withOutput io cipher off bio t)"
    "outgoing t = bs @ drop off cipher @ bio \<Longrightarrow> sound (happen (Sent bs) (withOutput io cipher off bio t))"
    "sound (happen Broken (withOutput io cipher' off' bio' t))"
proof -
  let ?u = "withOutput io cipher off bio t"
  have s: "queue_ok t" "bytes_ok (nt_tlsCommittedPlaintext t) t" "cipher_ok t" "calls_ok t" "flags_ok t" "gone_ok t"
    using assms(1) by (simp_all add: soundWith_def)
  have o: "off \<le> length cipher" if "Broken \<notin> set (nt_history t)" using assms that s(3) by (auto simp: cipher_ok_def)
  have u: "bytes_ok c ?u = bytes_ok c t" "calls_ok ?u = calls_ok t" for c by (simp_all add: bytes_ok_def calls_ok_def)
  show "sound ?u" if "outgoing t = drop off cipher @ bio"
  proof -
    have "cipher_ok ?u" using s(3) assms(2,3) that o by (simp add: cipher_ok_def outgoing_def)
    with s u show ?thesis by (simp add: soundWith_def)
  qed
  show "sound (happen (Sent bs) ?u)" if "outgoing t = bs @ drop off cipher @ bio"
  proof -
    have "cipher_ok (happen (Sent bs) ?u)" using s(3) assms(2,3) that o by (simp add: cipher_ok_def outgoing_def)
    with s u assms(3) show ?thesis by (simp add: soundWith_def)
  qed
  show "sound (happen Broken (withOutput io cipher' off' bio' t))"
    using s by (simp add: soundWith_def cipher_ok_def bytes_ok_def calls_ok_def)
qed

lemma withOutput_open:
  assumes "\<not> nt_closing t" "nt_ssl t" "length io \<le> length (nt_io t)"
  shows "off \<le> length cipher \<or> off = nt_tlsCiphertextOffset t \<and> cipher = nt_tlsCiphertext t \<Longrightarrow> outgoing t = drop off cipher @ bio \<Longrightarrow> open_follows t (withOutput io cipher off bio t)"
    "off \<le> length cipher \<or> off = nt_tlsCiphertextOffset t \<and> cipher = nt_tlsCiphertext t \<Longrightarrow> outgoing t = bs @ drop off cipher @ bio \<Longrightarrow>
       open_follows t (happen (Sent bs) (withOutput io cipher off bio t))"
    "open_follows t (happen Broken (withOutput io cipher off bio t))"
proof -
  have st: "static t (withOutput io cipher off bio t)" "lives t (withOutput io cipher off bio t)"
    "static t (happen h (withOutput io cipher off bio t))" "lives t (happen h (withOutput io cipher off bio t))" for h
    using assms by (simp_all add: static_def lives_def)
  show "open_follows t (withOutput io cipher off bio t)" if "off \<le> length cipher \<or> off = nt_tlsCiphertextOffset t \<and> cipher = nt_tlsCiphertext t" "outgoing t = drop off cipher @ bio"
    using assms st by (intro open_followsI withOutput_sound(1) [OF _ assms(1,2) that]) auto
  show "open_follows t (happen (Sent bs) (withOutput io cipher off bio t))"
    if "off \<le> length cipher \<or> off = nt_tlsCiphertextOffset t \<and> cipher = nt_tlsCiphertext t" "outgoing t = bs @ drop off cipher @ bio"
    using assms st withOutput_sound(2) [OF _ assms(1,2) that] by (intro open_followsI) auto
  show "open_follows t (happen Broken (withOutput io cipher off bio t))"
    by (rule open_followsI) (use assms st withOutput_sound(3) [OF _ assms(1,2) disjI1 [OF order_refl]] in auto)
qed

lemma open_follows_ssl: "open_follows t u \<Longrightarrow> nt_ssl u = nt_ssl t"
  by (simp add: open_follows_def follows_def static_def)

context reentrant
begin

text \<open>Either the output went on its way, or the transport was closed.\<close>

definition flushed :: "bool \<Rightarrow> 'z NativeTransport \<Rightarrow> 'z NativeTransport \<Rightarrow> bool" where
  "flushed ok t t' \<longleftrightarrow> (if ok then open_follows t t' else follows t t' \<and> nt_closing t')"

lemma flushed_trans: "open_follows t u \<Longrightarrow> flushed ok u v \<Longrightarrow> flushed ok t v"
  by (auto simp: flushed_def open_follows_def intro: follows_trans)

lemma flushed_fail: "open_follows t u \<Longrightarrow> flushed False t (nt_fail U m u)"
  using nt_fail_ok by (auto simp: flushed_def open_follows_def intro: follows_trans)

lemma sendRaw_cases:
  assumes "sendRaw bs t = (res, t')"
  obtains (wrote) n io where "res = Wrote n" "n \<le> length bs" "t' = happen (Sent (take n bs)) (t\<lparr>nt_io := io\<rparr>)" "length io \<le> length (nt_io t)"
  | (blocked) io where "res = WouldBlock" "t' = t\<lparr>nt_io := io\<rparr>" "length io \<le> length (nt_io t)"
  | (error) e io where "res = IoError e" "t' = happen Broken (t\<lparr>nt_io := io\<rparr>)" "length io \<le> length (nt_io t)"
  using sendRaw_fields [OF assms] by (cases res) auto

lemma drainBIO_ok:
  "\<not> nt_closing t \<Longrightarrow> nt_ssl t \<Longrightarrow> drop (nt_tlsCiphertextOffset t) (nt_tlsCiphertext t) = [] \<Longrightarrow>
   drainBIO E U' t = (ok, t') \<Longrightarrow> U' = U \<Longrightarrow> flushed ok t t'"
proof (induction E U' t rule: drainBIO.induct)
  case (1 E U' t)
  let ?batch = "take TLS_OUTPUT_BATCH_SIZE (nt_writeBIO t)"
  let ?t = "t\<lparr>nt_writeBIO := drop TLS_OUTPUT_BATCH_SIZE (nt_writeBIO t)\<rparr>"
  have out: "outgoing t = ?batch @ drop TLS_OUTPUT_BATCH_SIZE (nt_writeBIO t)" using "1.prems"(3) by (simp add: outgoing_def)
  have w: "?t\<lparr>nt_io := io\<rparr> = withOutput io (nt_tlsCiphertext t) (nt_tlsCiphertextOffset t) (drop TLS_OUTPUT_BATCH_SIZE (nt_writeBIO t)) t"
    "?t\<lparr>nt_io := io, nt_tlsCiphertext := c, nt_tlsCiphertextOffset := k\<rparr> = withOutput io c k (drop TLS_OUTPUT_BATCH_SIZE (nt_writeBIO t)) t" for io c k
    by (simp_all add: withOutput_def)
  note open' = withOutput_open [OF "1.prems"(1,2)]
  show ?case
  proof (cases "nt_writeBIO t = []")
    case True
    with "1.prems"(4) show ?thesis by (subst (asm) drainBIO.simps) (simp add: flushed_def)
  next
    case False
    obtain res u where s: "sendRaw ?batch ?t = (res, u)" by (cases "sendRaw ?batch ?t")
    note step = "1.prems"(4) [unfolded drainBIO.simps [of E U' t], unfolded Let_def s]
    from s show ?thesis
    proof (cases rule: sendRaw_cases)
      case (wrote n io)
      show ?thesis
      proof (cases "n = length ?batch")
        case True
        have tk: "take n ?batch = ?batch" using True take_all [of ?batch n] by simp
        have o: "open_follows t u"
          unfolding wrote(3) w tk using wrote(4) out True "1.prems"(3) by (intro open'(2)) simp_all
        have d: "drainBIO E U u = (ok, t')" using step wrote(1) True False "1.prems"(5) by simp
        have "drop (nt_tlsCiphertextOffset u) (nt_tlsCiphertext u) = []" using "1.prems"(3) unfolding wrote(3) w by simp
        with "1.IH" [OF False refl refl s [symmetric] wrote(1) True] o d open_follows_ssl [OF o] "1.prems"
        show ?thesis by (auto intro: flushed_trans simp: open_follows_def)
      next
        case part: False
        have "open_follows t (happen (Sent (take n ?batch)) (withOutput io (drop n ?batch) 0 (drop TLS_OUTPUT_BATCH_SIZE (nt_writeBIO t)) t))"
        proof (rule open'(2))
          show "length io \<le> length (nt_io t)" using wrote(4) by simp
          show "outgoing t = take n ?batch @ drop 0 (drop n ?batch) @ drop TLS_OUTPUT_BATCH_SIZE (nt_writeBIO t)"
            unfolding out drop_0 append_assoc [symmetric] append_take_drop_id by (rule refl)
        qed simp
        moreover have "t' = happen (Sent (take n ?batch)) (withOutput io (drop n ?batch) 0 (drop TLS_OUTPUT_BATCH_SIZE (nt_writeBIO t)) t)" "ok"
          using step wrote part False by (simp_all add: w)
        ultimately show ?thesis by (simp add: flushed_def)
      qed
    next
      case (blocked io)
      have "open_follows t (withOutput io ?batch 0 (drop TLS_OUTPUT_BATCH_SIZE (nt_writeBIO t)) t)"
        using blocked(3) out by (intro open'(1)) simp_all
      moreover have "t' = withOutput io ?batch 0 (drop TLS_OUTPUT_BATCH_SIZE (nt_writeBIO t)) t" "ok"
        using step blocked False by (simp_all add: w)
      ultimately show ?thesis by (simp add: flushed_def)
    next
      case (error e io)
      have "open_follows t u" unfolding error(2) w using error(3) by (intro open'(3)) simp
      moreover have "t' = nt_fail U (strerror E e) u" "\<not> ok" using step error(1) False "1.prems"(5) by simp_all
      ultimately show ?thesis using flushed_fail by simp
    qed
  qed
qed

lemma flushMemoryBIOOutput_ok:
  assumes "\<not> nt_closing t" "nt_ssl t" "flushMemoryBIOOutput E U t = (ok, t')"
  shows "flushed ok t t'"
proof (cases "nt_tlsCiphertextOffset t < length (nt_tlsCiphertext t)")
  case False
  with assms show ?thesis by (intro drainBIO_ok) (simp_all add: flushMemoryBIOOutput_def)
next
  case True
  let ?off = "nt_tlsCiphertextOffset t" and ?c = "nt_tlsCiphertext t"
  obtain res u where s: "sendRaw (drop ?off ?c) t = (res, u)" by (cases "sendRaw (drop ?off ?c) t")
  note open' = withOutput_open [OF assms(1,2)]
  have w: "t\<lparr>nt_io := io\<rparr> = withOutput io ?c ?off (nt_writeBIO t) t" for io by (simp add: withOutput_def)
  from s show ?thesis
  proof (cases rule: sendRaw_cases)
    case (wrote n io)
    define v where "v = happen (Sent (take n (drop ?off ?c)))
      (if ?off + n = length ?c then withOutput io [] 0 (nt_writeBIO t) t else withOutput io ?c (?off + n) (nt_writeBIO t) t)"
    have d: "drop ?off ?c = take n (drop ?off ?c) @ drop (?off + n) ?c" by (metis append_take_drop_id drop_drop add.commute)
    have o: "open_follows t v"
    proof (cases "?off + n = length ?c")
      case True
      have "outgoing t = take n (drop ?off ?c) @ drop 0 [] @ nt_writeBIO t" using d True by (simp add: outgoing_def)
      from open'(2) [OF wrote(4) _ this] True show ?thesis by (simp add: v_def)
    next
      case no: False
      have "outgoing t = take n (drop ?off ?c) @ drop (?off + n) ?c @ nt_writeBIO t" using d by (simp add: outgoing_def)
      moreover have "?off + n \<le> length ?c" using wrote(2) True by simp
      ultimately show ?thesis using open'(2) [OF wrote(4)] no by (simp add: v_def)
    qed
    have v: "flushMemoryBIOOutput E U t = (if nt_tlsCiphertextOffset v < length (nt_tlsCiphertext v) then (True, v) else drainBIO E U v)"
      using True s wrote by (simp add: flushMemoryBIOOutput_def v_def Let_def w)
    show ?thesis
    proof (cases "nt_tlsCiphertextOffset v < length (nt_tlsCiphertext v)")
      case True
      with v assms(3) o show ?thesis by (simp add: flushed_def)
    next
      case False
      with v assms(3) drainBIO_ok [of v E U ok t'] o open_follows_ssl [OF o] assms(1,2) show ?thesis
        by (auto intro: flushed_trans simp: open_follows_def)
    qed
  next
    case (blocked io)
    have "open_follows t u"
      unfolding blocked(2) w using blocked(3) True by (intro open'(1)) (simp_all add: outgoing_def)
    with blocked(1) s True assms(3) show ?thesis by (simp add: flushMemoryBIOOutput_def flushed_def)
  next
    case (error e io)
    have "open_follows t u" unfolding error(2) w by (intro open'(3) error(3))
    moreover have "t' = nt_fail U (strerror E e) u" "\<not> ok"
      using error(1) s True assms(3) by (simp_all add: flushMemoryBIOOutput_def)
    ultimately show ?thesis using flushed_fail by simp
  qed
qed

end

end
