(* ===== verification/Transport_Writing.thy ===== *)
theory Transport_Writing
  imports Transport_Invariant
begin

text \<open>
  The loops that write: each round of \<open>flushWrites\<close> keeps the invariant, also when callbacks come back to
  the transport in the middle of it; then \<open>submit\<close>, and the operations that call it.
\<close>

section \<open>The rounds of a flush\<close>

lemma setHead_queue [simp]: "nt_queue t = (k, r0) # q \<Longrightarrow> nt_queue (setHead r t) = (k, r) # q"
  by (simp add: setHead_def)

text \<open>
  The first request has changed to \<open>r'\<close>, \<open>bs\<close> has gone out of it, and \<open>c'\<close> of it are not yet counted. The
  history tells where it went.
\<close>

lemma head_sound:
  assumes s: "soundWith c t" "\<not> nt_closing t" "nt_queue t = (k, r) # q"
    and r: "live r'" "remaining r = bs @ remaining r'" "wr_bytes r' = wr_sent r' + c' + length (remaining r')"
      "wr_callback r' = wr_callback r" "wr_deferred r' = wr_deferred r" "wr_bytes r' = wr_bytes r"
    and u: "nt_queue u = (k, r') # q" "nt_pendingBytes u + (wr_sent r' - wr_sent r) = nt_pendingBytes t" "wr_sent r \<le> wr_sent r'"
      "nt_history u = nt_history t @ hs" "concat (map (passedBy (nt_ssl t)) hs) = bs" "concat (map submittedBy hs) = []"
      "concat (map promisedBy hs) = []" "concat (map answeredBy hs) = []"
    and same: "nt_ssl u = nt_ssl t" "nt_closing u = nt_closing t" "nt_fresh u = nt_fresh t" "nt_environmentCleaning u = nt_environmentCleaning t"
      "flags_ok u" "cipher_ok u" "gone_ok u"
  shows "soundWith c' u"
proof -
  have lg: "logged what u = logged what t @ concat (map what hs)" for what :: "happening \<Rightarrow> byte list" by (simp add: logged_def u(4))
  have lg': "logged promisedBy u = logged promisedBy t" "logged answeredBy u = logged answeredBy t"
    using u(7,8) by (simp_all add: logged_def u(4))
  have b: "wr_bytes r = wr_sent r + c + length (remaining r)" using s by (simp add: soundWith_def bytes_ok_def counted_def)
  have "wr_remainingBytes r = wr_remainingBytes r' + (wr_sent r' - wr_sent r)"
    using r(3,6) b u(3) by (simp add: wr_remainingBytes_def)
  then have "queue_ok u" using s r u same by (auto simp: soundWith_def queue_ok_def)
  moreover have "bytes_ok c' u"
    using s r u same unfolding soundWith_def bytes_ok_def by (simp add: lg counted_def)
  moreover have "calls_ok u"
    using s r u same unfolding soundWith_def calls_ok_def by (simp add: lg' callbacksOf_def)
  ultimately show ?thesis using same by (simp add: soundWith_def)
qed

text \<open>Steps that keep the queue but for what its first request has left.\<close>

definition going :: "'z NativeTransport \<Rightarrow> 'z NativeTransport \<Rightarrow> bool" where
  "going t t' \<longleftrightarrow> follows t t' \<and> \<not> nt_closing t' \<and>
     (\<exists>r'. nt_queue t' = (fst (hd (nt_queue t)), r') # tl (nt_queue t) \<and>
        (sound t \<longrightarrow> wr_deferred r' = wr_deferred (snd (hd (nt_queue t)))))"

lemma going_trans: "going t u \<Longrightarrow> going u v \<Longrightarrow> going t v"
proof -
  assume g: "going t u" "going u v"
  then have "sound t \<Longrightarrow> sound u" by (simp add: going_def follows_def keeps_def)
  with g show ?thesis by (auto simp: going_def intro: follows_trans)
qed

lemma open_going: "nt_queue t \<noteq> [] \<Longrightarrow> \<not> nt_closing t \<Longrightarrow> open_follows t u \<Longrightarrow> going t u"
  by (cases "nt_queue t") (auto simp: going_def open_follows_def)

lemma going_queue: "going t u \<Longrightarrow> nt_queue u \<noteq> [] \<and> \<not> nt_closing u"
  by (auto simp: going_def)

lemma nextAnswer_open:
  assumes "nextAnswer t = (a, t')" "\<not> nt_closing t"
  shows "open_follows t t'"
proof -
  obtain io where io: "t' = t\<lparr>nt_io := io\<rparr>" "length io \<le> length (nt_io t)" using nextAnswer_fields [OF assms(1)] by blast
  with follows_io [OF io(2)] assms(2) show ?thesis by (simp add: open_follows_def)
qed

lemma blocked_open: "\<not> nt_closing t \<Longrightarrow> open_follows t (t\<lparr>nt_tlsWriteBlockedOnRead := b\<rparr>)"
  by (simp add: open_follows_def)

lemma staged_going:
  assumes n: "\<not> nt_closing t" and q: "nt_queue t = (k, r) # q" and ssl: "nt_ssl t"
    and m: "n \<le> remainingPartBytes r" "unstagedBytes (nt_tlsCommittedPlaintext t) r \<noteq> 0"
  shows "going t ((setHead (stageTLS n r) (happen (Encrypted (take n (remainingData r))) t))\<lparr>nt_tlsWriteBlockedOnRead := b,
     nt_tlsCommittedPlaintext := nt_tlsCommittedPlaintext t + n\<rparr>)" (is "going t ?u")
proof -
  have u: "nt_queue ?u = (k, stageTLS n r) # q" "nt_closing ?u = nt_closing t" "nt_ssl ?u = nt_ssl t" "nt_fresh ?u = nt_fresh t"
    "nt_history ?u = nt_history t @ [Encrypted (take n (remainingData r))]" "nt_pendingBytes ?u = nt_pendingBytes t"
    "nt_environmentCleaning ?u = nt_environmentCleaning t" "nt_tlsCommittedPlaintext ?u = nt_tlsCommittedPlaintext t + n"
    "nt_maxBackpressure ?u = nt_maxBackpressure t"
    using q by (simp_all add: setHead_def)
  have sl: "static t ?u" "lives t ?u" by (simp_all add: static_def lives_def undeleted_def setHead_def)
  have fl: "flags_ok t \<Longrightarrow> flags_ok ?u" using ssl q by (simp add: flags_ok_def setHead_def)
  have ci: "cipher_ok ?u = cipher_ok t" by (simp add: cipher_ok_def setHead_def logged_def)
  have go: "gone_ok t \<Longrightarrow> gone_ok ?u" by (erule gone_mono [where hs = "[Encrypted (take n (remainingData r))]"]) (simp_all add: u)
  {
    assume s: "sound t"
    then have l: "live r" using q by (simp add: soundWith_def queue_ok_def)
    have b: "wr_bytes r = wr_sent r + nt_tlsCommittedPlaintext t + length (remaining r)"
      using s n q by (simp add: soundWith_def bytes_ok_def counted_def)
    with m(2) have ne: "remaining r \<noteq> []" by (auto simp: unstagedBytes_def)
    note d = remainingData_ok [OF l ne]
    have nl: "n \<le> length (remaining r)" using m(1) d(2) by simp
    have st: "live (stageTLS n r)" "remaining (stageTLS n r) = drop n (remaining r)" "wr_bytes (stageTLS n r) = wr_bytes r"
      "wr_sent (stageTLS n r) = wr_sent r" "wr_callback (stageTLS n r) = wr_callback r" "wr_deferred (stageTLS n r) = wr_deferred r"
      using stageTLS_ok [OF l nl] by auto
    have "soundWith (nt_tlsCommittedPlaintext t + n) ?u"
      by (rule head_sound [OF s n q st(1), where bs = "take n (remaining r)" and hs = "[Encrypted (take n (remainingData r))]"])
        (use st b nl u ssl d(3) [OF m(1)] s fl ci go in \<open>simp_all add: soundWith_def\<close>)
    then have "sound ?u" unfolding u(8) .
    note this st(6)
  }
  note s = this
  have "keeps t ?u" using s(1) n u by (simp add: keeps_def quiet_def bounded_def backpressureExceeded_def)
  with sl n u have "follows t ?u" by (simp add: follows_def frozen_def)
  with s(2) u n q show ?thesis by (simp add: going_def)
qed

lemma stageLoop_ok:
  "\<not> nt_closing t \<Longrightarrow> nt_queue t \<noteq> [] \<Longrightarrow> nt_ssl t \<Longrightarrow> stageLoop m t = (ok, t') \<Longrightarrow> going t t'"
proof (induction m t rule: stageLoop.induct)
  case (1 m t)
  obtain k r q where q: "nt_queue t = (k, r) # q" using "1.prems"(2) by (cases "nt_queue t") auto
  have here: "going t t" using open_going [OF "1.prems"(2,1)] by simp
  show ?case
  proof (cases "unstagedBytes (nt_tlsCommittedPlaintext t) r = 0 \<or> m = 0")
    case True
    with "1.prems"(4) q here show ?thesis by (subst (asm) stageLoop.simps) simp
  next
    case False
    obtain a u where u: "nextAnswer t = (a, u)" by (cases "nextAnswer t")
    have o: "open_follows t u" by (rule nextAnswer_open [OF u "1.prems"(1)])
    have uq: "nt_queue u = (k, r) # q" "\<not> nt_closing u" "nt_tlsCommittedPlaintext u = nt_tlsCommittedPlaintext t" "nt_ssl u"
      using o q "1.prems" open_follows_ssl [OF o] by (simp_all add: open_follows_def)
    note g = open_going [OF "1.prems"(2,1)]
    note step = "1.prems"(4) [unfolded stageLoop.simps [of m t], unfolded Let_def q u]
    let ?batch = "min (remainingPartBytes r) m"
    show ?thesis
    proof (cases a)
      case (Done n bs c)
      let ?n = "min n ?batch"
      show ?thesis
      proof (cases "?n = 0")
        case True
        have "t' = bioAppend c u" using step False Done True by (simp split: if_splits)
        with g open_follows_trans [OF o bioAppend_open [OF uq(2)]] show ?thesis by simp
      next
        case nz: False
        let ?b = "bioAppend c u"
        let ?v = "(setHead (stageTLS ?n r) (happen (Encrypted (take ?n (remainingData r))) ?b))\<lparr>nt_tlsWriteBlockedOnRead := False,
           nt_tlsCommittedPlaintext := nt_tlsCommittedPlaintext ?b + ?n\<rparr>"
        have v: "going ?b ?v" using False uq by (intro staged_going) simp_all
        have w: "going t ?v"
          using going_trans [OF g [OF open_follows_trans [OF o bioAppend_open [OF uq(2)]]] v] .
        have "stageLoop (m - ?n) ?v = (ok, t')" using step False Done nz uq(3) by simp
        moreover have "nt_ssl ?v" using uq(4) by (simp add: setHead_def)
        moreover have "snd (hd (nt_queue t)) = r" using q by simp
        note ih = "1.IH" [OF refl _ refl u [symmetric] Done refl refl _ refl refl, unfolded this]
        ultimately have "going ?v t'" using ih [OF _ nz] False going_queue [OF w] by simp
        with w show ?thesis by (rule going_trans)
      qed
    next
      case (WantRead c)
      have "t' = bioAppend c (u\<lparr>nt_tlsWriteBlockedOnRead := True\<rparr>)" using step False WantRead by simp
      with g [OF open_follows_trans [OF o open_follows_trans [OF blocked_open bioAppend_open]]] uq(2) show ?thesis by simp
    next
      case (WantWrite c)
      have "t' = bioAppend c (u\<lparr>nt_tlsWriteBlockedOnRead := False\<rparr>)" using step False WantWrite by simp
      with g [OF open_follows_trans [OF o open_follows_trans [OF blocked_open bioAppend_open]]] uq(2) show ?thesis by simp
    qed (use step False g o in \<open>simp_all\<close>)
  qed
qed


text \<open>A round of \<open>flushWrites\<close>: \<open>n\<close> bytes of the first request count as sent.\<close>

definition sentState :: "answer list \<Rightarrow> nat \<Rightarrow> WriteRequest \<Rightarrow> nat \<Rightarrow> nat \<Rightarrow> happening list \<Rightarrow> 'z NativeTransport \<Rightarrow> 'z NativeTransport" where
  "sentState io k r' n c hs t = t\<lparr>nt_io := io, nt_queue := (k, r') # tl (nt_queue t),
     nt_pendingBytes := nt_pendingBytes t - min (nt_pendingBytes t) n, nt_tlsCommittedPlaintext := c, nt_history := nt_history t @ hs\<rparr>"

lemma sentState_fields [simp]:
  "nt_queue (sentState io k r' n c hs t) = (k, r') # tl (nt_queue t)" "nt_closing (sentState io k r' n c hs t) = nt_closing t"
  "nt_tlsCommittedPlaintext (sentState io k r' n c hs t) = c" "nt_history (sentState io k r' n c hs t) = nt_history t @ hs"
  "nt_pendingBytes (sentState io k r' n c hs t) = nt_pendingBytes t - min (nt_pendingBytes t) n" "nt_ssl (sentState io k r' n c hs t) = nt_ssl t"
  "nt_fresh (sentState io k r' n c hs t) = nt_fresh t" "nt_environmentCleaning (sentState io k r' n c hs t) = nt_environmentCleaning t"
  "nt_maxBackpressure (sentState io k r' n c hs t) = nt_maxBackpressure t" "nt_io (sentState io k r' n c hs t) = io"
  by (simp_all add: sentState_def)

lemma counted_sum:
  assumes "counted c rs"
  shows "sum_list (map wr_remainingBytes rs) = c + length (concat (map remaining rs))"
proof -
  have "(\<forall>r \<in> set rs. wr_bytes r = wr_sent r + length (remaining r)) \<Longrightarrow>
    sum_list (map wr_remainingBytes rs) = length (concat (map remaining rs))" for rs
    by (induction rs) (simp_all add: wr_remainingBytes_def)
  with assms show ?thesis by (cases rs) (simp_all add: counted_def wr_remainingBytes_def)
qed

lemma sentState_going:
  assumes n: "\<not> nt_closing t" and q: "nt_queue t = (k, r) # q" and io: "length io \<le> length (nt_io t)"
    and r': "sound t \<Longrightarrow> live r' \<and> remaining r = bs @ remaining r' \<and> wr_bytes r' = wr_bytes r \<and> wr_sent r' = wr_sent r + n \<and>
      wr_callback r' = wr_callback r \<and> wr_deferred r' = wr_deferred r \<and> n = length bs + nt_tlsCommittedPlaintext t \<and> c = 0"
    and hs: "concat (map (passedBy (nt_ssl t)) hs) = bs" "concat (map submittedBy hs) = []"
      "concat (map promisedBy hs) = []" "concat (map answeredBy hs) = []" "nt_ssl t \<Longrightarrow> hs = [] \<and> \<not> hasTLSOutput t"
  shows "going t (sentState io k r' n c hs t)" (is "going t ?u")
proof -
  have sl: "static t ?u" "lives t ?u" using io by (simp_all add: static_def lives_def undeleted_def) (simp_all add: sentState_def)
  {
    assume s: "sound t"
    note r = r' [OF s]
    have b: "wr_bytes r = wr_sent r + nt_tlsCommittedPlaintext t + length (remaining r)"
      using s n q by (simp add: soundWith_def bytes_ok_def counted_def)
    have p: "nt_pendingBytes t = wr_remainingBytes r + sum_list (map wr_remainingBytes (map snd q))"
      using s q by (simp add: soundWith_def queue_ok_def)
    have fl: "flags_ok ?u" using s q r by (simp add: soundWith_def flags_ok_def sentState_def)
    have ci: "cipher_ok ?u"
    proof (cases "nt_ssl t")
      case True
      with s hs(5) have "cipher_ok t" "hs = []" by (simp_all add: soundWith_def)
      with n show ?thesis by (simp add: cipher_ok_def sentState_def logged_def)
    qed (simp add: cipher_ok_def)
    have d: "nt_pendingBytes ?u + (wr_sent r' - wr_sent r) = nt_pendingBytes t"
      using r b p by (simp add: wr_remainingBytes_def)
    have go: "gone_ok ?u"
    proof (cases "nt_ssl t \<and> Broken \<notin> set (nt_history t)")
      case True
      with hs(5) have z: "hs = []" "\<not> hasTLSOutput t" by simp_all
      have a: "nt_nodeBIOs t" using s q True by (auto simp: soundWith_def flags_ok_def)
      show ?thesis
      proof (rule gone_all)
        have "counted (nt_tlsCommittedPlaintext t) (requests t)"
          "logged submittedBy t = logged (passedBy True) t @ concat (map remaining (requests t))"
          using s n True by (simp_all add: soundWith_def bytes_ok_def)
        moreover have "logged what ?u = logged what t" for what :: "happening \<Rightarrow> byte list" using z by (simp add: logged_def)
        moreover have "nt_pendingBytes t = nt_tlsCommittedPlaintext t + length (concat (map remaining (requests t)))"
          using s counted_sum [OF calculation(1)] by (simp add: soundWith_def queue_ok_def)
        moreover have "n = nt_tlsCommittedPlaintext t" using r hs(1) z(1) by simp
        ultimately show "length (logged (passedBy True) ?u) + nt_pendingBytes ?u = length (logged submittedBy ?u)" by simp
        have "logged ciphertextBy t = logged sentBy t @ drop (nt_tlsCiphertextOffset t) (nt_tlsCiphertext t) @ nt_writeBIO t"
          using s n True by (simp add: soundWith_def cipher_ok_def)
        moreover have "drop (nt_tlsCiphertextOffset t) (nt_tlsCiphertext t) = []" "nt_writeBIO t = []"
          using z(2) a by (simp_all add: hasTLSOutput_def)
        ultimately show "logged ciphertextBy ?u = logged sentBy ?u" using z(1) by (simp add: logged_def)
      qed
    qed (auto simp: gone_ok_def)
    have "soundWith 0 ?u"
      by (rule head_sound [OF s n q, where bs = bs and hs = hs and r' = r']) (use r b q hs fl ci d go in simp_all)
    with r have "sound ?u" by simp
    with r q have "sound ?u" "wr_deferred r' = wr_deferred r" by simp_all
  }
  note s = this
  have "keeps t ?u" using s(1) n by (simp add: keeps_def quiet_def bounded_def backpressureExceeded_def) linarith
  with sl n have "follows t ?u" by (simp add: follows_def frozen_def)
  with s(2) n q show ?thesis by (simp add: going_def)
qed

lemma tcp_going:
  assumes n: "\<not> nt_closing t" and q: "nt_queue t = (k, r) # q" and ssl: "\<not> nt_ssl t"
    and w: "writeTCP E r t = (Wrote n, u)"
  shows "going t ((setHead (advance n r) u)\<lparr>nt_pendingBytes := nt_pendingBytes u - min (nt_pendingBytes u) n\<rparr>)"
proof -
  let ?v = "concat (remainingIovecs (maximumIOVectors E) r)"
  obtain io where u: "length io \<le> length (nt_io t)" "u = happen (Sent (take n ?v)) (t\<lparr>nt_io := io\<rparr>)" "n \<le> length ?v"
    using sendRaw_fields [OF w [unfolded writeTCP_def]] by auto
  let ?u = "sentState io k (advance n r) n (nt_tlsCommittedPlaintext t) [Sent (take n ?v)] t"
  have "(setHead (advance n r) u)\<lparr>nt_pendingBytes := nt_pendingBytes u - min (nt_pendingBytes u) n\<rparr> = ?u"
    using q unfolding u(2) by (cases t) (simp add: sentState_def setHead_def happen_def)
  moreover have "going t ?u"
  proof (rule sentState_going [OF n q u(1), where bs = "take n ?v"])
    assume s: "sound t"
    have l: "live r" using s q by (simp add: soundWith_def queue_ok_def)
    note v = remainingIovecs_prefix [OF l, where limit = "maximumIOVectors E"]
    have nl: "n \<le> length (remaining r)" using u(3) v(2) by (rule le_trans)
    have tk: "take n ?v = take n (remaining r)" using v(1) [of n] u(3) by simp
    have "nt_tlsCommittedPlaintext t = 0" using s ssl by (simp add: soundWith_def flags_ok_def)
    then show "live (advance n r) \<and> remaining r = take n ?v @ remaining (advance n r) \<and> wr_bytes (advance n r) = wr_bytes r \<and>
      wr_sent (advance n r) = wr_sent r + n \<and> wr_callback (advance n r) = wr_callback r \<and>
      wr_deferred (advance n r) = wr_deferred r \<and> n = length (take n ?v) + nt_tlsCommittedPlaintext t \<and> nt_tlsCommittedPlaintext t = 0"
      unfolding tk using advance_ok [OF l nl] nl by simp
  qed (use ssl in simp_all)
  ultimately show ?thesis by simp
qed

lemma tls_going:
  assumes n: "\<not> nt_closing t" and q: "nt_queue t = (k, r) # q" and ssl: "nt_ssl t" 
    and u: "u = t\<lparr>nt_tlsCommittedPlaintext := 0\<rparr>" "n = nt_tlsCommittedPlaintext t" and out: "\<not> hasTLSOutput t"
  shows "going t ((setHead (commitTLS n r) u)\<lparr>nt_pendingBytes := nt_pendingBytes u - min (nt_pendingBytes u) n\<rparr>)"
proof -
  have "(setHead (commitTLS n r) u)\<lparr>nt_pendingBytes := nt_pendingBytes u - min (nt_pendingBytes u) n\<rparr> =
      sentState (nt_io t) k (commitTLS n r) n 0 [] t"
    using q unfolding u by (cases t) (simp add: sentState_def setHead_def)
  moreover have "going t (sentState (nt_io t) k (commitTLS n r) n 0 [] t)"
  proof (rule sentState_going [OF n q order_refl, where bs = "[]"])
    assume "sound t"
    with q have "live r" by (simp add: soundWith_def queue_ok_def)
    then show "live (commitTLS n r) \<and> remaining r = [] @ remaining (commitTLS n r) \<and> wr_bytes (commitTLS n r) = wr_bytes r \<and>
      wr_sent (commitTLS n r) = wr_sent r + n \<and> wr_callback (commitTLS n r) = wr_callback r \<and>
      wr_deferred (commitTLS n r) = wr_deferred r \<and> n = length [] + nt_tlsCommittedPlaintext t \<and> (0::nat) = 0"
      using u(2) by simp
  qed (simp_all add: out)
  ultimately show ?thesis by simp
qed


context reentrant
begin

lemma takeCommitted_ok:
  assumes n: "\<not> nt_closing t" and ssl: "nt_ssl t" and r: "takeCommitted E U t = (res, t')"
  obtains (refused) e where "res = IoError e" "follows t t'" "nt_closing t'"
  | (waiting) "res = Wrote 0" "open_follows t t'"
  | (handed) u where "res = Wrote (nt_tlsCommittedPlaintext u)" "open_follows t u" "t' = u\<lparr>nt_tlsCommittedPlaintext := 0\<rparr>"
      "\<not> hasTLSOutput u"
proof -
  obtain ok u where u: "flushMemoryBIOOutput E U t = (ok, u)" by (cases "flushMemoryBIOOutput E U t")
  note f = flushMemoryBIOOutput_ok [OF n ssl u]
  show ?thesis
  proof (cases ok)
    case True
    then have o: "open_follows t u" using f by (simp add: flushed_def)
    show ?thesis
    proof (cases "hasTLSOutput u")
      case True
      with \<open>ok\<close> o r u waiting show ?thesis by (simp add: takeCommitted_def)
    next
      case False
      show ?thesis by (rule handed [OF _ o]) (use \<open>ok\<close> r u False in \<open>simp_all add: takeCommitted_def\<close>)
    qed
  next
    case False
    show ?thesis by (rule refused [of 0]) (use f r u False in \<open>simp_all add: takeCommitted_def flushed_def\<close>)
  qed
qed

lemma writeTLS_cases:
  assumes n: "\<not> nt_closing t" and q: "nt_queue t \<noteq> []" and ssl: "nt_ssl t" and r: "writeTLS E U t = (res, t')"
  obtains (error) e where "res = IoError e" "follows t t'"
  | (none) "res = Wrote 0" "going t t'"
  | (sent) u where "res = Wrote (nt_tlsCommittedPlaintext u)" "going t u" "t' = u\<lparr>nt_tlsCommittedPlaintext := 0\<rparr>"
      "\<not> hasTLSOutput u"
proof -
  have committed: thesis if "going t v" "nt_ssl v" "takeCommitted E U v = (res, t')" for v
  proof -
    note v = going_queue [OF that(1)]
    note g = going_trans [OF that(1) open_going]
    from v have "\<not> nt_closing v" by simp
    from this that(2,3) show thesis
    proof (cases rule: takeCommitted_ok)
      case (refused e)
      have "follows t v" using that(1) by (simp add: going_def)
      with refused error show thesis by (auto intro: follows_trans)
    next
      case waiting
      with g v none show thesis by simp
    next
      case (handed u)
      with g v sent show thesis by simp
    qed
  qed
  show thesis
  proof (cases "nt_tlsCommittedPlaintext t = 0")
    case False
    have "going t t" using open_going [OF q n] by simp
    with committed ssl r False show thesis by (simp add: writeTLS_def)
  next
    case True
    obtain ok u where u: "stageLoop TLS_PLAINTEXT_BATCH_SIZE t = (ok, u)" by (cases "stageLoop TLS_PLAINTEXT_BATCH_SIZE t")
    have g: "going t u" by (rule stageLoop_ok [OF n q ssl u])
    then have us: "nt_ssl u" "\<not> nt_closing u" "nt_queue u \<noteq> []" using ssl by (auto simp: going_def follows_def static_def)
    show thesis
    proof (cases "ok \<and> nt_tlsCommittedPlaintext u = 0")
      case True
      obtain ok' v where v: "flushMemoryBIOOutput E U u = (ok', v)" by (cases "flushMemoryBIOOutput E U u")
      have f: "flushed ok' u v" by (rule flushMemoryBIOOutput_ok [OF us(2,1) v])
      show thesis
      proof (cases ok')
        case True
        with f have "going t v" using going_trans [OF g open_going [OF us(3,2)]] by (simp add: flushed_def)
        with none r v u True \<open>ok \<and> _\<close> \<open>nt_tlsCommittedPlaintext t = 0\<close> show thesis by (simp add: writeTLS_def)
      next
        case False
        with f g have "follows t v" by (auto simp: flushed_def going_def intro: follows_trans)
        with r v u False \<open>ok \<and> _\<close> \<open>nt_tlsCommittedPlaintext t = 0\<close> show thesis
          by (intro error [of 0]) (simp_all add: writeTLS_def)
      qed
    next
      case no: False
      show thesis
      proof (cases ok)
        case True
        with no committed [OF g us(1)] r u \<open>nt_tlsCommittedPlaintext t = 0\<close> show thesis by (simp add: writeTLS_def)
      next
        case False
        have "follows t u" using g by (simp add: going_def)
        with r u False \<open>nt_tlsCommittedPlaintext t = 0\<close> show thesis
          by (intro error [of EIO]) (simp_all add: writeTLS_def)
      qed
    qed
  qed
qed


lemma completeHead_ok:
  assumes n: "\<not> nt_closing t" and q: "nt_queue t = (k, r) # q" and z: "wr_remainingBytes r = 0"
    and c: "sound t \<Longrightarrow> nt_tlsCommittedPlaintext t = 0"
  shows "follows t (completeHeadWrite U st t)" 
    "\<not> wr_deferred r \<Longrightarrow> \<not> nt_closing (completeHeadWrite U st t) \<and> nt_queue (completeHeadWrite U st t) = q"
proof -
  let ?u = "withoutHead t"
  have u: "?u = t\<lparr>nt_queue := tl (nt_queue t)\<rparr>" using q z by (cases t) (simp add: withoutHead_def)
  have e: "completeHeadWrite U st t = (if wr_deferred r then invokeWriteCallback U r st ?u else ?u)"
    using q by (simp add: completeHeadWrite_def dequeueWrite_def u)
  {
    assume s: "sound t"
    have "wr_bytes r = wr_sent r + nt_tlsCommittedPlaintext t + length (remaining r)"
      using s n q by (simp add: soundWith_def bytes_ok_def counted_def)
    with z c [OF s] have "remaining r = []" by (simp add: wr_remainingBytes_def)
    with withoutHead_sound [OF s q, of st] c [OF s]
    have w: "soundWith 0 (if nt_environmentCleaning t then ?u else answered st r ?u)" by simp
    have "soundWith 0 (answered st r ?u)"
    proof (cases "nt_environmentCleaning t")
      case True
      with w show ?thesis by (simp add: answered_def soundWith_def calls_ok_def split: list.split)
    qed (use w in simp)
    with c [OF s] have "sound (answered st r ?u)" by simp
  }
  moreover have "bounded (answered st r ?u)" if "bounded t"
    using that n by (simp add: bounded_def backpressureExceeded_def u answered_def split: list.split)
  ultimately have "keeps t (answered st r ?u)" using n by (simp add: keeps_def quiet_def)
  then have f: "follows t (answered st r ?u)" using n by (simp add: follows_def frozen_def lives_def static_def)
  have "completeHeadWrite U st t = (case callbacksOf r of [] \<Rightarrow> ?u | f # fs \<Rightarrow> snd (up_js U (WriteCallback f st) (answered st r ?u)))"
    unfolding e invoke_answered(3) ..
  with f follows_trans [OF f js_follows] show "follows t (completeHeadWrite U st t)"
    by (cases "callbacksOf r") (simp_all add: answered_def)
  show "\<not> nt_closing (completeHeadWrite U st t) \<and> nt_queue (completeHeadWrite U st t) = q" if "\<not> wr_deferred r"
    using that n q by (simp add: e)
qed

lemma round_cases:
  assumes n: "\<not> nt_closing t" and q: "nt_queue t \<noteq> []"
    and r: "(if nt_ssl t then writeTLS E U t else writeTCP E (snd (hd (nt_queue t))) t) = (res, u)"
  obtains (error) e where "res = IoError e" "follows t u"
  | (blocked) "res = WouldBlock \<or> res = Wrote 0" "going t u"
  | (sent) n r v where "res = Wrote n" "n \<noteq> 0" "going t v"
      "r = (if nt_ssl u then commitTLS n (snd (hd (nt_queue u))) else advance n (snd (hd (nt_queue u))))"
      "v = (setHead r u)\<lparr>nt_pendingBytes := nt_pendingBytes u - min (nt_pendingBytes u) n\<rparr>"
      "snd (hd (nt_queue v)) = r" "sound v \<Longrightarrow> nt_tlsCommittedPlaintext v = 0"
proof (cases "nt_ssl t")
  case True
  with r have "writeTLS E U t = (res, u)" by simp
  from n q True this show thesis
  proof (cases rule: writeTLS_cases)
    case (error e)
    with that(1) show thesis by simp
  next
    case none
    with blocked show thesis by simp
  next
    case (sent w)
    have w: "nt_queue w \<noteq> []" "\<not> nt_closing w" "nt_ssl w" using sent(2) True by (auto simp: going_def follows_def static_def)
    obtain k x rest where x: "nt_queue w = (k, x) # rest" using w(1) by (cases "nt_queue w") auto
    note g = going_trans [OF sent(2) tls_going [OF w(2) x w(3) sent(3) refl sent(4)]]
    show thesis
    proof (cases "nt_tlsCommittedPlaintext w = 0")
      case True
      then have "u = w" unfolding sent(3) by (cases w) simp
      with True sent(1,2) blocked show thesis by simp
    next
      case False
      have u: "nt_ssl u" "snd (hd (nt_queue u)) = x" using w(3) x sent(3) by simp_all
      show thesis
        by (rule that(3) [OF sent(1) False g, of "commitTLS (nt_tlsCommittedPlaintext w) x"]) (simp_all add: u, simp_all add: setHead_def sent(3))
    qed
  qed
next
  case False
  obtain k x rest where x: "nt_queue t = (k, x) # rest" using q by (cases "nt_queue t") auto
  have w: "writeTCP E x t = (res, u)" using r False x by simp
  obtain io where u: "length io \<le> length (nt_io t)"
    "u = (case res of Wrote n \<Rightarrow> happen (Sent (take n (concat (remainingIovecs (maximumIOVectors E) x)))) (t\<lparr>nt_io := io\<rparr>)
       | IoError e \<Rightarrow> happen Broken (t\<lparr>nt_io := io\<rparr>) | WouldBlock \<Rightarrow> t\<lparr>nt_io := io\<rparr>)"
    using sendRaw_fields [OF w [unfolded writeTCP_def]] by blast
  have io: "open_follows t (t\<lparr>nt_io := io\<rparr>)" using follows_io [OF u(1)] n by (simp add: open_follows_def)
  show thesis
  proof (cases res)
    case (Wrote m)
    note g = tcp_going [OF n x False w [unfolded Wrote]]
    have uf: "\<not> nt_ssl u" "snd (hd (nt_queue u)) = x" "nt_tlsCommittedPlaintext u = nt_tlsCommittedPlaintext t"
      using False x u(2) Wrote by simp_all
    show thesis
    proof (cases "m = 0")
      case True
      have "going t u"
      proof -
        let ?t = "t\<lparr>nt_io := io\<rparr>"
        have "follows ?t (happen (Sent []) ?t)"
          using False n by (simp add: follows_def keeps_def frozen_def lives_def static_def soundWith_def cipher_ok_def)
        with io have "follows t (happen (Sent []) ?t)" by (auto simp: open_follows_def intro: follows_trans)
        then show ?thesis using x n u(2) Wrote True by (simp add: going_def)
      qed
      with True Wrote blocked show thesis by simp
    next
      case False
      show thesis
        by (rule that(3) [OF Wrote False g, of "advance m x"]) (use uf in \<open>simp_all add: setHead_def soundWith_def flags_ok_def\<close>)
    qed
  next
    case WouldBlock
    with blocked open_going [OF q n io] u(2) show thesis by simp
  next
    case (IoError e)
    have "follows t u"
    proof -
      have "follows (t\<lparr>nt_io := io\<rparr>) (happen Broken (t\<lparr>nt_io := io\<rparr>))" using False n
        by (simp add: follows_def keeps_def frozen_def lives_def static_def soundWith_def cipher_ok_def)
      with io u(2) IoError show ?thesis by (auto simp: open_follows_def intro: follows_trans)
    qed
    with IoError that(1) show thesis by simp
  qed
qed


lemma flushLoop_step:
  assumes "nt_queue t \<noteq> []" "\<not> nt_closing t" "n \<noteq> 0"
    and "(if nt_ssl t then writeTLS E U t else writeTCP E (snd (hd (nt_queue t))) t) = (Wrote n, u)"
    and "r = (if nt_ssl u then commitTLS n (snd (hd (nt_queue u))) else advance n (snd (hd (nt_queue u))))"
    and "v = (setHead r u)\<lparr>nt_pendingBytes := nt_pendingBytes u - min (nt_pendingBytes u) n\<rparr>"
  shows "flushLoop E U (Suc fuel) t = flushLoop E U fuel (if wr_remainingBytes r = 0 then completeHeadWrite U UV_OK v else v)"
  unfolding flushLoop.simps Let_def assms(4) prod.case ioResult.case assms(5) [symmetric] assms(6) [symmetric]
  using assms(1-3) by simp

lemma flushLoop_follows: "flushLoop E U fuel t = (error, t') \<Longrightarrow> follows t t'"
proof (induction fuel arbitrary: t)
  case (Suc fuel)
  show ?case
  proof (cases "nt_queue t = [] \<or> nt_closing t")
    case True
    with Suc.prems show ?thesis by auto
  next
    case False
    obtain res u where r: "(if nt_ssl t then writeTLS E U t else writeTCP E (snd (hd (nt_queue t))) t) = (res, u)" by (cases rule: prod.exhaust)
    from False have "\<not> nt_closing t" "nt_queue t \<noteq> []" by simp_all
    from this r show ?thesis
    proof (cases rule: round_cases)
      case (error e)
      with Suc.prems False r show ?thesis by simp
    next
      case blocked
      with Suc.prems False r show ?thesis by (auto simp: going_def)
    next
      case (sent n x v)
      let ?w = "if wr_remainingBytes x = 0 then completeHeadWrite U UV_OK v else v"
      have l: "flushLoop E U fuel ?w = (error, t')"
        using Suc.prems flushLoop_step [OF _ _ sent(2) r [unfolded sent(1)] sent(4,5)] False by simp
      have v: "\<not> nt_closing v" "nt_queue v = (fst (hd (nt_queue v)), x) # tl (nt_queue v)"
        using going_queue [OF sent(3)] sent(6) by (cases "nt_queue v"; force)+
      have "follows v ?w" using completeHead_ok(1) [OF v _ sent(7)] by simp
      with sent(3) Suc.IH [OF l] show ?thesis by (auto simp: going_def intro: follows_trans)
    qed
  qed
qed simp

text \<open>A request that was not deferred is alone in the queue, and calls nothing when it is done.\<close>

lemma flushLoop_single:
  "flushLoop E U fuel t = (None, t') \<Longrightarrow> sound t \<Longrightarrow> \<not> nt_closing t \<Longrightarrow> nt_queue t = [(k, r)] \<Longrightarrow> \<not> wr_deferred r \<Longrightarrow>
   \<not> nt_closing t' \<and> (nt_queue t' = [] \<or> (\<exists>r'. nt_queue t' = [(k, r')] \<and> \<not> wr_deferred r'))"
proof (induction fuel arbitrary: t r)
  case (Suc fuel)
  obtain res u where r: "(if nt_ssl t then writeTLS E U t else writeTCP E (snd (hd (nt_queue t))) t) = (res, u)" by (cases rule: prod.exhaust)
  have q: "nt_queue t \<noteq> []" using Suc.prems(4) by simp
  from Suc.prems(3) q r show ?case
  proof (cases rule: round_cases)
    case (error e)
    with Suc.prems r show ?thesis by simp
  next
    case blocked
    with Suc.prems q r have "t' = u" by auto
    with blocked(2) Suc.prems show ?thesis by (auto simp: going_def)
  next
    case (sent n x v)
    have v: "\<not> nt_closing v" "nt_queue v = [(k, x)]" "\<not> wr_deferred x" "sound v"
      using sent(3,6) Suc.prems by (auto simp: going_def follows_def keeps_def)
    have l: "flushLoop E U fuel (if wr_remainingBytes x = 0 then completeHeadWrite U UV_OK v else v) = (None, t')"
      using Suc.prems(1) flushLoop_step [OF q Suc.prems(3) sent(2) r [unfolded sent(1)] sent(4,5)] by simp
    show ?thesis
    proof (cases "wr_remainingBytes x = 0")
      case True
      with completeHead_ok(2) [OF v(1,2) True sent(7) v(3)] l show ?thesis by (cases fuel) auto
    next
      case False
      with l Suc.IH v show ?thesis by simp
    qed
  qed
qed auto

end

section \<open>Flushing\<close>

lemma follows_static: "follows t u \<Longrightarrow> nt_active t \<Longrightarrow> nt_active u" "follows t u \<Longrightarrow> nt_ssl u = nt_ssl t"
  "follows t u \<Longrightarrow> nt_closing t \<Longrightarrow> nt_closing u" "follows t u \<Longrightarrow> sound t \<Longrightarrow> sound u"
  by (simp_all add: follows_def static_def frozen_def keeps_def)

lemma empty_bounded: "sound t \<Longrightarrow> nt_queue t = [] \<Longrightarrow> bounded t"
  by (simp add: soundWith_def queue_ok_def bounded_def backpressureExceeded_def)

context reentrant
begin

text \<open>What \<open>flushWrites\<close> does after its loop.\<close>

lemma flushWrites_cases:
  obtains (same) "flushWrites E U t = t"
  | (closed) "follows t (flushWrites E U t)" "nt_closing (flushWrites E U t)"
  | (waiting) "open_follows t (flushWrites E U t)" "\<not> nt_closing t"
  | (loop) u error v where "open_follows t u" "nt_active u" "\<not> nt_closing t" 
      "flushLoop E U (flushFuel u) (u\<lparr>nt_flushingWrites := True\<rparr>) = (error, v)"
      "flushWrites E U t = (case error of
         Some e \<Rightarrow> nt_fail U (uv_strerror E (if e = 0 then UV_EIO else UV_ERRNO e)) (v\<lparr>nt_flushingWrites := False\<rparr>)
       | None \<Rightarrow> if nt_queue v = [] then up_finish U (v\<lparr>nt_flushingWrites := False\<rparr>) else v\<lparr>nt_flushingWrites := False\<rparr>)"
proof (cases "nt_flushingWrites t \<or> nt_closing t \<or> \<not> nt_active t")
  case True
  with same show thesis by (simp add: flushWrites_def)
next
  case False
  obtain ok u where u: "(if nt_ssl t then flushMemoryBIOOutput E U t else (True, t)) = (ok, u)" by (cases rule: prod.exhaust)
  have f: "flushed ok t u" using flushMemoryBIOOutput_ok [of t E ok u] u False by (auto simp: flushed_def split: if_splits)
  show thesis
  proof (cases "\<not> ok \<or> nt_ssl u \<and> hasTLSOutput u")
    case True
    have "flushWrites E U t = u" using False True u by (simp add: flushWrites_def)
    with f False closed waiting show thesis by (cases ok) (auto simp: flushed_def)
  next
    case no: False
    then have o: "open_follows t u" using f by (simp add: flushed_def)
    obtain error v where l: "flushLoop E U (flushFuel u) (u\<lparr>nt_flushingWrites := True\<rparr>) = (error, v)" by (cases rule: prod.exhaust)
    have a: "nt_active u" using o False by (auto simp: open_follows_def intro: follows_static(1))
    show thesis
    proof (rule loop [OF o a _ l])
      have "\<not> (nt_flushingWrites t \<or> nt_closing t \<or> \<not> nt_active t)" using False by simp
      then show "flushWrites E U t = (case error of
         Some e \<Rightarrow> nt_fail U (uv_strerror E (if e = 0 then UV_EIO else UV_ERRNO e)) (v\<lparr>nt_flushingWrites := False\<rparr>)
       | None \<Rightarrow> if nt_queue v = [] then up_finish U (v\<lparr>nt_flushingWrites := False\<rparr>) else v\<lparr>nt_flushingWrites := False\<rparr>)"
        using no unfolding flushWrites_def Let_def u prod.case l by (simp only: if_False) simp
    qed (use False in simp)
  qed
qed

lemma flushWrites_follows: "follows t (flushWrites E U t)"
proof (cases rule: flushWrites_cases [of E t])
  case (loop u error v)
  have "follows t (u\<lparr>nt_flushingWrites := True\<rparr>)" using loop(1) by (auto simp: open_follows_def intro: follows_trans)
  also have "follows \<dots> v" by (rule flushLoop_follows [OF loop(4)])
  also have "follows v (v\<lparr>nt_flushingWrites := False\<rparr>)" by simp
  finally have f: "follows t (v\<lparr>nt_flushingWrites := False\<rparr>)" .
  have "follows (u\<lparr>nt_flushingWrites := True\<rparr>) v" by (rule flushLoop_follows [OF loop(4)])
  then have "nt_active (v\<lparr>nt_flushingWrites := False\<rparr>)" using loop(2) by (simp add: follows_def static_def)
  from f nt_fail_ok(1) finish_follows [OF this] show ?thesis
    unfolding loop(5) by (auto split: option.split intro: follows_trans)
qed (simp_all add: open_follows_def)

lemma flushWrites_single:
  assumes "sound t" "\<not> nt_closing t" "nt_queue t = [(k, r)]" "\<not> wr_deferred r"
    and "\<not> nt_closing (flushWrites E U t)" "k \<notin> fst ` set (nt_queue (flushWrites E U t))"
  shows "bounded (flushWrites E U t)"
proof (cases rule: flushWrites_cases [of E t])
  case same
  with assms(3,6) show ?thesis by simp
next
  case waiting
  then have "nt_queue (flushWrites E U t) = nt_queue t" by (simp add: open_follows_def)
  with assms(3,6) show ?thesis by simp
next
  case (loop u error v)
  let ?u = "u\<lparr>nt_flushingWrites := True\<rparr>"
  let ?v = "v\<lparr>nt_flushingWrites := False\<rparr>"
  have "follows t u" "nt_queue u = [(k, r)]" "\<not> nt_closing u" using loop(1) assms by (simp_all add: open_follows_def)
  then have u: "sound ?u" "nt_queue ?u = [(k, r)]" "\<not> nt_closing ?u"
    using assms(1) follows_fields(6) [of u True] by (simp_all add: follows_def keeps_def)
  have f: "follows ?u v" by (rule flushLoop_follows [OF loop(4)])
  then have sv: "sound v" using u by (simp add: follows_def keeps_def)
  then have sv': "sound ?v" using follows_fields(6) [of v False] by (simp add: follows_def keeps_def)
  show ?thesis
  proof (cases error)
    case None
    from flushLoop_single [OF loop(4) [unfolded None] u(1,3,2) assms(4)] show ?thesis
    proof (elim conjE disjE exE)
      assume e: "nt_queue v = []"
      have "nt_active ?v" using f loop(2) by (simp add: follows_def static_def)
      from finish_follows [OF this] sv' empty_bounded [of ?v] e None show ?thesis
        unfolding loop(5) by (simp add: follows_def keeps_def)
    next
      fix r' assume "nt_queue v = [(k, r')]"
      with None assms(6) show ?thesis unfolding loop(5) by simp
    qed
  next
    case (Some e)
    with assms(5) nt_fail_ok(2) show ?thesis unfolding loop(5) by simp
  qed
qed (use assms in simp)

lemma updatePoll_follows: "follows t (updatePoll E U t)"
proof -
  obtain a u where u: "nextAnswer t = (a, u)" by (cases "nextAnswer t")
  have "follows u (u\<lparr>nt_pollEvents := x\<rparr>)" for x by simp
  with nextAnswer_follows [OF u] nt_fail_ok(1) show ?thesis
    by (auto simp: updatePoll_def Let_def u split: answer.split intro: follows_trans)
qed

end

section \<open>Submitting\<close>

definition promised :: "WriteRequest \<Rightarrow> nat list" where
  "promised r = (if wr_deferred r then [] else case wr_callbackValue r of None \<Rightarrow> [] | Some f \<Rightarrow> [f])"

lemma promise_eq: "promise r t = (case promised r of [] \<Rightarrow> t | f # fs \<Rightarrow> happen (Promised f) t)"
  by (simp add: promise_def promised_def split: option.split)

lemma promise_fields [simp]:
  "nt_queue (promise r t) = nt_queue t" "nt_fresh (promise r t) = nt_fresh t" "nt_pendingBytes (promise r t) = nt_pendingBytes t"
  "nt_closing (promise r t) = nt_closing t" "nt_ssl (promise r t) = nt_ssl t" "flags_ok (promise r t) = flags_ok t"
  "cipher_ok (promise r t) = cipher_ok t" "nt_tlsCommittedPlaintext (promise r t) = nt_tlsCommittedPlaintext t"
  "undeleted (promise r t) = undeleted t" "nt_pollClosed (promise r t) = nt_pollClosed t"
  "nt_insideCloseCallback (promise r t) = nt_insideCloseCallback t" "nt_io (promise r t) = nt_io t" "nt_active (promise r t) = nt_active t"
  "nt_pollInitialized (promise r t) = nt_pollInitialized t" "nt_destroyRequested (promise r t) = nt_destroyRequested t"
  "nt_deleted (promise r t) = nt_deleted t"
  "nt_maxBackpressure (promise r t) = nt_maxBackpressure t" "nt_environmentCleaning (promise r t) = nt_environmentCleaning t"
  "logged promisedBy (promise r t) = logged promisedBy t @ promised r" "logged answeredBy (promise r t) = logged answeredBy t"
  "logged submittedBy (promise r t) = logged submittedBy t" "logged (passedBy ssl) (promise r t) = logged (passedBy ssl) t"
  "nt_flushingWrites (promise r t) = nt_flushingWrites t" "nt_history (promise r t) = nt_history t @ map Promised (promised r)"
  by (auto simp: promise_eq promised_def split: option.split)

lemma callbacks_defer:
  assumes "live r" "\<not> wr_deferred r \<longrightarrow> wr_callback r = None"
  shows "callbacksOf (snd (wr_defer True r)) = callbacksOf r @ promised r"
  using wr_defer_ok [OF assms(1)] assms(2) by (auto simp: callbacksOf_def promised_def split: option.splits)

lemma concat_nils [simp]: "concat (map (\<lambda>x. []) xs) = []"
  by (induction xs) simp_all

lemma deferQueued_follows:
  assumes n: "\<not> nt_closing t"
  shows "follows t (deferQueued k t)" "\<not> nt_closing (deferQueued k t)" "nt_pendingBytes (deferQueued k t) = nt_pendingBytes t"
proof -
  show n': "\<not> nt_closing (deferQueued k t)" "nt_pendingBytes (deferQueued k t) = nt_pendingBytes t"
    using n by (simp_all add: deferQueued_def split: option.split)
  show "follows t (deferQueued k t)"
  proof (cases "map_of (nt_queue t) k")
    case None
    then show ?thesis by (simp add: deferQueued_def)
  next
    case (Some r)
    let ?f = "\<lambda>(j, x). (j, if j = k then snd (wr_defer True x) else x)"
    let ?t = "t\<lparr>nt_queue := map ?f (nt_queue t)\<rparr>"
    have e: "deferQueued k t = promise r ?t" using Some by (simp add: deferQueued_def)
    have keys: "map fst (map ?f xs) = map fst xs" for xs by (induction xs) auto
    {
      assume s: "sound t"
      note q = s [unfolded soundWith_def queue_ok_def bytes_ok_def calls_ok_def]
      have "(k, r) \<in> set (nt_queue t)" using Some by (rule map_of_SomeD)
      then obtain a b where ab: "nt_queue t = a @ (k, r) # b" by (auto dest: split_list)
      have d: "k \<notin> fst ` set a" "k \<notin> fst ` set b" using q ab by auto
      then have "map ?f a = a" "map ?f b = b" by (induction a, auto, induction b, auto)
      moreover define u where "u = t\<lparr>nt_queue := a @ (k, snd (wr_defer True r)) # b\<rparr>"
      ultimately have u: "deferQueued k t = promise r u" unfolding e by (simp add: ab)
      have r: "live r" "\<not> wr_deferred r \<longrightarrow> wr_callback r = None" using q ab by auto
      note dr = wr_defer_ok [OF r(1)]
      have f: "nt_history u = nt_history t" "nt_queue u = a @ (k, snd (wr_defer True r)) # b" "nt_closing u = nt_closing t"
        "nt_ssl u = nt_ssl t" "nt_tlsCommittedPlaintext u = nt_tlsCommittedPlaintext t" "nt_fresh u = nt_fresh t"
        "nt_pendingBytes u = nt_pendingBytes t" "nt_environmentCleaning u = nt_environmentCleaning t"
        by (simp_all add: u_def)
      note l = logged_eq [OF f(1)]
      have "gone_ok (deferQueued k t)"
      proof -
        have "gone_ok t" using s by (simp add: soundWith_def)
        then show ?thesis unfolding u
          by (rule gone_mono [where hs = "map Promised (promised r)"]) (simp_all add: f comp_def)
      qed
      moreover have "queue_ok u" using q dr ab unfolding queue_ok_def f by (auto simp: wr_remainingBytes_def)
      moreover have "bytes_ok c u = bytes_ok c t" for c
        unfolding bytes_ok_def l f ab using dr by (cases a) (auto simp: counted_def)
      moreover have "cipher_ok u" using s by (simp add: soundWith_def cipher_ok_def l) (simp add: u_def)
      moreover have "flags_ok u" using s ab by (auto simp: soundWith_def flags_ok_def u_def)
      moreover have "calls_ok (promise r u)"
        using q ab callbacks_defer [OF r] unfolding calls_ok_def by (simp add: l f)
      moreover have "bytes_ok c (promise r u) = bytes_ok c u" "queue_ok (promise r u) = queue_ok u" for c
        by (simp_all add: bytes_ok_def queue_ok_def)
      ultimately have "sound (deferQueued k t)" using s unfolding u soundWith_def by (simp add: f(5))
    }
    moreover have "lives t (deferQueued k t)" "static t (deferQueued k t)" unfolding e lives_def static_def by simp_all (simp add: undeleted_def)
    moreover have "bounded t \<Longrightarrow> bounded (deferQueued k t)" unfolding e bounded_def backpressureExceeded_def by simp
    ultimately show ?thesis using n n' by (simp add: follows_def keeps_def frozen_def quiet_def)
  qed
qed

definition fresh_request :: "WriteRequest \<Rightarrow> bool" where
  "fresh_request r \<longleftrightarrow> live r \<and> wr_bytes r = length (remaining r) \<and> wr_sent r = 0 \<and> \<not> wr_deferred r \<and> wr_callback r = None"

lemma queued_fields [simp]:
  "nt_queue (queued b r t) = nt_queue t @ [(nt_fresh t, if b then snd (wr_defer True r) else r)]"
  "nt_closing (queued b r t) = nt_closing t" "nt_ssl (queued b r t) = nt_ssl t" "nt_active (queued b r t) = nt_active t"
  "nt_tlsCommittedPlaintext (queued b r t) = nt_tlsCommittedPlaintext t" "nt_io (queued b r t) = nt_io t"
  "nt_maxBackpressure (queued b r t) = nt_maxBackpressure t" "nt_environmentCleaning (queued b r t) = nt_environmentCleaning t"
  "undeleted (queued b r t) = undeleted t" "nt_pollClosed (queued b r t) = nt_pollClosed t"
  "nt_insideCloseCallback (queued b r t) = nt_insideCloseCallback t" "nt_pollInitialized (queued b r t) = nt_pollInitialized t"
  "nt_destroyRequested (queued b r t) = nt_destroyRequested t" "nt_deleted (queued b r t) = nt_deleted t" "nt_fresh (queued b r t) = Suc (nt_fresh t)"
proof -
  show "undeleted (queued b r t) = undeleted t"
    by (auto simp: queued_def Let_def enqueueWrite_def undeleted_def promise_eq split: list.split)
qed (simp_all add: queued_def Let_def enqueueWrite_def)

lemma queued_history: "nt_history (queued b r t) = nt_history t @ Submitted (remaining r) # (if b then map Promised (promised r) else [])"
  by (auto simp: queued_def Let_def enqueueWrite_def promise_eq promised_def split: option.split)

lemma queued_log:
  "logged what (queued b r t) = logged what t @ what (Submitted (remaining r)) @ (if b then concat (map (what \<circ> Promised) (promised r)) else [])"
proof -
  have e: "logged what (enqueueWrite x (u\<lparr>nt_pendingBytes := n\<rparr>)) = logged what u" for x n u by (simp add: enqueueWrite_def logged_def)
  have p: "logged what (promise r u) = logged what u @ concat (map (what \<circ> Promised) (promised r))" for u
    by (auto simp: promise_eq promised_def split: option.split)
  have f: "logged what (t\<lparr>nt_fresh := n\<rparr>) = logged what t" for n by (simp add: logged_def)
  show ?thesis by (simp add: queued_def Let_def e p f)
qed

lemma queued_sound:
  assumes s: "sound t" and n: "\<not> nt_closing t" "nt_active t" and r: "fresh_request r" and b: "b \<or> nt_queue t = []"
  shows "sound (queued b r t)"
proof -
  let ?u = "queued b r t" and ?r = "if b then snd (wr_defer True r) else r"
  note q = s [unfolded soundWith_def queue_ok_def bytes_ok_def calls_ok_def]
  have l: "live r" using r by (simp add: fresh_request_def)
  note d = wr_defer_ok [OF l]
  have r': "live ?r" "remaining ?r = remaining r" "wr_bytes ?r = wr_bytes r" "wr_sent ?r = wr_sent r" 
    "\<not> wr_deferred ?r \<longrightarrow> wr_callback ?r = None"
    using d l r by (simp_all add: fresh_request_def)
  have p: "nt_pendingBytes ?u = nt_pendingBytes t + wr_bytes r" using d(4) by (simp add: queued_def Let_def enqueueWrite_def)
  have "wr_remainingBytes ?r = wr_bytes r" using r r' by (simp add: wr_remainingBytes_def fresh_request_def)
  then have "queue_ok ?u" using q r'(1,5) p unfolding queue_ok_def by auto
  moreover have "bytes_ok (nt_tlsCommittedPlaintext t) ?u"
  proof -
    have "counted (nt_tlsCommittedPlaintext t) (requests t)" "wr_bytes ?r = wr_sent ?r + length (remaining ?r)"
      using q n r r' by (simp_all add: fresh_request_def)
    then have "counted (nt_tlsCommittedPlaintext t) (requests ?u)"
      unfolding counted_def by (cases "nt_queue t") auto
    moreover have "logged submittedBy ?u = logged (passedBy (nt_ssl ?u)) ?u @ concat (map remaining (requests ?u))"
      using q n r'(2) by (simp add: queued_log comp_def)
    ultimately show ?thesis using n by (simp add: bytes_ok_def)
  qed
  moreover have "cipher_ok ?u"
  proof -
    have "Broken \<in> set (nt_history ?u) \<longleftrightarrow> Broken \<in> set (nt_history t)"
      "nt_tlsCiphertext ?u = nt_tlsCiphertext t" "nt_tlsCiphertextOffset ?u = nt_tlsCiphertextOffset t" "nt_writeBIO ?u = nt_writeBIO t"
      by (auto simp: queued_def Let_def enqueueWrite_def promise_eq split: list.split)
    with s show ?thesis by (simp add: soundWith_def cipher_ok_def queued_log comp_def)
  qed
  moreover have "gone_ok ?u"
  proof -
    have "gone_ok t" using s by (simp add: soundWith_def)
    then show ?thesis
      by (rule gone_mono [where hs = "Submitted (remaining r) # (if b then map Promised (promised r) else [])"])
        (use r p n in \<open>auto simp: queued_history fresh_request_def comp_def\<close>)
  qed
  moreover have "calls_ok ?u"
  proof -
    have "callbacksOf ?r = (if b then promised r else [])"
    proof -
      have "callbacksOf r = []" "wr_callback r = None" using r by (simp_all add: fresh_request_def callbacksOf_def)
      with callbacks_defer [OF l] show ?thesis by simp
    qed
    then show ?thesis using q by (simp add: calls_ok_def queued_log comp_def)
  qed
  moreover have "flags_ok ?u"
    using s n by (auto simp: soundWith_def flags_ok_def queued_def Let_def enqueueWrite_def promise_eq split: list.split)
  ultimately show ?thesis by (simp add: soundWith_def)
qed

lemma joinParts_ok:
  assumes "prepared r" "1 < wr_partCount r \<longrightarrow> separate r"
  shows "\<exists>r'. joinParts r = Some (True, r') \<and> prepared r' \<and> same_callback r r'"
  using flatten_ok [OF assms] coalescePrefix_ok [OF assms, of TLS_COALESCE_PREFIX] by (auto simp: joinParts_def)

context reentrant
begin

lemma submit_cases:
  assumes "submittable request"
  obtains (refused) st where "submit E U request t = (st, t)"
  | (queues) r where "fresh_request r" "\<not> nt_closing t"
      "submit E U request t = (let number = nt_fresh t;
           alreadyQueued = nt_queue t \<noteq> [] \<or> nt_flushingWrites t;
           t = queued alreadyQueued r t
         in if alreadyQueued
            then (WRITE_ASYNCHRONOUS,
                  if backpressureExceeded t then terminateForBackpressure U t else updatePoll E U t)
            else let t = flushWrites E U t
            in if nt_closing t then (UV_EIO, t)
            else if number \<in> fst ` set (nt_queue t)
            then let t = deferQueued number t;
                     t = (if backpressureExceeded t then terminateForBackpressure U t else t)
                 in (WRITE_ASYNCHRONOUS, if nt_closing t then t else updatePoll E U t)
            else (WRITE_SYNCHRONOUS, t))"
proof -
  obtain ok r0 where r0: "prepare request = (ok, r0)" by (cases "prepare request")
  show thesis
  proof (cases "writable t \<and> ok \<and> wr_bytes r0 \<noteq> 0 \<and> \<not> nt_pendingBytes t > SIZE_MAX - wr_bytes r0")
    case False
    then have "\<exists>st. submit E U request t = (st, t)"
      unfolding submit_def r0 Let_def prod.case by (cases "writable t"; cases ok; cases "wr_bytes r0 = 0") simp_all
    with refused show thesis by blast
  next
    case True
    then have c: "writable t" "ok" "wr_bytes r0 \<noteq> 0" "\<not> nt_pendingBytes t > SIZE_MAX - wr_bytes r0" by simp_all
    note p = submittable_prepare [OF assms r0 [unfolded eqTrueI [OF c(2)]]]
    obtain r where r: "(if nt_ssl t \<and> wr_partCount r0 > 1 then joinParts r0 else Some (True, r0)) = Some (True, r)"
      "prepared r" "same_callback r0 r"
      using joinParts_ok [OF p(1,3)] p(1) by (cases "nt_ssl t \<and> wr_partCount r0 > 1") (auto simp: same_callback_def)
    have f: "fresh_request r" using r(2,3) p(4) assms
      by (simp add: fresh_request_def prepared_def same_callback_def submittable_def)
    have pair: "Let (x, y) (case_prod g) = g x y" for x :: bool and y :: WriteRequest and g :: "bool \<Rightarrow> WriteRequest \<Rightarrow> status \<times> 'z NativeTransport"
      by simp
    have "(\<not> writable t) = False" "(\<not> ok) = False" "(wr_bytes r0 = 0) = False" "(nt_pendingBytes t > SIZE_MAX - wr_bytes r0) = False"
      using c by simp_all
    show thesis
    proof (rule queues [OF f])
      show "\<not> nt_closing t" using c(1) by (simp add: writable_def)
    qed (simp only: submit_def r0 pair \<open>(\<not> writable t) = False\<close> \<open>(\<not> ok) = False\<close> \<open>(wr_bytes r0 = 0) = False\<close>
      \<open>(nt_pendingBytes t > SIZE_MAX - wr_bytes r0) = False\<close> if_False r(1) option.case prod.case bool.case)
  qed
qed

lemma submit_follows:
  assumes req: "submittable request" and a: "nt_active t"
  shows "follows t (snd (submit E U request t))"
  using req
proof (cases rule: submit_cases [where E = E and t = t])
  case (queues r)
  define b where "b = (nt_queue t \<noteq> [] \<or> nt_flushingWrites t)"
  let ?q = "queued b r t"
  have b: "b \<or> nt_queue t = []" unfolding b_def by blast
  note result = queues(3) [folded b_def]
  note s = queued_sound [OF _ queues(2) a queues(1) b]
  text \<open>Being bounded is restored by the check that follows.\<close>
  have into: "follows t v" if "follows ?q v" "sound t \<Longrightarrow> bounded v" for v
  proof -
    have "keeps t v" using that s queues(2) by (auto simp: keeps_def quiet_def follows_def)
    moreover have "prefix (nt_history t) (nt_history v)"
      using that(1) append_prefixD by (simp add: follows_def static_def queued_history) blast
    then have "lives t v" "static t v" using that(1) by (simp_all add: follows_def lives_def static_def)
    ultimately show ?thesis using queues(2) that(1) by (simp add: follows_def frozen_def)
  qed
  have closed: "nt_closing v \<Longrightarrow> bounded v" for v by (simp add: bounded_def)
  have checked: "follows v w \<Longrightarrow> sound v \<Longrightarrow> \<not> backpressureExceeded v \<Longrightarrow> bounded w" for v w
    by (simp add: follows_def keeps_def) (simp add: bounded_def)
  show ?thesis
  proof (cases b)
    case True
    let ?v = "if backpressureExceeded ?q then terminateForBackpressure U ?q else updatePoll E U ?q"
    have "snd (submit E U request t) = ?v" using result True by (simp add: Let_def)
    moreover have "follows t ?v"
      using terminateForBackpressure_ok [of ?q] updatePoll_follows [of ?q E] closed checked [OF updatePoll_follows] s
      by (intro into) auto
    ultimately show ?thesis by simp
  next
    case False
    let ?f = "flushWrites E U ?q"
    have qf: "follows ?q ?f" by (rule flushWrites_follows)
    show ?thesis
    proof (cases "nt_closing ?f")
      case True
      then have "snd (submit E U request t) = ?f" using result False by (simp add: Let_def)
      with into [OF qf closed [OF True]] show ?thesis by simp
    next
      case open': False
      show ?thesis
      proof (cases "nt_fresh t \<in> fst ` set (nt_queue ?f)")
        case True
        let ?d = "deferQueued (nt_fresh t) ?f"
        let ?e = "if backpressureExceeded ?d then terminateForBackpressure U ?d else ?d"
        let ?v = "if nt_closing ?e then ?e else updatePoll E U ?e"
        have "snd (submit E U request t) = ?v" using result False open' True by (simp only: Let_def if_False if_True snd_conv)
        moreover have d: "follows ?q ?d" by (rule follows_trans [OF qf deferQueued_follows(1) [OF open']])
        have e: "follows ?q ?e" using d terminateForBackpressure_ok(1) [of ?d] by (auto intro: follows_trans)
        have "bounded ?e" using closed terminateForBackpressure_ok(2) [of ?d] by (auto simp: bounded_def)
        moreover have "follows ?q ?v" using follows_trans [OF e updatePoll_follows] e by simp
        moreover have "bounded ?v" if "sound t"
          using follows_static(4) [OF e s [OF that]] \<open>bounded ?e\<close> updatePoll_follows [of ?e E] by (simp add: follows_def keeps_def)
        ultimately show ?thesis using into by simp
      next
        case gone: False
        have v: "snd (submit E U request t) = ?f" using result False open' gone by (simp add: Let_def)
        have "bounded ?f" if "sound t"
        proof (rule flushWrites_single [OF s [OF that]])
          show "nt_queue ?q = [(nt_fresh t, r)]" "\<not> nt_closing ?q" using b False queues(2) by simp_all
          show "\<not> wr_deferred r" using queues(1) by (simp add: fresh_request_def)
        qed (use open' gone in simp_all)
        with v into [OF qf] show ?thesis by simp
      qed
    qed
  qed
qed simp

end

section \<open>The operations that write\<close>

lemma newRequest_ok: "blank (newRequest E)" "wr_sent (newRequest E) = 0" "\<not> wr_deferred (newRequest E)" "wr_callback (newRequest E) = None"
  by (simp_all add: newRequest_def blank_new) (simp_all add: newWriteRequest_def)

definition unsent :: "WriteRequest \<Rightarrow> bool" where
  "unsent r \<longleftrightarrow> wr_sent r = 0 \<and> \<not> wr_deferred r \<and> wr_callback r = None"

lemma unsent_same: "unsent r \<Longrightarrow> same_callback r r' \<Longrightarrow> unsent r'"
  by (simp add: unsent_def same_callback_def)

lemma submittable_alt: "submittable r \<longleftrightarrow> building r \<and> (1 < wr_partCount r \<longrightarrow> separate r) \<and> unsent r"
  by (simp add: submittable_def unsent_def)

lemma retainCallback_new: "retainCallback v (newRequest E) = (ok, r) \<Longrightarrow> blank r \<and> unsent r"
  using retainCallback_blank [of "newRequest E" v ok r] newRequest_ok [of E] by (simp add: unsent_def)

lemma addOwned_submittable: "blank r \<Longrightarrow> unsent r \<Longrightarrow> submittable (addOwned v r)"
  using blank_ok [of r] addOwned_ok [of r v] unsent_same by (simp add: submittable_alt)

lemma addInputs_ok:
  "building r \<Longrightarrow> separate r \<Longrightarrow> unsent r \<Longrightarrow> addInputs vs r = (True, r') \<Longrightarrow> submittable r'"
proof (induction vs arbitrary: r)
  case (Cons v vs)
  obtain ok r1 where r1: "addInput v r = (ok, r1)" by (cases "addInput v r")
  with Cons.prems have "ok" "addInputs vs r1 = (True, r')" by (auto split: if_splits)
  with Cons r1 addInput_ok(1) [of r v r1] addInput_grows [of r v r1] show ?case by (simp add: unsent_same)
qed (simp add: submittable_alt)

lemma textInput_ok:
  assumes "blank r" "unsent r" "addTextInput v r = (True, r')"
  shows "\<exists>utf8. v = JsString utf8 \<and> r' = withPart (ownedPart utf8) r"
  using assms addTextInput_refused [of v r] addTextInput_ok [OF blank_ok(1) [OF assms(1)]] by (cases v) auto

lemma smallText_ok:
  assumes b: "blank r" "unsent r" and a: "addSmallTextFrame v opc r = (True, r', framed)"
  shows "submittable r'" "wr_partCount r' = 1" "\<not> framed \<longrightarrow> separate r'" "building r'" "unsent r'"
proof -
  obtain utf8 where "v = JsString utf8"
    using a addTextInput_refused [of v r] by (cases v) (auto simp: addSmallTextFrame_def split: prod.splits)
  with a addSmallTextFrame_blank [OF b(1), of utf8 opc] unsent_same [OF b(2)]
  show "submittable r'" "wr_partCount r' = 1" "\<not> framed \<longrightarrow> separate r'" "building r'" "unsent r'"
    by (auto simp: submittable_alt)
qed

lemma prepended_ok:
  assumes "building r" "wr_partCount r = 1" "separate r" "unsent r"
  shows "\<exists>r'. prependOwned v r = Some r' \<and> submittable r'"
  using prependOwned_ok [OF assms(1-3), of v] unsent_same [OF assms(4)] by (auto simp: submittable_alt)

context reentrant
begin

lemma writeOwned_follows: "nt_active t \<Longrightarrow> follows t (snd (writeOwned E U v t))"
  unfolding writeOwned_def using newRequest_ok [of E]
  by (intro submit_follows addOwned_submittable) (simp_all add: unsent_def)

lemma writeFrame_follows:
  assumes "nt_active t"
  shows "follows t (snd (writeFrame E U v callback t))"
proof -
  obtain ok r where r: "retainCallback callback (newRequest E) = (ok, r)" by (cases "retainCallback callback (newRequest E)")
  obtain ok' r' where r': "addInput v r = (ok', r')" by (cases "addInput v r")
  note b = retainCallback_new [OF r]
  have "submittable r'" if "ok'"
    using addInputs_ok [of r "[v]" r'] b blank_ok [of r] r' that by simp
  then show ?thesis using submit_follows [OF _ assms] r r' by (simp add: writeFrame_def)
qed

lemma writeFrameList_follows:
  assumes "nt_active t"
  shows "follows t (snd (writeFrameList E U inputs callback t))"
proof -
  obtain ok r where r: "retainCallback callback (newRequest E) = (ok, r)" by (cases "retainCallback callback (newRequest E)")
  note b = retainCallback_new [OF r]
  show ?thesis
  proof (cases inputs)
    case (Some vs)
    obtain ok' r' where r': "addInputs vs r = (ok', r')" by (cases "addInputs vs r")
    have "submittable r'" if "ok'" using addInputs_ok [of r vs r'] b blank_ok [of r] r' that Some by simp
    with submit_follows [OF _ assms] r r' Some show ?thesis by (cases vs) (simp_all add: writeFrameList_def del: addInputs.simps)
  qed (simp add: writeFrameList_def)
qed

lemma submit_session:
  "nt_active t \<Longrightarrow> submittable r \<Longrightarrow> follows t (snd (submit E U r (t\<lparr>nt_sessionObject := s\<rparr>)))"
  by (rule follows_trans [OF follows_fields(2) submit_follows]) simp_all

lemma writeMessage_follows:
  assumes a: "nt_active t"
  shows "follows t (snd (writeMessage E U v opc compress callback t))"
proof -
  let ?c = "compress \<and> \<not> isClosing (sock (nt_sessionObject t))"
  obtain ok r where r: "retainCallback callback (newRequest E) = (ok, r)" by (cases "retainCallback callback (newRequest E)")
  note b = retainCallback_new [OF r]
  define taken where "taken = (if opc = TEXT
      then if ?c then (let (ok, r) = addTextInput v r in (ok, r, False)) else addSmallTextFrame v opc r
      else let (ok, r) = addInput v r in (ok, r, False))"
  obtain ok' r' framed where t: "taken = (ok', r', framed)" by (cases taken)
  define rest where "rest = (if \<not> ok' then (UV_EINVAL, t)
      else if ?c then
        (let source = partData r' (part r' 0);
             (fr, s) = createFrame (cpuOf E) (zlibOf E) source opc True (sock (nt_sessionObject t));
             t = t\<lparr>nt_sessionObject := (nt_sessionObject t)\<lparr>sock := s\<rparr>\<rparr>
         in case fr of
              None \<Rightarrow> (UV_EINVAL, t)
            | Some fr \<Rightarrow> submit E U (addOwned fr (clearParts r')) t)
      else if \<not> framed then
        (case prependOwned (frameHeader (ip_length (part r' 0)) opc) r' of
           None \<Rightarrow> (ABORTED, t)
         | Some r \<Rightarrow> submit E U r t)
      else submit E U r' t)"
  have w: "writeMessage E U v opc compress callback t = (if \<not> writable t then (UV_EBADF, t) else if \<not> ok then (UV_EINVAL, t) else rest)"
    unfolding writeMessage_def Let_def r prod.case taken_def [unfolded Let_def, symmetric] t rest_def by (rule refl)
  have input: "building r' \<and> unsent r' \<and> wr_partCount r' = 1 \<and> separate r'" if "addInput v r = (True, r')"
    using addInput_ok(1) [OF _ that] addInput_grows [OF _ that] b blank_ok [of r] unsent_same [of r r'] by simp
  have "follows t (snd rest)" if ok: ok'
  proof (cases ?c)
    case True
    have "building r' \<and> unsent r'"
    proof (cases "opc = TEXT")
      case True
      then have "addTextInput v r = (True, r')" using ok \<open>?c\<close> t by (auto simp: taken_def split: prod.splits)
      with textInput_ok b obtain utf8 where "r' = withPart (ownedPart utf8) r" by blast
      with withPart_ok [of r "ownedPart utf8"] b blank_ok [of r] show ?thesis by (simp add: unsent_def)
    next
      case False
      with ok t input show ?thesis by (auto simp: taken_def split: prod.splits)
    qed
    then have "blank (clearParts r')" "unsent (clearParts r')"
      using clearParts_ok [of r'] unsent_same [of r' "clearParts r'"] by (simp_all add: building_def blank_def)
    note s = submit_session [OF a addOwned_submittable [OF this]]
    obtain fr x where x: "createFrame (cpuOf E) (zlibOf E) (partData r' (part r' 0)) opc True (sock (nt_sessionObject t)) = (fr, x)"
      by (cases rule: prod.exhaust)
    with ok True s show ?thesis by (simp add: rest_def Let_def split: option.split)
  next
    case False
    note plain = submit_follows [OF _ a]
    have rest: "rest = (if \<not> framed then
        (case prependOwned (frameHeader (ip_length (part r' 0)) opc) r' of None \<Rightarrow> (ABORTED, t) | Some r \<Rightarrow> submit E U r t)
      else submit E U r' t)"
      unfolding rest_def using ok by (simp only: False if_True if_False not_True_eq_False)
    show ?thesis
    proof (cases "opc = TEXT")
      case True
      then have "addSmallTextFrame v opc r = (True, r', framed)" using ok t unfolding taken_def by (simp only: False if_True if_False simp_thms)
      note sm = smallText_ok [OF conjunct1 [OF b] conjunct2 [OF b] this]
      show ?thesis
      proof (cases framed)
        case True
        with plain [OF sm(1)] show ?thesis by (simp add: rest)
      next
        case no: False
        obtain q where "prependOwned (frameHeader (ip_length (part r' 0)) opc) r' = Some q" "submittable q"
          using prepended_ok [OF sm(4,2) _ sm(5)] sm(3) no by blast
        with no plain show ?thesis by (simp add: rest)
      qed
    next
      case no: False
      then have i: "addInput v r = (True, r')" "\<not> framed" using ok t by (auto simp: taken_def split: prod.splits)
      obtain q where "prependOwned (frameHeader (ip_length (part r' 0)) opc) r' = Some q" "submittable q"
        using prepended_ok input [OF i(1)] by blast
      with i(2) plain show ?thesis by (simp add: rest)
    qed
  qed
  moreover have "snd rest = t" if "\<not> ok'" using that by (simp add: rest_def)
  ultimately show ?thesis unfolding w by (cases ok') simp_all
qed

lemma writeClose_follows:
  assumes "nt_active t"
  shows "follows t (snd (writeClose E U code reason t))"
proof -
  obtain fr s where fr: "createCloseFrame (cpuOf E) code (Some reason) (sock (nt_sessionObject t)) = (fr, s)" by (cases rule: prod.exhaust)
  have "follows t (snd (writeOwned E U x (t\<lparr>nt_sessionObject := y\<rparr>)))" for x y
    by (rule follows_trans [OF follows_fields(2) writeOwned_follows]) (simp add: assms)
  with fr show ?thesis by (simp add: writeClose_def Let_def split: option.split)
qed

end

end
