(* ===== verification/Transport_Operations.thy ===== *)
theory Transport_Operations
  imports Transport_Writing
begin

text \<open>
  Reading, shutting down, and what JavaScript may do. The last lemma closes the circle: at every depth of the
  stack, what the transport calls keeps the contract under which its operations were proved.
\<close>

section \<open>Reading\<close>

text \<open>An operation that says it went well has not closed the transport.\<close>

definition steady :: "bool \<Rightarrow> 'z NativeTransport \<Rightarrow> 'z NativeTransport \<Rightarrow> bool" where
  "steady ok t t' \<longleftrightarrow> follows t t' \<and> (ok \<longrightarrow> \<not> nt_closing t')"

lemma steady_trans: "follows t u \<Longrightarrow> steady ok u v \<Longrightarrow> steady ok t v"
  by (auto simp: steady_def intro: follows_trans)

lemma steady_end: "steady ok t u \<Longrightarrow> follows u v \<Longrightarrow> nt_closing v = nt_closing u \<Longrightarrow> steady ok t v"
  by (auto simp: steady_def intro: follows_trans)

context reentrant
begin

lemma consumeEvents_steady:
  "nt_active t \<Longrightarrow> consumeEvents E U es t = (ok, t') \<Longrightarrow> steady ok t t'"
proof (induction es arbitrary: t)
  case Nil
  then show ?case by (auto simp: steady_def)
next
  case (Cons e es)
  show ?case
  proof (cases "\<not> nt_session t \<or> nt_closing t")
    case True
    with Cons.prems show ?thesis by (simp add: steady_def)
  next
    case False
    have next': "steady ok t t'" if "follows t u" "consumeEvents E U es u = (ok, t')" for u
      using steady_trans [OF that(1) Cons.IH [OF _ that(2)]] follows_static(1) [OF that(1) Cons.prems(1)] by simp
    show ?thesis
    proof (cases "ev_type e")
      case FRAME
      obtain st u where u: "writeOwned E U (ev_data e) t = (st, u)" by (cases "writeOwned E U (ev_data e) t")
      have f: "follows t u" using writeOwned_follows [OF Cons.prems(1), of E "ev_data e"] u by simp
      show ?thesis
      proof (cases "isError st")
        case True
        with Cons.prems(2) False u FRAME have "t' = nt_fail U (uv_strerror E st) u" "\<not> ok" by simp_all
        with follows_trans [OF f nt_fail_ok(1)] show ?thesis by (simp add: steady_def)
      next
        case no: False
        with Cons.prems(2) False u FRAME next' [OF f] show ?thesis by simp
      qed
    next
      case MESSAGE
      obtain ok' u where u: "dispatchMessage U e t = (ok', u)" by (cases "dispatchMessage U e t")
      have f: "follows t u" by (rule callOwner_follows [OF _ u [unfolded dispatchMessage_def]]) simp
      from Cons.prems(2) False u MESSAGE next' [OF f] f show ?thesis by (cases ok') (simp_all add: steady_def)
    next
      case CLOSED
      let ?c = "t\<lparr>nt_pendingClose := True, nt_pendingCloseCode := ev_code e, nt_pendingCloseReason := payloadData e\<rparr>"
      have "follows t (up_finish U ?c)"
        by (rule follows_trans [OF follows_fields(15) finish_follows]) (use Cons.prems in simp)
      with Cons.prems(2) False CLOSED next' show ?thesis by simp
    qed
  qed
qed

lemma nt_consume_steady:
  assumes "nt_active t" "nt_consume E U dat t = (ok, t')"
  shows "steady ok t t'"
proof -
  obtain x buffer where x: "sw_consume (cpuOf E) (zlibOf E) dat 0 (length dat) (nt_sessionObject t) = (x, buffer)" by (cases rule: prod.exhaust)
  obtain ok' u where u: "consumeEvents E U (events (sock x)) (t\<lparr>nt_sessionObject := x\<rparr>) = (ok', u)" by (cases rule: prod.exhaust)
  have "steady ok' t u"
    by (rule steady_trans [OF follows_fields(2) consumeEvents_steady [OF _ u]]) (use assms(1) in simp)
  from steady_end [OF this follows_fields(2)] assms(2) x u show ?thesis by (auto simp: nt_consume_def)
qed

lemma readLoop_steady:
  "nt_active t \<Longrightarrow> \<not> nt_closing t \<Longrightarrow> readLoop E U fuel t = (ok, t') \<Longrightarrow> steady ok t t'"
proof (induction fuel arbitrary: t)
  case 0
  then show ?case by (simp add: steady_def)
next
  case (Suc fuel)
  obtain a u where u: "nextAnswer t = (a, u)" by (cases "nextAnswer t")
  have o: "open_follows t u" by (rule nextAnswer_open [OF u Suc.prems(2)])
  have b: "open_follows t (bioAppend c u)" for c
    using open_follows_trans [OF o bioAppend_open] o Suc.prems(2) by (simp add: open_follows_def)
  then have bf: "follows t (bioAppend c u)" "\<not> nt_closing (bioAppend c u)" "nt_active (bioAppend c u)" for c
    using Suc.prems follows_static(1) [of t "bioAppend c u"] by (simp_all add: open_follows_def)
  have f: "follows t u" using o by (simp add: open_follows_def)
  show ?case
  proof (cases a)
    case (Done n bs c)
    show ?thesis
    proof (cases "bs = []")
      case True
      with Suc.prems u Done have "t' = nt_fail U ''SSL_read during TLS transfer'' (bioAppend c u)" "\<not> ok" by auto
      with follows_trans [OF bf(1) nt_fail_ok(1)] show ?thesis by (simp add: steady_def)
    next
      case False
      obtain ok' v where v: "nt_consume E U (take SHARED_READ_BUFFER_SIZE bs) (bioAppend c u) = (ok', v)" by (cases rule: prod.exhaust)
      have s: "steady ok' t v" by (rule steady_trans [OF bf(1) nt_consume_steady [OF bf(3) v]])
      show ?thesis
      proof (cases "ok' \<and> n \<noteq> 0")
        case True
        then have "readLoop E U fuel v = (ok, t')" using Suc.prems u Done False v by simp
        moreover have "follows t v" "nt_active v" "\<not> nt_closing v"
          using s True Suc.prems follows_static(1) [of t v] by (simp_all add: steady_def)
        ultimately show ?thesis using Suc.IH steady_trans by blast
      next
        case no: False
        with Suc.prems u Done False v have "t' = v" "ok = ok'" by (auto split: if_splits)
        with s show ?thesis by simp
      qed
    qed
  next
    case (WantRead c)
    with Suc.prems u bf show ?thesis by (auto simp: steady_def)
  next
    case (WantWrite c)
    with Suc.prems u bf show ?thesis by (auto simp: steady_def)
  next
    case ZeroReturn
    with Suc.prems u follows_trans [OF f closeNow_ok(1)] show ?thesis by (auto simp: steady_def)
  next
    case Interrupted
    with Suc.prems u follows_trans [OF f nt_fail_ok(1)] show ?thesis by (auto simp: steady_def)
  next
    case (Failure e)
    with Suc.prems u follows_trans [OF f nt_fail_ok(1)] show ?thesis by (auto simp: steady_def)
  qed
qed

lemma flushMemoryBIOOutput_steady:
  assumes "\<not> nt_closing t" "nt_ssl t" "flushMemoryBIOOutput E U t = (ok, t')"
  shows "steady ok t t'"
  using flushMemoryBIOOutput_ok [OF assms] assms(1) by (auto simp: flushed_def steady_def open_follows_def split: if_splits)

lemma processMemoryBIO_steady:
  assumes a: "nt_active t" and r: "processMemoryBIO E U t = (ok, t')"
  shows "steady ok t t'"
proof (cases "\<not> nt_ssl t \<or> nt_closing t")
  case True
  with r show ?thesis by (auto simp: processMemoryBIO_def steady_def)
next
  case n: False
  show ?thesis
  proof (cases "nt_tlsProcessingInput t")
    case True
    with n r flushMemoryBIOOutput_steady [of t E ok t'] show ?thesis by (simp add: processMemoryBIO_def)
  next
    case False
    let ?p = "t\<lparr>nt_tlsProcessingInput := True\<rparr>"
    obtain ok1 u where u: "readLoop E U (Suc (length (nt_io t))) ?p = (ok1, u)" by (cases rule: prod.exhaust)
    have s: "steady ok1 t u" by (rule steady_trans [OF follows_fields(13) readLoop_steady [OF _ _ u]]) (use a n in simp_all)
    obtain ok2 v where v: "(if ok1 then flushMemoryBIOOutput E U u else (False, u)) = (ok2, v)" by (cases rule: prod.exhaust)
    have "steady ok2 t v"
    proof (cases ok1)
      case True
      then have "\<not> nt_closing u" "nt_ssl u" "follows t u" using s n by (auto simp: steady_def follows_def static_def)
      with True v flushMemoryBIOOutput_steady [of u E ok2 v] steady_trans show ?thesis by simp
    next
      case False
      with v s show ?thesis by (simp add: steady_def)
    qed
    moreover have "ok = ok2" "t' = v\<lparr>nt_tlsProcessingInput := False\<rparr>"
      using n False r u v by (simp_all add: processMemoryBIO_def)
    ultimately show ?thesis using steady_end [OF _ follows_fields(13)] by simp
  qed
qed


lemma performTLSShutdown_follows:
  assumes a: "nt_active t"
  shows "follows t (performTLSShutdown E U t)"
proof (cases "\<not> nt_gracefulCloseRequested t \<or> nt_closing t \<or> nt_queue t \<noteq> [] \<or> \<not> nt_ssl t")
  case True
  then show ?thesis using closeNow_ok(1) by (auto simp: performTLSShutdown_def)
next
  case n: False
  define finish :: "bool \<times> 'z NativeTransport \<Rightarrow> 'z NativeTransport" where
    "finish = (\<lambda>(ok, t). if \<not> ok then t else if hasTLSOutput t then t\<lparr>nt_tlsShutdownPending := True\<rparr>
       else closeNow U UV_ECANCELED (t\<lparr>nt_tlsShutdownPending := False\<rparr>))"
  have fin: "follows t (finish (flushMemoryBIOOutput E U u))" if "follows t u" "\<not> nt_closing u" for u
  proof -
    obtain ok v where v: "flushMemoryBIOOutput E U u = (ok, v)" by (cases "flushMemoryBIOOutput E U u")
    have "nt_ssl u" using n follows_static(2) [OF that(1)] by simp
    from flushMemoryBIOOutput_steady [OF that(2) this v] have v': "follows t v" using that(1) by (auto simp: steady_def intro: follows_trans)
    have "follows v (closeNow U UV_ECANCELED (v\<lparr>nt_tlsShutdownPending := False\<rparr>))"
      by (rule follows_trans [OF follows_fields(11) closeNow_ok(1)])
    with v' v follows_trans [OF v' follows_fields(11)] show ?thesis by (auto simp: finish_def intro: follows_trans)
  qed
  show ?thesis
  proof (cases "nt_tlsShutdownGenerated t")
    case True
    have "performTLSShutdown E U t = finish (flushMemoryBIOOutput E U t)"
      using n True by (simp add: performTLSShutdown_def finish_def)
    with fin n show ?thesis by simp
  next
    case False
    obtain ok u where u: "processMemoryBIO E U t = (ok, u)" by (cases "processMemoryBIO E U t")
    have s: "steady ok t u" by (rule processMemoryBIO_steady [OF a u])
    show ?thesis
    proof (cases "\<not> ok \<or> hasTLSOutput u")
      case True
      then have "performTLSShutdown E U t = u\<lparr>nt_tlsShutdownPending := True\<rparr>"
        using n False u unfolding performTLSShutdown_def by simp
      with s show ?thesis by (auto simp: steady_def intro: follows_trans [OF _ follows_fields(11)])
    next
      case go: False
      obtain b v where v: "nextAnswer u = (b, v)" by (cases "nextAnswer u")
      have o: "open_follows u v" using nextAnswer_open [OF v] s go by (simp add: steady_def)
      obtain generated w where w: "(case (b, v) of
          (Done _ _ ciphertext, t) \<Rightarrow> (True, bioAppend ciphertext t)
        | (WantRead ciphertext, t) \<Rightarrow> (True, bioAppend ciphertext t)
        | (WantWrite ciphertext, t) \<Rightarrow> (True, bioAppend ciphertext t)
        | (_, t) \<Rightarrow> (False, t)) = (generated, w)" by (cases rule: prod.exhaust)
      have "w = v \<or> (\<exists>c. w = bioAppend c v)" using w by (cases b) auto
      moreover have "\<not> nt_closing v" using o s go by (simp add: steady_def open_follows_def)
      ultimately have "open_follows u w" using o open_follows_trans [OF o bioAppend_open] by auto
      then have tw: "follows t w" "\<not> nt_closing w" using s go by (auto simp: steady_def open_follows_def intro: follows_trans)
      have "performTLSShutdown E U t = (if \<not> generated then closeNow U UV_ECANCELED (w\<lparr>nt_tlsShutdownPending := False\<rparr>)
          else finish (flushMemoryBIOOutput E U (w\<lparr>nt_tlsShutdownGenerated := True\<rparr>)))"
        using n False go unfolding performTLSShutdown_def u Let_def prod.case v w [unfolded prod.case] finish_def by simp
      moreover have "follows t (closeNow U UV_ECANCELED (w\<lparr>nt_tlsShutdownPending := False\<rparr>))"
        by (rule follows_trans [OF follows_trans [OF tw(1) follows_fields(11)] closeNow_ok(1)])
      moreover have "follows t (finish (flushMemoryBIOOutput E U (w\<lparr>nt_tlsShutdownGenerated := True\<rparr>)))"
        by (rule fin [OF follows_trans [OF tw(1) follows_fields(12)]]) (simp add: tw(2))
      ultimately show ?thesis by simp
    qed
  qed
qed

lemma maybeFinishPeerClose_follows:
  assumes a: "nt_active t"
  shows "follows t (maybeFinishPeerClose E U t)"
proof -
  obtain ok u where u: "(if nt_pendingClose t
      then (let (ok, t) = callOwner U (OnClose (nt_pendingCloseCode t) (nt_pendingCloseReason t)) (t\<lparr>nt_pendingClose := False\<rparr>)
            in (ok, if ok then t\<lparr>nt_gracefulCloseRequested := True\<rparr> else t))
      else (True, t)) = (ok, u)" by (cases rule: prod.exhaust)
  have f: "follows t u"
  proof (cases "nt_pendingClose t")
    case True
    obtain ok' v where v: "callOwner U (OnClose (nt_pendingCloseCode t) (nt_pendingCloseReason t)) (t\<lparr>nt_pendingClose := False\<rparr>) = (ok', v)"
      by (cases rule: prod.exhaust)
    have "follows t v" by (rule follows_trans [OF follows_fields(8) callOwner_follows [OF _ v]]) simp
    moreover have "u = v \<or> u = v\<lparr>nt_gracefulCloseRequested := True\<rparr>" using u v True by (auto split: if_splits)
    ultimately show ?thesis using follows_trans [OF _ follows_fields(9)] by auto
  qed (use u in simp)
  have "nt_active u" by (rule follows_static(1) [OF f a])
  then have "follows t (performTLSShutdown E U u)" using follows_trans [OF f performTLSShutdown_follows] by blast
  with f u show ?thesis unfolding maybeFinishPeerClose_def by simp
qed

lemma readTCP_follows:
  assumes a: "nt_active t"
  shows "follows t (readTCP E U t)"
proof -
  obtain b u where u: "nextAnswer t = (b, u)" by (cases "nextAnswer t")
  have f: "follows t u" by (rule nextAnswer_follows [OF u])
  have "follows u (snd (nt_consume E U x u))" for x
    using nt_consume_steady [OF follows_static(1) [OF f a] prod.collapse [symmetric]] by (simp add: steady_def)
  with f u closeNow_ok(1) [of u] nt_fail_ok(1) [of u] show ?thesis
    by (cases b) (auto simp: readTCP_def intro: follows_trans)
qed

lemma bioWrite_follows: "bioWrite n t = (ok, t') \<Longrightarrow> follows t t'"
proof (induction n t rule: bioWrite.induct)
  case (1 n t)
  obtain b u where u: "nextAnswer t = (b, u)" by (cases "nextAnswer t")
  have f: "follows t u" by (rule nextAnswer_follows [OF u])
  show ?case
  proof (cases "n = 0")
    case True
    with "1.prems" show ?thesis by (subst (asm) bioWrite.simps) simp
  next
    case False
    show ?thesis
    proof (cases b)
      case (Done k d c)
      show ?thesis
      proof (cases "k = 0")
        case True
        with "1.prems" False u Done f show ?thesis by (subst (asm) bioWrite.simps) simp
      next
        case nz: False
        then have "bioWrite (n - min k n) u = (ok, t')" using "1.prems" False u Done by (subst (asm) (1) bioWrite.simps) simp
        with "1.IH" [OF False u [symmetric] Done nz] f show ?thesis by (blast intro: follows_trans)
      qed
    qed (use "1.prems" False u f in \<open>simp_all add: bioWrite.simps [of n t]\<close>)
  qed
qed

lemma readTLSMemoryBIO_follows:
  assumes a: "nt_active t"
  shows "follows t (readTLSMemoryBIO E U t)"
proof -
  obtain b u where u: "nextAnswer t = (b, u)" by (cases "nextAnswer t")
  have f: "follows t u" by (rule nextAnswer_follows [OF u])
  have p: "follows t (snd (processMemoryBIO E U v))" if "follows t v" for v
    using processMemoryBIO_steady [OF follows_static(1) [OF that a] prod.collapse [symmetric]] that
    by (auto simp: steady_def intro: follows_trans)
  show ?thesis
  proof (cases b)
    case (Done n dat c)
    obtain ok v where v: "bioWrite (length (take SHARED_READ_BUFFER_SIZE dat)) u = (ok, v)" by (cases rule: prod.exhaust)
    have g: "follows t v" by (rule follows_trans [OF f bioWrite_follows [OF v]])
    from follows_trans [OF g nt_fail_ok(1)] follows_trans [OF f closeNow_ok(1)] p [OF g] u v Done show ?thesis
      by (simp add: readTLSMemoryBIO_def)
  qed (use u p [OF f] follows_trans [OF f nt_fail_ok(1)] follows_trans [OF f closeNow_ok(1)] in \<open>simp_all add: readTLSMemoryBIO_def\<close>)
qed

lemma nt_poll_follows:
  assumes a: "nt_active t"
  shows "follows t (nt_poll E U error reading writing t)"
proof -
  have read: "follows u (readAvailable E U u)" if "nt_active u" for u
    using readTCP_follows [OF that] readTLSMemoryBIO_follows [OF that] by (simp add: readAvailable_def)
  define r where "r = (if reading then
      (let retryWrite = nt_tlsWriteBlockedOnRead t; t = readAvailable E U (t\<lparr>nt_tlsWriteBlockedOnRead := False\<rparr>)
       in if \<not> nt_closing t \<and> retryWrite then flushWrites E U t else t) else t)"
  have "follows t (readAvailable E U (t\<lparr>nt_tlsWriteBlockedOnRead := False\<rparr>))"
    by (rule follows_trans [OF follows_fields(10) read]) (simp add: a)
  from this follows_trans [OF this flushWrites_follows] have r: "follows t r" by (simp add: r_def Let_def)
  define s where "s = (if nt_tlsShutdownPending r then performTLSShutdown E U r else r)"
  have s: "follows t s" using r performTLSShutdown_follows [OF follows_static(1) [OF r a]] by (auto simp: s_def intro: follows_trans)
  define p where "p = (if nt_ssl s then snd (processMemoryBIO E U s) else s)"
  have p: "follows t p" using s processMemoryBIO_steady [OF follows_static(1) [OF s a] prod.collapse [symmetric]]
    by (auto simp: p_def steady_def intro: follows_trans)
  define w where "w = (if \<not> nt_closing p then flushWrites E U p else p)"
  have w: "follows t w" using p follows_trans [OF p flushWrites_follows] by (simp add: w_def)
  define d where "d = (if \<not> nt_closing w \<and> nt_tlsShutdownPending w then performTLSShutdown E U w else w)"
  have d: "follows t d" using w performTLSShutdown_follows [OF follows_static(1) [OF w a]] by (auto simp: d_def intro: follows_trans)
  have e: "nt_poll E U error reading writing t = (if nt_closing t then t
      else case error of Some e \<Rightarrow> nt_fail U (uv_strerror E (UV_ERRNO e)) t
      | None \<Rightarrow> if \<not> nt_closing r \<and> writing then (if nt_closing s then s else if \<not> nt_closing d then updatePoll E U d else d)
          else if \<not> nt_closing r then updatePoll E U r else r)"
    unfolding nt_poll_def Let_def r_def [unfolded Let_def, symmetric] s_def [symmetric] p_def [symmetric] w_def [symmetric] d_def [symmetric] by (rule refl)
  show ?thesis unfolding e
    using nt_fail_ok(1) r s d follows_trans [OF r updatePoll_follows] follows_trans [OF d updatePoll_follows]
    by (simp split: option.split)
qed


section \<open>The operations of JavaScript\<close>

lemma cancelLoop_static: "static t (cancelLoop U st n t)"
proof (induction n arbitrary: t)
  case (Suc n)
  show ?case
  proof (cases "nt_queue t")
    case (Cons x q)
    obtain k r where x: "nt_queue t = (k, r) # q" using Cons by (cases x) auto
    obtain u where u: "cancelLoop U st (Suc n) t = cancelLoop U st n u"
      "follows (if nt_environmentCleaning t then withoutHead t else answered st r (withoutHead t)) u"
      using cancelLoop_step [OF x] by blast
    have "static t (if nt_environmentCleaning t then withoutHead t else answered st r (withoutHead t))"
      by (simp add: static_def)
    with u(2) have "static t u" by (auto simp: follows_def intro: static_trans)
    with Suc.IH [of u] u(1) show ?thesis by (auto intro: static_trans)
  qed (simp add: static_def)
qed (simp add: static_def)

text \<open>The destructor runs for a transport that was never active, or that was closed and left by every operation.\<close>

lemma nt_delete_follows:
  assumes "nt_destroyRequested t" "\<not> nt_active t \<or> nt_closing t \<and> \<not> undeleted t"
  shows "follows t (nt_delete U t)"
proof -
  let ?d = "t\<lparr>nt_deleted := True\<rparr>"
  let ?w = "cancelWrites U UV_ECANCELED ?d"
  have u: "\<not> undeleted t" using assms by (auto simp: undeleted_def)
  have same: "queue_ok ?d = queue_ok t" "bytes_ok c ?d = bytes_ok c t" "cipher_ok ?d = cipher_ok t" "calls_ok ?d = calls_ok t"
    "flags_ok ?d = flags_ok t" "quiet ?d = quiet t" "bounded ?d = bounded t" "effects ?d = effects t" "gone_ok ?d = gone_ok t" for c
    by (simp_all add: queue_ok_def bytes_ok_def cipher_ok_def gone_ok_def calls_ok_def flags_ok_def quiet_def bounded_def
        backpressureExceeded_def effects_def logged_def)
  have d: "follows t ?d" using u same assms(1) by (simp add: follows_def keeps_def frozen_def lives_def static_def soundWith_def)
  have "follows t ?w"
  proof (cases "nt_closing t")
    case True
    then show ?thesis using follows_trans [OF d cancelWrites_ok(1)] by simp
  next
    case False
    have "static t ?w" using cancelLoop_static [of ?d] assms(1) by (simp add: cancelWrites_def static_def)
    moreover have "\<not> nt_active ?w" using \<open>static t ?w\<close> assms False by (simp add: static_def)
    moreover have "keeps t ?w"
    proof (cases "sound t")
      case True
      with False assms have "nt_queue t = []" by (auto simp: soundWith_def flags_ok_def)
      then have "?w = ?d" by (simp add: cancelWrites_def)
      with d show ?thesis by (simp add: follows_def)
    qed (simp add: keeps_def)
    ultimately show ?thesis using False u by (simp add: follows_def frozen_def lives_def)
  qed
  from follows_trans [OF this follows_fields(4)] show ?thesis by (simp add: nt_delete_def)
qed

lemma requestDestroy_follows: "follows t (requestDestroy U t)"
proof -
  let ?r = "t\<lparr>nt_destroyRequested := True, nt_session := False\<rparr>"
  have r: "follows t ?r" using follows_trans [OF follows_fields(5) follows_fields(3)] .
  show ?thesis
  proof (cases "nt_active t")
    case False
    then have "follows ?r (nt_delete U ?r)" by (intro nt_delete_follows) simp_all
    with r False show ?thesis by (auto simp: requestDestroy_def intro: follows_trans)
  next
    case True
    let ?c = "closeNow U UV_ECANCELED ?r"
    have c: "follows t ?c" "nt_closing ?c" using follows_trans [OF r closeNow_ok(1)] closeNow_ok(2) by simp_all
    have "nt_destroyRequested ?c" using closeNow_ok(1) [of ?r UV_ECANCELED] by (simp add: follows_def static_def)
    then have "follows t (nt_delete U ?c)" if "nt_pollClosed ?c" "\<not> nt_insideCloseCallback ?c"
      using that c by (intro follows_trans [OF c(1) nt_delete_follows]) (auto simp: undeleted_def)
    with c True show ?thesis by (simp add: requestDestroy_def Let_def)
  qed
qed

lemma answering_follows: "follows t (snd result) \<Longrightarrow> follows t (snd (answering callback result))"
proof (unfold answering_def snd_conv, erule follows_trans)
  fix u :: "'z NativeTransport" and st
  have "submittedBy (Returned callback st) = []" "promisedBy (Returned callback st) = []" by simp_all
  then show "follows (snd result) (happen (Returned callback (fst result)) (snd result))"
    by (simp add: follows_def keeps_def frozen_def lives_def static_def soundWith_def)
qed

lemma perform_follows: "follows t (perform E U a t)"
  using answering_follows [OF writeMessage_follows] answering_follows [OF writeFrameList_follows]
    answering_follows [OF writeFrame_follows] writeClose_follows requestDestroy_follows
    closeNow_ok(1) unfolding perform_def terminate_def by (cases a) auto

lemma react_follows: "follows t (snd (react E U t))"
proof -
  have "follows t (fold (perform E U) as t)" for as t
    by (induction as arbitrary: t) (auto intro: follows_trans perform_follows)
  then have "follows t (fold (perform E U) as (t\<lparr>nt_reactions := rest\<rparr>))" for as rest
    by (rule follows_trans [OF follows_fields(14)])
  then show ?thesis by (simp add: react_def split: list.split)
qed

end

text \<open>At every depth of the stack, what the transport calls keeps its contract.\<close>

lemma reentrant_upcalls: "reentrant (upcallsAt E depth)"
proof (induction depth)
  case 0
  show ?case by unfold_locales simp_all
next
  case (Suc depth)
  show ?case
    by unfold_locales
      (simp_all add: reentrant.react_follows [OF Suc] reentrant.maybeFinishPeerClose_follows [OF Suc])
qed

interpretation calls: reentrant "upcallsAt E depth" for E :: "'z host" and depth
  by (rule reentrant_upcalls)

end
