(* ===== verification/Transport_Safety.thy ===== *)
theory Transport_Safety
  imports Transport_Operations
begin

text \<open>
  The life of a connection as a sequence of steps of the event loop: what holds between them, and the
  properties of the transport.
\<close>

section \<open>Between the steps\<close>

text \<open>
  A closed transport waits for its poll handle; only one that was asked to go is deleted, and not while libuv has the
  handle.
\<close>

definition lifetime :: "'z NativeTransport \<Rightarrow> bool" where
  "lifetime t \<longleftrightarrow> (nt_closing t \<and> nt_active t \<and> nt_pollInitialized t \<longrightarrow> nt_uvClosing t) \<and>
     (nt_deleted t \<or> nt_environmentCleaning t \<longrightarrow> nt_destroyRequested t) \<and>
     (nt_deleted t \<longrightarrow> \<not> nt_active t \<or> nt_pollClosed t)"

definition resting :: "'z NativeTransport \<Rightarrow> bool" where
  "resting t \<longleftrightarrow> sound t \<and> quiet t \<and> bounded t \<and> lifetime t \<and> \<not> nt_insideCloseCallback t"

lemma follows_lifetime:
  assumes "follows t u" "sound t" "lifetime t"
  shows "lifetime u"
proof -
  have "nt_deleted u \<longrightarrow> \<not> nt_active u \<or> nt_pollClosed u"
  proof (cases "undeleted t")
    case True
    with assms(1) show ?thesis by (simp add: follows_def lives_def undeleted_def)
  next
    case False
    have f: "nt_pollInitialized t = nt_active t" "nt_uvClosing t \<longrightarrow> nt_closing t"
      using assms(2) by (simp_all add: soundWith_def flags_ok_def)
    have "nt_deleted t \<longrightarrow> \<not> nt_active t \<or> nt_pollClosed t" using assms(3) by (simp add: lifetime_def)
    with False f have "\<not> nt_active t \<or> nt_pollClosed t" by (auto simp: undeleted_def)
    moreover have "nt_active u = nt_active t" "nt_pollClosed t \<longrightarrow> nt_pollClosed u"
      using assms(1) by (simp_all add: follows_def static_def)
    ultimately show ?thesis by blast
  qed
  moreover have "nt_closing u \<and> nt_active u \<and> nt_pollInitialized u \<longrightarrow> nt_uvClosing u"
    using assms by (cases "nt_closing t") (simp_all add: lifetime_def follows_def frozen_def static_def)
  moreover have "nt_deleted u \<or> nt_environmentCleaning u \<longrightarrow> nt_destroyRequested u"
    using assms by (simp add: lifetime_def follows_def static_def) blast
  ultimately show ?thesis by (simp add: lifetime_def)
qed

definition settles :: "'z NativeTransport \<Rightarrow> 'z NativeTransport \<Rightarrow> bool" where
  "settles t t' \<longleftrightarrow> (resting t \<longrightarrow> resting t') \<and> nt_ssl t' = nt_ssl t \<and> nt_maxBackpressure t' = nt_maxBackpressure t \<and>
     prefix (nt_history t) (nt_history t') \<and> (nt_closing t \<longrightarrow> nt_closing t' \<and> effects t' = effects t)"

lemma settles_refl: "settles t t"
  by (simp add: settles_def)

lemma settles_trans: "settles t u \<Longrightarrow> settles u v \<Longrightarrow> settles t v"
  by (auto simp: settles_def intro: prefix_order.trans)

lemma follows_settles: "follows t u \<Longrightarrow> settles t u"
proof -
  assume f: "follows t u"
  with follows_lifetime [OF f] show "settles t u"
    by (simp add: settles_def resting_def) (simp add: follows_def keeps_def static_def frozen_def)
qed

lemma settles_cong:
  assumes "settles t u" "sound u \<longrightarrow> sound v" "quiet v = quiet u" "bounded v = bounded u" "sound u \<longrightarrow> lifetime u \<longrightarrow> lifetime v"
    "nt_insideCloseCallback v = nt_insideCloseCallback u \<or> \<not> nt_insideCloseCallback v"
    "nt_ssl v = nt_ssl u" "nt_maxBackpressure v = nt_maxBackpressure u" "nt_history v = nt_history u" "nt_closing v = nt_closing u"
  shows "settles t v"
  using assms by (auto simp: settles_def resting_def effects_def)

lemma flags_sound:
  assumes "sound t" "flags_ok u"
    and "nt_queue u = nt_queue t" "nt_fresh u = nt_fresh t" "nt_pendingBytes u = nt_pendingBytes t" "nt_ssl u = nt_ssl t"
      "nt_closing u = nt_closing t" "nt_tlsCiphertext u = nt_tlsCiphertext t" "nt_tlsCiphertextOffset u = nt_tlsCiphertextOffset t"
      "nt_writeBIO u = nt_writeBIO t" "nt_tlsCommittedPlaintext u = nt_tlsCommittedPlaintext t" "nt_history u = nt_history t"
      "nt_environmentCleaning u = nt_environmentCleaning t"
  shows "sound u"
proof -
  have "queue_ok u = queue_ok t" "calls_ok u = calls_ok t" "gone_ok u = gone_ok t"
    using assms(3-) by (simp_all add: queue_ok_def calls_ok_def gone_ok_def logged_def)
  moreover have "bytes_ok (nt_tlsCommittedPlaintext u) u = bytes_ok (nt_tlsCommittedPlaintext t) t" "cipher_ok u = cipher_ok t"
    using assms(3-) by (simp_all add: bytes_ok_def cipher_ok_def logged_def)
  ultimately show ?thesis using assms(1,2) by (simp add: soundWith_def)
qed

lemma activate_settles: "\<not> nt_deleted t \<Longrightarrow> settles t (snd (activate E (upcallsAt E depth) t))"
proof (cases "nt_active t \<or> nt_closing t")
  case True
  then show ?thesis by (simp add: activate_def settles_refl)
next
  case False
  assume d: "\<not> nt_deleted t"
  let ?U = "upcallsAt E depth"
  let ?b = "if nt_ssl t then t\<lparr>nt_nodeBIOs := sslWriteBIO E\<rparr> else t"
  have known: "settles t ?b"
  proof (rule settles_cong [OF settles_refl [of t]])
    show "sound t \<longrightarrow> sound ?b"
    proof
      assume s: "sound t"
      have "flags_ok ?b" using s False by (simp add: soundWith_def flags_ok_def)
      with s show "sound ?b" by (rule flags_sound) simp_all
    qed
  qed (simp_all add: quiet_def bounded_def backpressureExceeded_def lifetime_def)
  show ?thesis
  proof (cases "nt_ssl t \<and> \<not> (sslReadBIO E \<and> sslWriteBIO E)")
    case True
    with False known show ?thesis by (simp add: activate_def)
  next
    case bios: False
    obtain a u where u: "nextAnswer ?b = (a, u)" by (cases "nextAnswer ?b")
    obtain io where io: "u = ?b\<lparr>nt_io := io\<rparr>" using nextAnswer_fields [OF u] by blast
    let ?p = "u\<lparr>nt_pollInitialized := True, nt_active := True\<rparr>"
    have p: "settles t ?p"
    proof (rule settles_cong [OF settles_refl [of t]])
      show "sound t \<longrightarrow> sound ?p"
      proof
        assume s: "sound t"
        have "flags_ok ?p" using s False bios by (simp add: soundWith_def flags_ok_def io)
        with s show "sound ?p" by (rule flags_sound) (simp_all add: io)
      qed
      show "quiet ?p = quiet t" "bounded ?p = bounded t" "sound t \<longrightarrow> lifetime t \<longrightarrow> lifetime ?p"
        using False d by (simp_all add: io quiet_def bounded_def backpressureExceeded_def lifetime_def)
    qed (simp_all add: io)
    have o: "settles t u"
    proof (rule settles_cong [OF settles_refl [of t]])
      show "sound t \<longrightarrow> sound u"
      proof
        assume s: "sound t"
        have "flags_ok u" using s False by (simp add: soundWith_def flags_ok_def io)
        with s show "sound u" by (rule flags_sound) (simp_all add: io)
      qed
      show "quiet u = quiet t" "bounded u = bounded t" "sound t \<longrightarrow> lifetime t \<longrightarrow> lifetime u"
        by (simp_all add: io quiet_def bounded_def backpressureExceeded_def lifetime_def)
    qed (simp_all add: io)
    obtain ok v where v: "(if nt_ssl ?p then processMemoryBIO E ?U ?p else (True, ?p)) = (ok, v)" by (cases rule: prod.exhaust)
    have f: "follows ?p v"
      using v calls.processMemoryBIO_steady [of ?p E E depth ok v] by (auto simp: steady_def split: if_splits)
    define r where "r = (if \<not> ok then (UV_EIO, v)
        else let t = updatePoll E ?U (flushWrites E ?U v) in (if nt_closing t then UV_EIO else UV_OK, t))"
    have "follows ?p (snd r)"
      using f follows_trans [OF f follows_trans [OF calls.flushWrites_follows calls.updatePoll_follows]] by (simp add: r_def Let_def)
    then have "settles t (snd r)" using settles_trans [OF p follows_settles] by simp
    moreover have "activate E ?U t = (case a of Failure e \<Rightarrow> (UV_ERRNO e, u) | _ \<Rightarrow> r)"
      using False bios unfolding activate_def Let_def u prod.case v r_def [unfolded Let_def, symmetric] by simp
    ultimately show ?thesis using o by (cases a) simp_all
  qed
qed

lemma onPollClosed_settles:
  assumes "nt_uvClosing t" "\<not> nt_deleted t" "resting t"
  shows "settles t (onPollClosed (upcallsAt E depth) t)"
proof -
  let ?U = "upcallsAt E depth"
  let ?p = "t\<lparr>nt_pollClosed := True\<rparr>"
  have s: "sound t" "\<not> nt_insideCloseCallback t" using assms(3) by (simp_all add: resting_def)
  then have c: "nt_closing t" "nt_active t" using assms(1) by (simp_all add: soundWith_def flags_ok_def)
  have sound_p: "sound ?p" "sound (?p\<lparr>nt_insideCloseCallback := True\<rparr>)"
  proof -
    have f: "flags_ok ?p" "flags_ok (?p\<lparr>nt_insideCloseCallback := True\<rparr>)" using s(1) c by (simp_all add: soundWith_def flags_ok_def)
    show "sound ?p" by (rule flags_sound [OF s(1) f(1)]) simp_all
    show "sound (?p\<lparr>nt_insideCloseCallback := True\<rparr>)" by (rule flags_sound [OF s(1) f(2)]) simp_all
  qed
  have p: "settles t ?p"
    by (rule settles_cong [OF settles_refl [of t]])
      (use sound_p(1) s(2) in \<open>simp_all add: quiet_def bounded_def backpressureExceeded_def lifetime_def\<close>)
  show ?thesis
  proof (cases "nt_environmentCleaning t")
    case True
    have "nt_destroyRequested t" using assms(3) True by (simp add: resting_def lifetime_def)
    then have "follows ?p (nt_delete ?U ?p)" using c s(2) by (intro calls.nt_delete_follows) (simp_all add: undeleted_def)
    with True settles_trans [OF p follows_settles] show ?thesis by (simp add: onPollClosed_def)
  next
    case False
    let ?i = "?p\<lparr>nt_insideCloseCallback := True\<rparr>"
    obtain ok u where u: "callOwner ?U OnClosed ?i = (ok, u)" by (cases rule: prod.exhaust)
    have f: "follows ?i u" by (rule calls.callOwner_follows [OF _ u]) simp
    let ?v = "u\<lparr>nt_insideCloseCallback := False\<rparr>"
    have "undeleted ?i" using c assms(2) s(1) by (simp add: undeleted_def soundWith_def flags_ok_def)
    then have u': "nt_pollClosed u" "nt_closing u" using f c by (simp_all add: follows_def lives_def frozen_def)
    have su: "sound u" "quiet u" using f sound_p(2) assms(3) by (simp_all add: follows_def keeps_def resting_def quiet_def)
    have v: "settles t ?v"
    proof -
      have "flags_ok ?v" using su(1) by (simp add: soundWith_def flags_ok_def)
      with su(1) have "sound ?v" by (rule flags_sound) simp_all
      moreover have "quiet ?v" "bounded ?v" using su(2) u' by (simp_all add: quiet_def bounded_def)
      moreover have "lifetime t \<longrightarrow> lifetime ?v" using follows_lifetime [OF f sound_p(2)] u' by (simp add: lifetime_def)
      moreover have "effects ?v = effects t" using f c by (simp add: follows_def frozen_def effects_def)
      ultimately show ?thesis using f u' by (simp add: settles_def resting_def follows_def static_def)
    qed
    have "follows ?v (nt_delete ?U ?v)" if "nt_destroyRequested ?v"
      using that u' by (intro calls.nt_delete_follows) (simp_all add: undeleted_def)
    from settles_trans [OF v follows_settles [OF this]] v u False show ?thesis by (simp add: onPollClosed_def Let_def)
  qed
qed

lemma beginEnvironmentCleanup_settles:
  assumes "resting t"
  shows "settles t (beginEnvironmentCleanup (upcallsAt E depth) t)"
proof -
  let ?U = "upcallsAt E depth"
  let ?e = "t\<lparr>nt_environmentCleaning := True, nt_destroyRequested := True, nt_session := False\<rparr>"
  have e: "settles t ?e"
  proof (rule settles_cong [OF settles_refl [of t]])
    have h: "nt_history ?e = nt_history t" by simp
    have "gone_ok ?e = gone_ok t" by (rule gone_same) simp_all
    then show "sound t \<longrightarrow> sound ?e"
      by (simp add: soundWith_def queue_ok_def bytes_ok_def cipher_ok_def calls_ok_def flags_ok_def logged_eq [OF h])
  qed (simp_all add: quiet_def bounded_def backpressureExceeded_def lifetime_def)
  let ?c = "closeNow ?U UV_ECANCELED ?e"
  have c: "settles t ?c" using settles_trans [OF e follows_settles [OF calls.closeNow_ok(1)]] .
  have r: "resting ?c" "nt_closing ?c" using c assms calls.closeNow_ok(2) by (simp_all add: settles_def)
  have "nt_destroyRequested ?c" using calls.closeNow_ok(1) [where t = ?e] by (simp add: follows_def static_def)
  then have "follows ?c (nt_delete ?U ?c)" if "\<not> nt_pollInitialized ?c \<or> nt_pollClosed ?c"
    using that r by (intro calls.nt_delete_follows) (auto simp: undeleted_def resting_def soundWith_def flags_ok_def)
  from this c settles_trans [OF c follows_settles] show ?thesis by (simp add: beginEnvironmentCleanup_def Let_def)
qed

lemma feed_follows: "nt_active t \<Longrightarrow> follows t (snd (feed E (upcallsAt E depth) dat t))"
proof -
  assume a: "nt_active t"
  obtain ok u where u: "nt_consume E (upcallsAt E depth) dat t = (ok, u)" by (cases rule: prod.exhaust)
  with calls.nt_consume_steady [OF a u] show ?thesis by (simp add: feed_def steady_def)
qed

lemma takeStep_settles:
  assumes "resting t"
  shows "settles t (takeStep E (upcallsAt E depth) s t)"
proof (cases s)
  case (Poll error reading writing)
  then show ?thesis using follows_settles [OF calls.nt_poll_follows] by (auto simp: takeStep_def settles_refl)
next
  case (Feed dat)
  then show ?thesis using follows_settles [OF feed_follows] by (auto simp: takeStep_def settles_refl)
next
  case (Act a)
  then show ?thesis using follows_settles [OF calls.perform_follows] by (auto simp: takeStep_def settles_refl)
qed (use assms activate_settles onPollClosed_settles beginEnvironmentCleanup_settles settles_refl in \<open>auto simp: takeStep_def\<close>)

lemma life_settles: "resting t \<Longrightarrow> settles t (life E depth steps t)"
proof (induction steps arbitrary: t)
  case (Cons s steps)
  note s = takeStep_settles [OF Cons.prems, of E depth s]
  then have "resting (takeStep E (upcallsAt E depth) s t)" using Cons.prems by (simp add: settles_def)
  from settles_trans [OF s Cons.IH [OF this]] show ?case by (simp add: life_def)
qed (simp add: life_def settles_refl)

lemma new_resting: "resting (newNativeTransport ssl session textAsBuffer maxBackpressure bio io reactions)"
proof -
  have "gone_ok (newNativeTransport ssl session textAsBuffer maxBackpressure bio io reactions)"
    unfolding gone_ok_def by (intro impI exI [of _ "[]"] exI [of _ "[Ciphertext bio]"]) (simp add: newNativeTransport_def logged_def)
  then show ?thesis
    by (simp add: newNativeTransport_def resting_def soundWith_def queue_ok_def bytes_ok_def cipher_ok_def calls_ok_def flags_ok_def
      quiet_def bounded_def lifetime_def backpressureExceeded_def logged_def counted_def)
qed
lemma new_fields [simp]:
  "nt_ssl (newNativeTransport ssl session textAsBuffer maxBackpressure bio io reactions) = ssl"
  "nt_maxBackpressure (newNativeTransport ssl session textAsBuffer maxBackpressure bio io reactions) = maxBackpressure"
  by (simp_all add: newNativeTransport_def)

text \<open>Every state that a connection reaches.\<close>

lemma reached_resting:
  "resting (life E depth steps (newNativeTransport ssl session textAsBuffer maxBackpressure bio io reactions))"
  "nt_ssl (life E depth steps (newNativeTransport ssl session textAsBuffer maxBackpressure bio io reactions)) = ssl"
  "nt_maxBackpressure (life E depth steps (newNativeTransport ssl session textAsBuffer maxBackpressure bio io reactions)) = maxBackpressure"
  using life_settles [OF new_resting [of ssl session textAsBuffer maxBackpressure bio io reactions], of E depth steps]
  by (simp_all add: settles_def new_resting)

lemma resting_facts:
  assumes "resting t"
  shows "if nt_closing t then prefix (logged (passedBy (nt_ssl t)) t) (logged submittedBy t) \<and> nt_queue t = []
      else logged submittedBy t = logged (passedBy (nt_ssl t)) t @ concat (map remaining (requests t))"
    "nt_ssl t \<Longrightarrow> Broken \<in> set (nt_history t) \<or> (if nt_closing t then prefix (logged sentBy t) (logged ciphertextBy t)
      else logged ciphertextBy t = logged sentBy t @ drop (nt_tlsCiphertextOffset t) (nt_tlsCiphertext t) @ nt_writeBIO t)"
    "if nt_closing t then bufferedAmount t = 0
      else length (logged submittedBy t) + nt_tlsCommittedPlaintext t = length (logged (passedBy (nt_ssl t)) t) + bufferedAmount t \<and>
        (if nt_ssl t
         then Broken \<in> set (nt_history t) \<or> (\<exists>before after. nt_history t = before @ after \<and>
           length (concat (map (passedBy True) before)) + bufferedAmount t = length (logged submittedBy t) \<and>
           prefix (concat (map ciphertextBy before)) (logged sentBy t))
         else nt_tlsCommittedPlaintext t = 0)"
    "nt_environmentCleaning t \<or> mset (logged promisedBy t) = mset (logged answeredBy t) +
      (if nt_closing t then {#} else mset (concat (map callbacksOf (requests t))))"
    "nt_closing t \<or> nt_maxBackpressure t = 0 \<or> bufferedAmount t \<le> nt_maxBackpressure t"
proof -
  have s: "queue_ok t" "bytes_ok (nt_tlsCommittedPlaintext t) t" "cipher_ok t" "calls_ok t" "nt_closing t \<Longrightarrow> nt_queue t = []" "bounded t"
    "gone_ok t" "flags_ok t"
    using assms by (simp_all add: resting_def soundWith_def quiet_def)
  show "if nt_closing t then prefix (logged (passedBy (nt_ssl t)) t) (logged submittedBy t) \<and> nt_queue t = []
      else logged submittedBy t = logged (passedBy (nt_ssl t)) t @ concat (map remaining (requests t))"
    using s(2,5) by (simp add: bytes_ok_def split: if_splits)
  show "Broken \<in> set (nt_history t) \<or> (if nt_closing t then prefix (logged sentBy t) (logged ciphertextBy t)
      else logged ciphertextBy t = logged sentBy t @ drop (nt_tlsCiphertextOffset t) (nt_tlsCiphertext t) @ nt_writeBIO t)" if "nt_ssl t"
    using s(3) that by (auto simp: cipher_ok_def)
  have p: "nt_pendingBytes t = sum_list (map wr_remainingBytes (requests t))" using s(1) by (simp add: queue_ok_def)
  show "if nt_closing t then bufferedAmount t = 0
      else length (logged submittedBy t) + nt_tlsCommittedPlaintext t = length (logged (passedBy (nt_ssl t)) t) + bufferedAmount t \<and>
        (if nt_ssl t
         then Broken \<in> set (nt_history t) \<or> (\<exists>before after. nt_history t = before @ after \<and>
           length (concat (map (passedBy True) before)) + bufferedAmount t = length (logged submittedBy t) \<and>
           prefix (concat (map ciphertextBy before)) (logged sentBy t))
         else nt_tlsCommittedPlaintext t = 0)"
  proof (cases "nt_closing t")
    case True
    with s(5) p show ?thesis by (simp add: bufferedAmount_def)
  next
    case False
    then have "counted (nt_tlsCommittedPlaintext t) (requests t)" using s(2) by (simp add: bytes_ok_def)
    with False s(2) p counted_sum [OF this]
    have "length (logged submittedBy t) + nt_tlsCommittedPlaintext t = length (logged (passedBy (nt_ssl t)) t) + nt_pendingBytes t"
      by (simp add: bytes_ok_def)
    moreover have "\<not> nt_ssl t \<longrightarrow> nt_tlsCommittedPlaintext t = 0" using s(8) by (simp add: flags_ok_def)
    ultimately show ?thesis using False s(7) [unfolded gone_ok_def] unfolding bufferedAmount_def by auto
  qed
  show "nt_environmentCleaning t \<or> mset (logged promisedBy t) = mset (logged answeredBy t) +
      (if nt_closing t then {#} else mset (concat (map callbacksOf (requests t))))"
    using s(4,5) by (auto simp: calls_ok_def)
  show "nt_closing t \<or> nt_maxBackpressure t = 0 \<or> bufferedAmount t \<le> nt_maxBackpressure t"
    using s(6) by (auto simp: bounded_def backpressureExceeded_def bufferedAmount_def)
qed

section \<open>Properties\<close>

text \<open>
  C3: in every life of a connection, however the socket and OpenSSL cut up what they are given and whatever
  JavaScript does in its callbacks, what went out of the requests is what was submitted, in order, without
  loss or repetition: the rest is exactly what the queue still holds, or was dropped by closing.
\<close>

theorem bytes_in_order:
  "let final = life E depth steps (newNativeTransport ssl session textAsBuffer maxBackpressure bio io reactions)
   in if nt_closing final
      then prefix (logged (passedBy ssl) final) (logged submittedBy final) \<and> nt_queue final = []
      else logged submittedBy final = logged (passedBy ssl) final @ concat (map remaining (requests final))"
  using resting_facts(1) [OF reached_resting(1) [of E depth steps ssl session textAsBuffer maxBackpressure bio io reactions]]
  by (simp only: reached_resting Let_def simp_thms)

text \<open>
  C14: over TLS, the ciphertext leaves in the order in which OpenSSL produced it; what is not sent is kept,
  first in \<open>tlsCiphertext_\<close>, then in the write BIO. Only a socket that fails loses some.
\<close>

theorem ciphertext_in_order:
  "let final = life E depth steps (newNativeTransport True session textAsBuffer maxBackpressure bio io reactions)
   in Broken \<in> set (nt_history final) \<or>
      (if nt_closing final then prefix (logged sentBy final) (logged ciphertextBy final)
       else logged ciphertextBy final =
         logged sentBy final @ drop (nt_tlsCiphertextOffset final) (nt_tlsCiphertext final) @ nt_writeBIO final)"
  using resting_facts(2) [OF reached_resting(1) [of E depth steps True session textAsBuffer maxBackpressure bio io reactions]]
  by (simp only: reached_resting Let_def simp_thms)

text \<open>
  C17: \<open>bufferedAmount\<close> is exact. Over TCP it is the bytes submitted less those the socket took. Over TLS it also
  counts what OpenSSL took but the socket has not (\<open>tlsCommittedPlaintext_\<close>): what it no longer counts is gone,
  for there was a moment (\<open>before\<close>) up to which exactly so much had been encrypted, and all ciphertext of up to
  then has been sent, unless the socket failed. A closing transport counts nothing.
\<close>

theorem bufferedAmount_exact:
  "let final = life E depth steps (newNativeTransport ssl session textAsBuffer maxBackpressure bio io reactions)
   in if nt_closing final then bufferedAmount final = 0
      else length (logged submittedBy final) + nt_tlsCommittedPlaintext final =
          length (logged (passedBy ssl) final) + bufferedAmount final \<and>
        (if ssl
         then Broken \<in> set (nt_history final) \<or> (\<exists>before after. nt_history final = before @ after \<and>
           length (concat (map (passedBy True) before)) + bufferedAmount final = length (logged submittedBy final) \<and>
           prefix (concat (map ciphertextBy before)) (logged sentBy final))
         else nt_tlsCommittedPlaintext final = 0)"
  using resting_facts(3) [OF reached_resting(1) [of E depth steps ssl session textAsBuffer maxBackpressure bio io reactions]]
  by (simp only: reached_resting Let_def simp_thms)

text \<open>
  C13: between two steps of the event loop no open transport holds more than \<open>maxBackpressure_\<close> bytes
  (0 means that there is no limit).
\<close>

theorem backpressure_bound:
  "let final = life E depth steps (newNativeTransport ssl session textAsBuffer maxBackpressure bio io reactions)
   in nt_closing final \<or> maxBackpressure = 0 \<or> bufferedAmount final \<le> maxBackpressure"
  using resting_facts(5) [OF reached_resting(1) [of E depth steps ssl session textAsBuffer maxBackpressure bio io reactions]]
  by (simp only: reached_resting Let_def simp_thms)

text \<open>
  C18: closing is final. Whatever happens afterwards, a closed transport stays closed with an empty queue, and
  nothing more is submitted, encrypted, sent or promised; only JavaScript is still called, and its writes refused.
\<close>

theorem closed_is_final:
  assumes "now = life E depth steps (newNativeTransport ssl session textAsBuffer maxBackpressure bio io reactions)" "nt_closing now"
  shows "nt_closing (life E depth later now) \<and> nt_queue (life E depth later now) = [] \<and>
    effects (life E depth later now) = effects now"
proof -
  have r: "resting now" unfolding assms(1) by (rule reached_resting)
  from life_settles [OF this, of E depth later] r assms(2) show ?thesis by (simp add: settles_def resting_def quiet_def)
qed

text \<open>
  C19: no operation of an active transport frees it, even if JavaScript asks for its destruction in a callback
  inside the operation: the code that follows the callback still finds its object. The destructor waits for
  \<open>onPollClosed\<close>.
\<close>

theorem active_never_freed:
  assumes "nt_active t" "nt_pollInitialized t" "\<not> nt_uvClosing t \<or> nt_closing t" "\<not> nt_deleted t" "\<not> nt_pollClosed t"
  shows "\<not> nt_deleted (nt_poll E (upcallsAt E depth) error reading writing t) \<and>
    \<not> nt_deleted (snd (feed E (upcallsAt E depth) dat t)) \<and> \<not> nt_deleted (perform E (upcallsAt E depth) a t) \<and>
    \<not> nt_deleted (flushWrites E (upcallsAt E depth) t) \<and> \<not> nt_deleted (closeNow (upcallsAt E depth) st t)"
proof -
  have "undeleted t" using assms by (auto simp: undeleted_def)
  then have kept: "follows t u \<Longrightarrow> \<not> nt_deleted u" for u by (simp add: follows_def lives_def undeleted_def)
  show ?thesis
    by (intro conjI kept calls.nt_poll_follows feed_follows calls.perform_follows calls.flushWrites_follows calls.closeNow_ok(1) assms(1))
qed

section \<open>A concrete connection\<close>

definition exampleHost :: "unit host" where
  "exampleHost = \<lparr>cpuOf = NoSimd, zlibOf = copyingZlib, maximumIOVectors = 16, strerror = (\<lambda>e. ''error''),
     uv_strerror = (\<lambda>st. ''error''), uninitialised = (\<lambda>n. 0), sslReadBIO = True, sslWriteBIO = True\<rparr>"

definition exampleTransport :: "answer list \<Rightarrow> (action list \<times> bool) list \<Rightarrow> unit NativeTransport" where
  "exampleTransport io reactions = newNativeTransport False
     (newSession copyingZlib 0 15 100 None [0, 0, 0, 0] (replicate 27 0)) False 1000 [] io reactions"

lemma closed_is_final_witness:
  "nt_queue (life exampleHost 2 [Poll None True True, Act (WriteFrame (JsString [1, 2, 3]) JsUndefined)]
     (life exampleHost 2 [Activate, Act Terminate] (exampleTransport [Done 0 [] [], Done 1 [] []] []))) = []"
proof -
  have "nt_closing (life exampleHost 2 [Activate, Act Terminate] (exampleTransport [Done 0 [] [], Done 1 [] []] []))"
    by code_simp
  from closed_is_final [OF refl this [unfolded exampleTransport_def]] show ?thesis
    unfolding exampleTransport_def by simp
qed

lemma active_never_freed_witness:
  "\<not> nt_deleted (perform exampleHost (upcallsAt exampleHost 1) Destroy
     (life exampleHost 2 [Activate] (exampleTransport [Done 0 [] [], Done 1 [] []] [])))"
proof -
  let ?t = "life exampleHost 2 [Activate] (exampleTransport [Done 0 [] [], Done 1 [] []] [])"
  have "nt_active ?t \<and> nt_pollInitialized ?t \<and> \<not> nt_uvClosing ?t \<and> \<not> nt_deleted ?t \<and> \<not> nt_pollClosed ?t"
    by code_simp
  then show ?thesis using active_never_freed [of ?t] by blast
qed

end
