(* ===== verification/Transport_Callbacks.thy ===== *)
theory Transport_Callbacks
  imports Transport_Safety
begin

text \<open>
  What a write tells JavaScript against what becomes of its callback: a write with a callback returns
  \<open>WRITE_ASYNCHRONOUS\<close> exactly when its request was deferred, so that the callback will be called. The
  operations are followed once more, for the keys of the queue and the balance of promises and returns.
\<close>

section \<open>Requests and what they answer\<close>

definition same_answer :: "WriteRequest \<Rightarrow> WriteRequest \<Rightarrow> bool" where
  "same_answer r r' \<longleftrightarrow> wr_callbackValue r' = wr_callbackValue r \<and> wr_deferred r' = wr_deferred r"

lemma same_answer_refl [simp]: "same_answer r r"
  by (simp add: same_answer_def)

lemma same_answer_trans [trans]: "same_answer r r' \<Longrightarrow> same_answer r' r'' \<Longrightarrow> same_answer r r''"
  by (simp add: same_answer_def)

lemma answer_fields [simp]:
  "same_answer r (r'\<lparr>wr_inlineParts := ps\<rparr>) = same_answer r r'" "same_answer r (r'\<lparr>wr_extraParts := ps\<rparr>) = same_answer r r'"
  "same_answer r (r'\<lparr>wr_inlineBytes := bs\<rparr>) = same_answer r r'" "same_answer r (r'\<lparr>wr_partCount := n\<rparr>) = same_answer r r'"
  "same_answer r (r'\<lparr>wr_bytes := n\<rparr>) = same_answer r r'" "same_answer r (r'\<lparr>wr_sent := n\<rparr>) = same_answer r r'"
  "same_answer r (r'\<lparr>wr_cursorPart := n\<rparr>) = same_answer r r'" "same_answer r (r'\<lparr>wr_cursorOffset := n\<rparr>) = same_answer r r'"
  by (simp_all add: same_answer_def)

lemma answer_parts [simp]:
  "same_answer r (setPart i p r') = same_answer r r'" "same_answer r (appendPart r') = same_answer r r'"
  "same_answer r (removeLastPart r') = same_answer r r'"
  by (simp_all add: setPart_def appendPart_def removeLastPart_def Let_def)

lemma answer_fold [simp]: "same_answer r (fold (\<lambda>i. setPart i emptyPart) is r') = same_answer r r'"
  by (induction "is" arbitrary: r') simp_all

lemma answer_clear [simp]: "same_answer r (clearParts r') = same_answer r r'"
  by (simp add: clearParts_def Let_def)

lemma answer_addOwned [simp]: "same_answer r (addOwned v r') = same_answer r r'"
  by (simp add: addOwned_def Let_def)

lemma answer_addInput [simp]: "same_answer r (snd (addInput v r')) = same_answer r r'"
  by (simp add: addInput_def addPart_def Let_def split_beta)

lemma answer_addText [simp]: "same_answer r (snd (addTextInput v r')) = same_answer r r'"
  by (simp add: addTextInput_def addPart_def Let_def split_beta)

lemma answer_smallText [simp]: "same_answer r (fst (snd (addSmallTextFrame v opc r'))) = same_answer r r'"
  by (simp add: addSmallTextFrame_def Let_def split_beta split: jsValue.split)

lemma answer_addInputs: "same_answer r r' \<Longrightarrow> same_answer r (snd (addInputs vs r'))"
  by (induction vs arbitrary: r') (simp_all add: Let_def split_beta)

lemma answer_prepend: "prependOwned v r' = Some r'' \<Longrightarrow> same_answer r r'' = same_answer r r'"
  by (auto simp: prependOwned_def split: if_splits option.splits)

lemma answer_skip [simp]: "same_answer r (skipEmptyParts r') = same_answer r r'"
proof (induction r' rule: skipEmptyParts.induct)
  case (1 r')
  then show ?case by (subst skipEmptyParts.simps) simp
qed

lemma answer_cursor [simp]: "same_answer r (advanceCursor n r') = same_answer r r'"
proof (induction n r' rule: advanceCursor.induct)
  case (1 n r')
  then show ?case by (subst advanceCursor.simps) (simp add: Let_def)
qed

lemma answer_sending [simp]:
  "same_answer r (advance n r') = same_answer r r'" "same_answer r (stageTLS n r') = same_answer r r'"
  "same_answer r (commitTLS n r') = same_answer r r'"
  by (simp_all add: advance_def stageTLS_def commitTLS_def)

lemma answer_prepareParts [simp]: "same_answer r (snd (prepareParts is r')) = same_answer r r'"
  by (induction "is" arbitrary: r') (simp_all add: Let_def)

lemma answer_prepare [simp]: "same_answer r (snd (prepare r')) = same_answer r r'"
  by (simp add: prepare_def Let_def split_beta)

lemma answer_copyInline [simp]: "same_answer r (snd (copyInline is k r')) = same_answer r r'"
  by (induction "is" arbitrary: k r') (simp_all add: Let_def)

lemma answer_flatten [simp]: "same_answer r (snd (flatten r')) = same_answer r r'"
  by (simp add: flatten_def Let_def split_beta)

lemma answer_restore: "restoreParts skip ps r' = Some r'' \<Longrightarrow> same_answer r r'' = same_answer r r'"
proof (induction ps arbitrary: skip r')
  case (Cons p ps)
  show ?case
  proof (cases "skip \<ge> ip_length p")
    case True
    with Cons show ?thesis by simp
  next
    case False
    with Cons.prems obtain i q where "restoreParts 0 ps (setPart i q (appendPart r')) = Some r''"
      by (auto simp: Let_def split: option.splits)
    from Cons.IH [OF this] show ?thesis by simp
  qed
qed simp

lemma answer_joinParts: "joinParts r' = Some (ok, r'') \<Longrightarrow> same_answer r r'' = same_answer r r'"
proof -
  have "prepare z = (ok, r'') \<Longrightarrow> same_answer r r'' = same_answer r z" for z using answer_prepare [of r z] by simp
  moreover have "flatten z = (ok, r'') \<Longrightarrow> same_answer r r'' = same_answer r z" for z using answer_flatten [of r z] by simp
  moreover assume "joinParts r' = Some (ok, r'')"
  ultimately show ?thesis
    by (auto simp: joinParts_def coalescePrefix_def Let_def split_beta dest!: answer_restore [of _ _ _ _ r] split: if_splits)
qed

section \<open>The relation\<close>

definition keyed :: "'z NativeTransport \<Rightarrow> bool" where
  "keyed t \<longleftrightarrow> (\<forall>(k, r) \<in> set (nt_queue t). k < nt_fresh t)"

text \<open>
  New requests have new keys, the older ones in the queue still answer what they did, and promises and
  returns have grown alike but for the promises \<open>fs\<close>.
\<close>

definition kept_but :: "nat list \<Rightarrow> 'z NativeTransport \<Rightarrow> 'z NativeTransport \<Rightarrow> bool" where
  "kept_but fs t t' \<longleftrightarrow> (keyed t \<longrightarrow> keyed t' \<and> nt_fresh t \<le> nt_fresh t' \<and>
     (\<forall>(k, r') \<in> set (nt_queue t'). k < nt_fresh t \<longrightarrow> (\<exists>r. (k, r) \<in> set (nt_queue t) \<and> same_answer r r')) \<and>
     mset (logged promisedBy t') + mset (logged returnedBy t) = mset (logged promisedBy t) + mset (logged returnedBy t') + mset fs)"

abbreviation kept :: "'z NativeTransport \<Rightarrow> 'z NativeTransport \<Rightarrow> bool" where
  "kept \<equiv> kept_but []"

lemma kept_refl [simp]: "kept t t"
  by (auto simp: kept_but_def)

lemma kept_but_trans:
  assumes "kept_but fs t u" "kept_but gs u v"
  shows "kept_but (fs @ gs) t v"
  unfolding kept_but_def
proof (intro impI conjI ballI, goal_cases)
  case 1
  with assms show ?case by (simp add: kept_but_def)
next
  case 2
  with assms show ?case by (simp add: kept_but_def)
next
  case (3 x)
  obtain k r where x: "x = (k, r)" by (cases x)
  {
    assume k: "k < nt_fresh t"
    have u: "keyed u" "nt_fresh t \<le> nt_fresh u" using 3 assms(1) by (simp_all add: kept_but_def)
    with 3 assms(2) k x obtain r1 where "(k, r1) \<in> set (nt_queue u)" "same_answer r1 r" by (fastforce simp: kept_but_def)
    moreover from this 3 assms(1) k obtain r0 where "(k, r0) \<in> set (nt_queue t)" "same_answer r0 r1" by (fastforce simp: kept_but_def)
    ultimately have "\<exists>r0. (k, r0) \<in> set (nt_queue t) \<and> same_answer r0 r" by (blast intro: same_answer_trans)
  }
  with x show ?case by simp
next
  case 4
  then have u: "keyed u" using assms(1) by (simp add: kept_but_def)
  have a: "mset (logged promisedBy u) + mset (logged returnedBy t) = mset (logged promisedBy t) + mset (logged returnedBy u) + mset fs"
    using 4 assms(1) by (simp add: kept_but_def)
  have b: "mset (logged promisedBy v) + mset (logged returnedBy u) = mset (logged promisedBy u) + mset (logged returnedBy v) + mset gs"
    using u assms(2) by (simp add: kept_but_def)
  show ?case
  proof (rule multiset_eqI)
    fix x
    show "count (mset (logged promisedBy v) + mset (logged returnedBy t)) x =
        count (mset (logged promisedBy t) + mset (logged returnedBy v) + mset (fs @ gs)) x"
      using arg_cong [OF a, of "\<lambda>m. count m x"] arg_cong [OF b, of "\<lambda>m. count m x"] by simp
  qed
qed

lemma kept_trans: "kept_but fs t u \<Longrightarrow> kept u v \<Longrightarrow> kept_but fs t v"
  using kept_but_trans [of fs t u "[]" v] by simp

lemma kept_same:
  "nt_queue u = nt_queue t \<Longrightarrow> nt_fresh u = nt_fresh t \<Longrightarrow> nt_history u = nt_history t \<Longrightarrow> kept_but fs s u = kept_but fs s t"
  by (simp add: kept_but_def keyed_def logged_def)

lemma kept_fields [simp]:
  "kept_but fs s (t\<lparr>nt_ssl := x0\<rparr>) = kept_but fs s t" "kept_but fs s (t\<lparr>nt_textAsBuffer := x1\<rparr>) = kept_but fs s t"
  "kept_but fs s (t\<lparr>nt_maxBackpressure := x2\<rparr>) = kept_but fs s t" "kept_but fs s (t\<lparr>nt_sessionObject := x3\<rparr>) = kept_but fs s t"
  "kept_but fs s (t\<lparr>nt_session := x4\<rparr>) = kept_but fs s t" "kept_but fs s (t\<lparr>nt_descriptor := x5\<rparr>) = kept_but fs s t"
  "kept_but fs s (t\<lparr>nt_nodeBIOs := x6\<rparr>) = kept_but fs s t" "kept_but fs s (t\<lparr>nt_writeBIO := x7\<rparr>) = kept_but fs s t"
  "kept_but fs s (t\<lparr>nt_pendingBytes := x8\<rparr>) = kept_but fs s t" "kept_but fs s (t\<lparr>nt_pollEvents := x9\<rparr>) = kept_but fs s t"
  "kept_but fs s (t\<lparr>nt_tlsCiphertext := x10\<rparr>) = kept_but fs s t" "kept_but fs s (t\<lparr>nt_tlsCiphertextOffset := x11\<rparr>) = kept_but fs s t"
  "kept_but fs s (t\<lparr>nt_tlsCommittedPlaintext := x12\<rparr>) = kept_but fs s t" "kept_but fs s (t\<lparr>nt_pendingCloseReason := x13\<rparr>) = kept_but fs s t"
  "kept_but fs s (t\<lparr>nt_pendingCloseCode := x14\<rparr>) = kept_but fs s t" "kept_but fs s (t\<lparr>nt_active := x15\<rparr>) = kept_but fs s t"
  "kept_but fs s (t\<lparr>nt_pollInitialized := x16\<rparr>) = kept_but fs s t" "kept_but fs s (t\<lparr>nt_uvClosing := x17\<rparr>) = kept_but fs s t"
  "kept_but fs s (t\<lparr>nt_pollClosed := x18\<rparr>) = kept_but fs s t" "kept_but fs s (t\<lparr>nt_insideCloseCallback := x19\<rparr>) = kept_but fs s t"
  "kept_but fs s (t\<lparr>nt_closing := x20\<rparr>) = kept_but fs s t" "kept_but fs s (t\<lparr>nt_destroyRequested := x21\<rparr>) = kept_but fs s t"
  "kept_but fs s (t\<lparr>nt_flushingWrites := x22\<rparr>) = kept_but fs s t" "kept_but fs s (t\<lparr>nt_reportingError := x23\<rparr>) = kept_but fs s t"
  "kept_but fs s (t\<lparr>nt_pendingClose := x24\<rparr>) = kept_but fs s t" "kept_but fs s (t\<lparr>nt_gracefulCloseRequested := x25\<rparr>) = kept_but fs s t"
  "kept_but fs s (t\<lparr>nt_tlsWriteBlockedOnRead := x26\<rparr>) = kept_but fs s t" "kept_but fs s (t\<lparr>nt_tlsShutdownPending := x27\<rparr>) = kept_but fs s t"
  "kept_but fs s (t\<lparr>nt_tlsShutdownGenerated := x28\<rparr>) = kept_but fs s t" "kept_but fs s (t\<lparr>nt_tlsProcessingInput := x29\<rparr>) = kept_but fs s t"
  "kept_but fs s (t\<lparr>nt_environmentCleaning := x30\<rparr>) = kept_but fs s t" "kept_but fs s (t\<lparr>nt_deleted := x31\<rparr>) = kept_but fs s t"
  "kept_but fs s (t\<lparr>nt_io := x32\<rparr>) = kept_but fs s t" "kept_but fs s (t\<lparr>nt_reactions := x33\<rparr>) = kept_but fs s t"
  by (rule kept_same; simp)+

lemma kept_happen [simp]:
  "promisedBy h = [] \<Longrightarrow> returnedBy h = [] \<Longrightarrow> kept_but fs s (happen h t) = kept_but fs s t"
  by (simp add: kept_but_def keyed_def)

lemma kept_answer [simp]: "kept_but fs s (snd (nextAnswer t)) = kept_but fs s t"
  by (simp add: nextAnswer_def split: list.split)

lemma kept_sendRaw [simp]: "kept_but fs s (snd (sendRaw dat t)) = kept_but fs s t"
proof -
  obtain a u where "nextAnswer t = (a, u)" by (cases "nextAnswer t")
  with kept_answer [of fs s t] show ?thesis by (simp add: sendRaw_def split: answer.split)
qed

lemma kept_bioAppend [simp]: "kept_but fs s (bioAppend c t) = kept_but fs s t"
  by (simp add: bioAppend_def)

lemma kept_tl: "kept_but fs s t \<Longrightarrow> kept_but fs s (t\<lparr>nt_queue := tl (nt_queue t)\<rparr>)"
proof -
  have "set (tl (nt_queue t)) \<subseteq> set (nt_queue t)" by (cases "nt_queue t") auto
  moreover have "logged what (t\<lparr>nt_queue := tl (nt_queue t)\<rparr>) = logged what t" for what :: "happening \<Rightarrow> nat list" by (simp add: logged_def)
  ultimately show "kept_but fs s t \<Longrightarrow> ?thesis" by (auto simp: kept_but_def keyed_def)
qed

lemma kept_dequeue: "kept_but fs s t \<Longrightarrow> kept_but fs s (snd (dequeueWrite t))"
  by (simp add: dequeueWrite_def kept_tl)

lemma kept_setHead:
  assumes "kept_but fs s t" "nt_queue t \<noteq> []" "same_answer (snd (hd (nt_queue t))) r"
  shows "kept_but fs s (setHead r t)"
proof -
  obtain k r0 q where q: "nt_queue t = (k, r0) # q" using assms(2) by (cases "nt_queue t") auto
  have "logged what (setHead r t) = logged what t" for what :: "happening \<Rightarrow> nat list" by (simp add: setHead_def logged_def)
  then have "kept_but [] t (setHead r t)"
    using assms(3) by (auto simp: kept_but_def keyed_def setHead_def q)
  with assms(1) show ?thesis by (rule kept_trans)
qed

section \<open>The operations\<close>

text \<open>The contract of what the operations call.\<close>

locale recalling =
  fixes U :: "'z upcalls"
  assumes js_kept: "kept t (snd (up_js U call t))" and finish_kept: "kept t (up_finish U t)"
begin

lemma callOwner_kept: "kept s t \<Longrightarrow> kept s (snd (callOwner U call t))"
  using kept_trans [OF _ js_kept, of "[]" s "happen (Called call) t" call] by (simp add: callOwner_def)

lemma finishing_kept: "kept s t \<Longrightarrow> kept s (up_finish U t)"
  using kept_trans [OF _ finish_kept] .

lemma invoke_kept: "kept s t \<Longrightarrow> kept s (invokeWriteCallback U r st t)"
  by (simp add: invokeWriteCallback_def callOwner_kept split: option.split)

lemma completeHead_kept: "kept s t \<Longrightarrow> kept s (completeHeadWrite U st t)"
  by (simp add: completeHeadWrite_def split_beta invoke_kept kept_dequeue)

lemma cancelLoop_kept: "kept s t \<Longrightarrow> kept s (cancelLoop U st n t)"
  by (induction n arbitrary: t) (simp_all add: Let_def split_beta invoke_kept kept_dequeue)

lemma cancelWrites_kept: "kept s t \<Longrightarrow> kept s (cancelWrites U st t)"
  by (simp add: cancelWrites_def cancelLoop_kept)

lemma closeNow_kept: "kept s t \<Longrightarrow> kept s (closeNow U st t)"
  by (simp add: closeNow_def Let_def cancelWrites_kept)

lemma reportTransportError_kept: "kept s t \<Longrightarrow> kept s (reportTransportError U m t)"
  by (simp add: reportTransportError_def split_beta callOwner_kept)

lemma nt_fail_kept: "kept s t \<Longrightarrow> kept s (nt_fail U m t)"
  by (simp add: nt_fail_def closeNow_kept reportTransportError_kept)

lemma terminateForBackpressure_kept: "kept s t \<Longrightarrow> kept s (terminateForBackpressure U t)"
  by (simp add: terminateForBackpressure_def closeNow_kept callOwner_kept)

text \<open>Output that went on its way has left the queue as it was.\<close>

lemma drainBIO_kept:
  "U' = U \<Longrightarrow> kept s t \<Longrightarrow> kept s (snd (drainBIO E U' t)) \<and> (fst (drainBIO E U' t) \<longrightarrow> nt_queue (snd (drainBIO E U' t)) = nt_queue t)"
proof (induction E U' t rule: drainBIO.induct)
  case (1 E U' t)
  let ?batch = "take TLS_OUTPUT_BATCH_SIZE (nt_writeBIO t)"
  let ?t = "t\<lparr>nt_writeBIO := drop TLS_OUTPUT_BATCH_SIZE (nt_writeBIO t)\<rparr>"
  obtain res u where r: "sendRaw ?batch ?t = (res, u)" by (cases "sendRaw ?batch ?t")
  have u: "kept s u" using kept_sendRaw [of "[]" s ?batch ?t] r "1.prems"(2) by simp
  have q: "nt_queue u = nt_queue t" using sendRaw_fields [OF r] by (auto split: ioResult.splits)
  note IH = "1.IH" [OF _ refl refl r [symmetric] _ _ "1.prems"(1) u]
  show ?case
    using r u q IH "1.prems" by (cases res) (subst (1 2 3) drainBIO.simps, simp add: Let_def nt_fail_kept)+
qed

lemma flushMemoryBIOOutput_kept:
  "kept s t \<Longrightarrow> kept s (snd (flushMemoryBIOOutput E U t)) \<and>
     (fst (flushMemoryBIOOutput E U t) \<longrightarrow> nt_queue (snd (flushMemoryBIOOutput E U t)) = nt_queue t)"
proof -
  assume t: "kept s t"
  let ?out = "drop (nt_tlsCiphertextOffset t) (nt_tlsCiphertext t)"
  obtain res u where r: "sendRaw ?out t = (res, u)" by (cases "sendRaw ?out t")
  have u: "kept s u" using kept_sendRaw [of "[]" s ?out t] r t by simp
  have q: "nt_queue u = nt_queue t" using sendRaw_fields [OF r] by (auto split: ioResult.splits)
  show ?thesis
    using t u q r drainBIO_kept [OF refl t, of E] drainBIO_kept [OF refl, of s "u\<lparr>nt_tlsCiphertextOffset := x\<rparr>" E for x]
      drainBIO_kept [OF refl, of s "u\<lparr>nt_tlsCiphertextOffset := x, nt_tlsCiphertext := y, nt_tlsCiphertextOffset := z\<rparr>" E for x y z]
    by (auto simp: flushMemoryBIOOutput_def Let_def nt_fail_kept split: ioResult.split)
qed

end

lemma stageLoop_kept: "kept s t \<Longrightarrow> nt_queue t \<noteq> [] \<Longrightarrow> kept s (snd (stageLoop m t)) \<and> nt_queue (snd (stageLoop m t)) \<noteq> []"
proof (induction m t rule: stageLoop.induct)
  case (1 m t)
  let ?r = "snd (hd (nt_queue t))"
  obtain a u where a: "nextAnswer t = (a, u)" by (cases "nextAnswer t")
  have u: "kept s u" using kept_answer [of "[]" s t] a "1.prems"(1) by simp
  have q: "nt_queue u = nt_queue t" using nextAnswer_fields [OF a] by auto
  show ?case
  proof (cases "(\<exists>n bs c. a = Done n bs c \<and> min n (min (remainingPartBytes ?r) m) \<noteq> 0) \<and>
      \<not> (unstagedBytes (nt_tlsCommittedPlaintext t) ?r = 0 \<or> m = 0)")
    case True
    then obtain n bs c where n: "a = Done n bs c" "min n (min (remainingPartBytes ?r) m) \<noteq> 0"
      "\<not> (unstagedBytes (nt_tlsCommittedPlaintext t) ?r = 0 \<or> m = 0)" by blast
    let ?n = "min n (min (remainingPartBytes ?r) m)"
    let ?e = "happen (Encrypted (take ?n (remainingData ?r))) (bioAppend c u)"
    let ?v = "(setHead (stageTLS ?n ?r) ?e)\<lparr>nt_tlsWriteBlockedOnRead := False,
       nt_tlsCommittedPlaintext := nt_tlsCommittedPlaintext ?e + ?n\<rparr>"
    have v: "kept s ?v" using u q "1.prems"(2) by (simp add: kept_setHead)
    have "nt_queue ?v \<noteq> []" by (simp add: setHead_def)
    moreover have "stageLoop m t = stageLoop (m - ?n) ?v" 
      using n(2,3) unfolding stageLoop.simps [of m t] Let_def a prod.case n(1) answer.case by (simp only: if_False)
    moreover note "1.IH" [OF refl n(3) refl a [symmetric] n(1) refl refl n(2) refl refl v]
    ultimately show ?thesis by simp
  next
    case False
    then show ?thesis
      using u q a "1.prems" by (subst (1 2) stageLoop.simps) (auto simp: Let_def split: answer.split)
  qed
qed

context recalling
begin

lemma takeCommitted_kept:
  "kept s t \<Longrightarrow> kept s (snd (takeCommitted E U t)) \<and>
     (\<forall>n. fst (takeCommitted E U t) = Wrote n \<longrightarrow> nt_queue (snd (takeCommitted E U t)) = nt_queue t)"
  using flushMemoryBIOOutput_kept [of s t E]
  by (cases "flushMemoryBIOOutput E U t") (auto simp: takeCommitted_def split: bool.split)

lemma writeTLS_kept:
  assumes t: "kept s t" "nt_queue t \<noteq> []"
  shows "kept s (snd (writeTLS E U t)) \<and> (\<forall>n. fst (writeTLS E U t) = Wrote n \<longrightarrow> nt_queue (snd (writeTLS E U t)) \<noteq> [])"
proof -
  obtain ok u where u: "stageLoop TLS_PLAINTEXT_BATCH_SIZE t = (ok, u)" by (cases "stageLoop TLS_PLAINTEXT_BATCH_SIZE t")
  have k: "kept s u" "nt_queue u \<noteq> []" using stageLoop_kept [OF t, of TLS_PLAINTEXT_BATCH_SIZE] u by simp_all
  obtain ok' v where v: "flushMemoryBIOOutput E U u = (ok', v)" by (cases "flushMemoryBIOOutput E U u")
  show ?thesis
    using t k u v takeCommitted_kept [OF t(1), of E] takeCommitted_kept [OF k(1), of E] flushMemoryBIOOutput_kept [OF k(1), of E]
    by (auto simp: writeTLS_def split: bool.split)
qed

lemma flushLoop_kept: "kept s t \<Longrightarrow> kept s (snd (flushLoop E U fuel t))"
proof (induction fuel arbitrary: t)
  case (Suc fuel)
  show ?case
  proof (cases "nt_queue t = [] \<or> nt_closing t")
    case True
    with Suc.prems show ?thesis by auto
  next
    case False
    obtain res u where r: "(if nt_ssl t then writeTLS E U t else writeTCP E (snd (hd (nt_queue t))) t) = (res, u)"
      by (cases rule: prod.exhaust)
    have u: "kept s u \<and> (\<forall>n. res = Wrote n \<longrightarrow> nt_queue u \<noteq> [])"
    proof (cases "nt_ssl t")
      case True
      with r writeTLS_kept [OF Suc.prems, of E] False show ?thesis by simp
    next
      case tcp: False
      let ?v = "concat (remainingIovecs (maximumIOVectors E) (snd (hd (nt_queue t))))"
      have "sendRaw ?v t = (res, u)" using r tcp by (simp add: writeTCP_def)
      with kept_sendRaw [of "[]" s ?v t] sendRaw_fields [of ?v t res u] Suc.prems False show ?thesis
        by (auto split: ioResult.splits)
    qed
    show ?thesis
    proof (cases "\<exists>n. res = Wrote n \<and> n \<noteq> 0")
      case True
      then obtain n where n: "res = Wrote n" "n \<noteq> 0" by blast
      define x where "x = (if nt_ssl u then commitTLS n (snd (hd (nt_queue u))) else advance n (snd (hd (nt_queue u))))"
      define v where "v = (setHead x u)\<lparr>nt_pendingBytes := nt_pendingBytes u - min (nt_pendingBytes u) n\<rparr>"
      have "same_answer (snd (hd (nt_queue u))) x" by (simp add: x_def)
      then have "kept s v" using u n(1) by (simp add: v_def kept_setHead)
      then have "kept s (if wr_remainingBytes x = 0 then completeHeadWrite U UV_OK v else v)" by (simp add: completeHead_kept)
      from Suc.IH [OF this] have "kept s (snd (flushLoop E U fuel (if wr_remainingBytes x = 0 then completeHeadWrite U UV_OK v else v)))" .
      moreover have "flushLoop E U (Suc fuel) t = flushLoop E U fuel (if wr_remainingBytes x = 0 then completeHeadWrite U UV_OK v else v)"
        using False n(2) unfolding flushLoop.simps Let_def r n(1) prod.case ioResult.case x_def [symmetric] v_def [symmetric] by simp
      ultimately show ?thesis by simp
    next
      case no: False
      with r u False show ?thesis by (cases res) auto
    qed
  qed
qed simp

lemma flushWrites_kept: "kept s t \<Longrightarrow> kept s (flushWrites E U t)"
proof -
  assume t: "kept s t"
  obtain ok u where u: "(if nt_ssl t then flushMemoryBIOOutput E U t else (True, t)) = (ok, u)" by (cases rule: prod.exhaust)
  have "kept s u" using flushMemoryBIOOutput_kept [OF t, of E] t u by (auto split: if_splits)
  then have l: "kept s (snd (flushLoop E U (flushFuel u) (u\<lparr>nt_flushingWrites := True\<rparr>)))" by (simp add: flushLoop_kept)
  obtain error v where v: "flushLoop E U (flushFuel u) (u\<lparr>nt_flushingWrites := True\<rparr>) = (error, v)" by (cases rule: prod.exhaust)
  show ?thesis
    using t l \<open>kept s u\<close> unfolding flushWrites_def Let_def u prod.case v by (simp add: finishing_kept nt_fail_kept split: option.split)
qed

lemma updatePoll_kept: "kept s t \<Longrightarrow> kept s (updatePoll E U t)"
proof -
  assume t: "kept s t"
  obtain a u where u: "nextAnswer t = (a, u)" by (cases "nextAnswer t")
  with kept_answer [of "[]" s t] t have "kept s u" by simp
  with t u show ?thesis by (simp add: updatePoll_def Let_def nt_fail_kept split: answer.split)
qed

end

section \<open>Submitting\<close>

text \<open>A request made for the callback JavaScript passed.\<close>

definition answers :: "jsValue \<Rightarrow> WriteRequest \<Rightarrow> bool" where
  "answers v r \<longleftrightarrow> \<not> wr_deferred r \<and> wr_callbackValue r = (case v of JsFunction f \<Rightarrow> Some f | _ \<Rightarrow> None)"

lemma answers_same: "same_answer r r' \<Longrightarrow> answers v r' = answers v r"
  by (simp add: same_answer_def answers_def)

lemma retained_answers: "retainCallback v (newRequest E) = (True, r) \<Longrightarrow> answers v r"
  by (cases v) (auto simp: retainCallback_def answers_def newRequest_def newWriteRequest_def)

lemma owned_answers: "answers JsUndefined (newRequest E)"
  by (simp add: answers_def newRequest_def newWriteRequest_def)

lemma returnedBy_promised: "answers v r \<Longrightarrow> returnedBy (Returned v WRITE_ASYNCHRONOUS) = promised r"
  by (cases v) (simp_all add: answers_def promised_def)

lemma returnedBy_not: "st \<noteq> WRITE_ASYNCHRONOUS \<Longrightarrow> returnedBy (Returned v st) = []"
  by (cases v; cases st) simp_all

lemma answering_kept:
  assumes "kept_but (returnedBy (Returned v (fst result))) s (snd result)"
  shows "kept s (snd (answering v result))"
proof -
  have "promisedBy (Returned v (fst result)) = []" by simp
  then have "logged promisedBy (snd (answering v result)) = logged promisedBy (snd result)"
    "logged returnedBy (snd (answering v result)) = logged returnedBy (snd result) @ returnedBy (Returned v (fst result))"
    "nt_queue (snd (answering v result)) = nt_queue (snd result)" "nt_fresh (snd (answering v result)) = nt_fresh (snd result)"
    by (simp_all add: answering_def)
  with assms show ?thesis by (simp add: kept_but_def keyed_def union_assoc)
qed

lemma queued_kept:
  "kept_but (if b then promised r else []) t (queued b r t)"
proof -
  have "logged promisedBy (queued b r t) = logged promisedBy t @ (if b then promised r else [])"
    "logged returnedBy (queued b r t) = logged returnedBy t"
    by (simp_all add: queued_log comp_def)
  then show ?thesis by (auto simp: kept_but_def keyed_def less_Suc_eq)
qed

context recalling
begin

text \<open>
  The request that \<open>submit\<close> queued under its number is still there after the flush: it is the one that the
  caller is answered for, and it is deferred now.
\<close>

lemma deferred_kept:
  assumes q: "keyed t" "kept (queued False r t) u" and k: "nt_fresh t \<in> fst ` set (nt_queue u)" and r: "\<not> wr_deferred r"
  shows "kept_but (promised r) t (deferQueued (nt_fresh t) u)"
proof -
  let ?k = "nt_fresh t"
  have u: "keyed u" "Suc ?k \<le> nt_fresh u" using q queued_kept [of False r t] by (auto simp: kept_but_def)
  have from_q: "\<exists>r0. (j, r0) \<in> set (nt_queue (queued False r t)) \<and> same_answer r0 r'"
    if "(j, r') \<in> set (nt_queue u)" "j < Suc ?k" for j r'
    using that q queued_kept [of False r t] by (fastforce simp: kept_but_def)
  obtain r' where m: "map_of (nt_queue u) ?k = Some r'" using k by (metis map_of_eq_None_iff not_None_eq)
  then have "(?k, r') \<in> set (nt_queue u)" by (rule map_of_SomeD)
  from from_q [OF this] q(1) have "same_answer r r'" by (auto simp: keyed_def)
  then have p: "promised r' = promised r" by (simp add: promised_def same_answer_def)
  let ?f = "\<lambda>(j, x). (j, if j = ?k then snd (wr_defer True x) else x)"
  have d: "deferQueued ?k u = promise r' (u\<lparr>nt_queue := map ?f (nt_queue u)\<rparr>)" using m by (simp add: deferQueued_def)
  have l: "logged promisedBy (deferQueued ?k u) = logged promisedBy u @ promised r"
    "logged returnedBy (deferQueued ?k u) = logged returnedBy u"
    unfolding d by (simp add: p logged_def comp_def)+
  have qd: "nt_queue (deferQueued ?k u) = map ?f (nt_queue u)" "nt_fresh (deferQueued ?k u) = nt_fresh u"
    unfolding d by simp_all
  have tu: "kept t u" using kept_trans [OF queued_kept [of False r t] q(2)] by simp
  show ?thesis
    unfolding kept_but_def
  proof (intro impI conjI ballI, goal_cases)
    case 1
    with u(1) show ?case by (auto simp: keyed_def qd)
  next
    case 2
    with u(2) show ?case by (simp add: qd)
  next
    case (3 x)
    then obtain j y where x: "x = ?f (j, y)" "(j, y) \<in> set (nt_queue u)" by (auto simp: qd)
    with tu q(1) show ?case by (fastforce simp: kept_but_def)
  next
    case 4
    with tu show ?case by (simp add: kept_but_def l union_assoc)
  qed
qed

lemma submit_kept:
  assumes r: "answers v request"
  shows "kept_but (returnedBy (Returned v (fst (submit E U request t)))) t (snd (submit E U request t))"
proof (cases "keyed t")
  case False
  then show ?thesis by (simp add: kept_but_def)
next
  case keyed: True
  obtain ok r0 where r0: "prepare request = (ok, r0)" by (cases "prepare request")
  have a0: "answers v r0" using answer_prepare [of request request] r0 r answers_same [of request r0 v] by simp
  define joined where "joined = (if nt_ssl t \<and> wr_partCount r0 > 1 then joinParts r0 else Some (True, r0))"
  have a1: "answers v r1" if "joined = Some (ok1, r1)" for ok1 r1
    using that a0 answer_joinParts [of r0 ok1 r1 r0] answers_same [of r0 r1 v] by (auto simp: joined_def split: if_splits)
  show ?thesis
  proof (cases "\<not> writable t \<or> \<not> ok \<or> wr_bytes r0 = 0 \<or> nt_pendingBytes t > SIZE_MAX - wr_bytes r0 \<or> joined = None \<or>
      (\<exists>r1. joined = Some (False, r1))")
    case True
    then have "\<exists>st. submit E U request t = (st, t) \<and> st \<noteq> WRITE_ASYNCHRONOUS"
      unfolding submit_def r0 Let_def prod.case joined_def [symmetric]
      by (cases "writable t"; cases ok; cases "wr_bytes r0 = 0"; cases "nt_pendingBytes t > SIZE_MAX - wr_bytes r0") auto
    with returnedBy_not show ?thesis by auto
  next
    case False
    then obtain r1 where j: "joined = Some (True, r1)" by (metis (full_types) not_None_eq surj_pair)
    define b where "b = (nt_queue t \<noteq> [] \<or> nt_flushingWrites t)"
    define q where "q = queued b r1 t"
    define f where "f = flushWrites E U q"
    define d where "d = deferQueued (nt_fresh t) f"
    define e where "e = (if backpressureExceeded d then terminateForBackpressure U d else d)"
    have s: "submit E U request t = (if b then (WRITE_ASYNCHRONOUS,
             if backpressureExceeded q then terminateForBackpressure U q else updatePoll E U q)
        else if nt_closing f then (UV_EIO, f)
        else if nt_fresh t \<in> fst ` set (nt_queue f) then (WRITE_ASYNCHRONOUS, if nt_closing e then e else updatePoll E U e)
        else (WRITE_SYNCHRONOUS, f))"
    proof -
      have c: "(\<not> writable t) = False" "(\<not> ok) = False" "(wr_bytes r0 = 0) = False" "(nt_pendingBytes t > SIZE_MAX - wr_bytes r0) = False"
        using False by simp_all
      show ?thesis
        unfolding submit_def r0 Let_def prod.case joined_def [symmetric] j option.case bool.case e_def d_def f_def q_def b_def
        by (simp only: c if_False)
    qed
    note p = returnedBy_promised [OF a1 [OF j]]
    have q: "kept_but (if b then promised r1 else []) t q" unfolding q_def by (rule queued_kept)
    show ?thesis
    proof (cases b)
      case True
      have "kept q (snd (submit E U request t))" using True s by (simp add: terminateForBackpressure_kept updatePoll_kept)
      from kept_trans [OF q this] True s p show ?thesis by simp
    next
      case no: False
      have qf: "kept q f" unfolding f_def by (simp add: flushWrites_kept)
      have tf: "kept t f" using kept_trans [OF q qf] no by simp
      have "kept_but (promised r1) t (snd (submit E U request t))" if "\<not> nt_closing f" "nt_fresh t \<in> fst ` set (nt_queue f)"
      proof -
        have "\<not> wr_deferred r1" using a1 [OF j] by (simp add: answers_def)
        from deferred_kept [OF keyed qf [unfolded q_def no [THEN eq_False [THEN iffD2]]] that(2) this]
        have "kept_but (promised r1) t d" by (simp add: d_def)
        moreover have "kept d (snd (submit E U request t))"
          using that no s by (simp add: e_def terminateForBackpressure_kept updatePoll_kept)
        ultimately show ?thesis by (rule kept_trans)
      qed
      with s no tf p show ?thesis by (auto simp: returnedBy_not)
    qed
  qed
qed

end

section \<open>The writes of JavaScript\<close>

context recalling
begin

lemma writeOwned_kept: "kept s t \<Longrightarrow> kept s (snd (writeOwned E U v t))"
proof -
  have "answers JsUndefined (addOwned v (newRequest E))"
    using answers_same [of "newRequest E" "addOwned v (newRequest E)"] owned_answers by simp
  from submit_kept [OF this, of E t] have "kept t (snd (writeOwned E U v t))" by (simp add: writeOwned_def)
  moreover assume "kept s t"
  ultimately show ?thesis by (metis kept_trans)
qed

lemma refused_kept [simp]: "st \<noteq> WRITE_ASYNCHRONOUS \<Longrightarrow> kept_but (returnedBy (Returned v st)) t t"
  by (simp add: returnedBy_not)

lemma writeFrame_kept: "kept t (snd (answering callback (writeFrame E U v callback t)))"
proof (rule answering_kept)
  obtain ok r where r: "retainCallback callback (newRequest E) = (ok, r)" by (cases "retainCallback callback (newRequest E)")
  obtain ok' r' where r': "addInput v r = (ok', r')" by (cases "addInput v r")
  have "answers callback r'" if ok
    using retained_answers r that r' answers_same [of r r'] answer_addInput [of r v r] by auto
  from submit_kept [OF this]
  show "kept_but (returnedBy (Returned callback (fst (writeFrame E U v callback t)))) t (snd (writeFrame E U v callback t))"
    by (cases ok; cases ok') (auto simp: writeFrame_def r r')
qed

lemma writeFrameList_kept: "kept t (snd (answering callback (writeFrameList E U inputs callback t)))"
proof (rule answering_kept)
  obtain ok r where r: "retainCallback callback (newRequest E) = (ok, r)" by (cases "retainCallback callback (newRequest E)")
  have a: "answers callback (snd (addInputs vs r))" if ok for vs
    using retained_answers r that answers_same [of r "snd (addInputs vs r)"] answer_addInputs [of r r vs] by auto
  have "kept_but (returnedBy (Returned callback (fst (submit E U (snd (addInputs vs r)) t)))) t (snd (submit E U (snd (addInputs vs r)) t))"
    if ok for vs using submit_kept [OF a [OF that]] .
  then show "kept_but (returnedBy (Returned callback (fst (writeFrameList E U inputs callback t)))) t
      (snd (writeFrameList E U inputs callback t))"
    by (cases ok) (auto simp: writeFrameList_def r split_beta Let_def split: option.split list.split simp del: addInputs.simps)
qed

lemma writeMessage_kept: "kept t (snd (answering callback (writeMessage E U v opc compress callback t)))"
proof (rule answering_kept)
  let ?c = "compress \<and> \<not> isClosing (sock (nt_sessionObject t))"
  obtain ok r where r: "retainCallback callback (newRequest E) = (ok, r)" by (cases "retainCallback callback (newRequest E)")
  define taken where "taken = (if opc = TEXT
      then if ?c then (let (ok, r) = addTextInput v r in (ok, r, False)) else addSmallTextFrame v opc r
      else let (ok, r) = addInput v r in (ok, r, False))"
  obtain ok' r' framed where t: "taken = (ok', r', framed)" by (cases taken)
  have "same_answer r (fst (snd taken))" by (simp add: taken_def split_beta)
  then have a: "answers callback r'" if ok using that t r retained_answers answers_same [of r r'] by auto
  obtain fr x where fr: "createFrame (cpuOf E) (zlibOf E) (partData r' (part r' 0)) opc True (sock (nt_sessionObject t)) = (fr, x)"
    by (cases rule: prod.exhaust)
  let ?t = "t\<lparr>nt_sessionObject := (nt_sessionObject t)\<lparr>sock := x\<rparr>\<rparr>"
  have w: "writeMessage E U v opc compress callback t =
    (if \<not> writable t then (UV_EBADF, t) else if \<not> ok then (UV_EINVAL, t) else if \<not> ok' then (UV_EINVAL, t)
     else if ?c then (case fr of None \<Rightarrow> (UV_EINVAL, ?t) | Some fr \<Rightarrow> submit E U (addOwned fr (clearParts r')) ?t)
     else if \<not> framed then (case prependOwned (frameHeader (ip_length (part r' 0)) opc) r' of
         None \<Rightarrow> (ABORTED, t) | Some r \<Rightarrow> submit E U r t)
     else submit E U r' t)"
    unfolding writeMessage_def Let_def r prod.case taken_def [unfolded Let_def, symmetric] t fr by (rule refl)
  have t': "kept t ?t" by simp
  have plain: "kept_but (returnedBy (Returned callback (fst (submit E U q u)))) t (snd (submit E U q u))"
    if "answers callback q" "kept t u" for q u
    using kept_but_trans [OF that(2) submit_kept [OF that(1)], of E] by simp
  have c: "answers callback (addOwned y (clearParts r'))" if ok for y
    using a that answers_same [of r' "addOwned y (clearParts r')"] by simp
  have p: "answers callback q" if ok "prependOwned y r' = Some q" for y q
    using a that answers_same [of r' q] answer_prepend [OF that(2), of r'] by simp
  have n: "kept_but (returnedBy (Returned callback UV_EINVAL)) t ?t"
    using t' by (simp add: returnedBy_not)
  show "kept_but (returnedBy (Returned callback (fst (writeMessage E U v opc compress callback t)))) t
      (snd (writeMessage E U v opc compress callback t))"
    unfolding w using plain [OF c t'] plain [OF p kept_refl] plain [OF a kept_refl] n by (auto split: option.split)
qed

lemma writeClose_kept: "kept s t \<Longrightarrow> kept s (snd (writeClose E U code reason t))"
  by (simp add: writeClose_def Let_def split_beta writeOwned_kept split: option.split)

section \<open>Reading and closing\<close>

lemma consumeEvents_kept: "kept s t \<Longrightarrow> kept s (snd (consumeEvents E U es t))"
proof (induction es arbitrary: t)
  case (Cons e es)
  then show ?case
    by (simp add: Let_def split_beta dispatchMessage_def writeOwned_kept nt_fail_kept callOwner_kept finishing_kept split: EventType.split)
qed simp

lemma nt_consume_kept: "kept s t \<Longrightarrow> kept s (snd (nt_consume E U dat t))"
  by (simp add: nt_consume_def Let_def split_beta consumeEvents_kept)

lemma readLoop_kept: "kept s t \<Longrightarrow> kept s (snd (readLoop E U fuel t))"
proof (induction fuel arbitrary: t)
  case (Suc fuel)
  obtain a u where u: "nextAnswer t = (a, u)" by (cases "nextAnswer t")
  with kept_answer [of "[]" s t] Suc.prems have "kept s u" by simp
  with Suc.prems u Suc.IH show ?case
    by (simp add: Let_def split_beta nt_fail_kept closeNow_kept nt_consume_kept split: answer.split)
qed simp

lemma processMemoryBIO_kept: "kept s t \<Longrightarrow> kept s (snd (processMemoryBIO E U t))"
proof -
  assume t: "kept s t"
  obtain ok u where u: "readLoop E U (Suc (length (nt_io t))) (t\<lparr>nt_tlsProcessingInput := True\<rparr>) = (ok, u)" by (cases rule: prod.exhaust)
  have "kept s u" using readLoop_kept [of s "t\<lparr>nt_tlsProcessingInput := True\<rparr>" E "Suc (length (nt_io t))"] u t by simp
  with t u flushMemoryBIOOutput_kept [of s u E] flushMemoryBIOOutput_kept [of s t E] show ?thesis
    by (simp add: processMemoryBIO_def split_beta del: readLoop.simps)
qed

lemma performTLSShutdown_kept: "kept s t \<Longrightarrow> kept s (performTLSShutdown E U t)"
proof -
  assume t: "kept s t"
  define finish :: "bool \<times> 'z NativeTransport \<Rightarrow> 'z NativeTransport" where
    "finish = (\<lambda>(ok, t). if \<not> ok then t else if hasTLSOutput t then t\<lparr>nt_tlsShutdownPending := True\<rparr>
       else closeNow U UV_ECANCELED (t\<lparr>nt_tlsShutdownPending := False\<rparr>))"
  have fin: "kept s (finish (flushMemoryBIOOutput E U u))" if "kept s u" for u
    using flushMemoryBIOOutput_kept [OF that, of E] by (simp add: finish_def split_beta closeNow_kept)
  obtain ok u where u: "processMemoryBIO E U t = (ok, u)" by (cases "processMemoryBIO E U t")
  have ku: "kept s u" using processMemoryBIO_kept [OF t, of E] u by simp
  obtain a v where v: "nextAnswer u = (a, v)" by (cases "nextAnswer u")
  obtain generated w where w: "(case (a, v) of
      (Done _ _ ciphertext, t) \<Rightarrow> (True, bioAppend ciphertext t)
    | (WantRead ciphertext, t) \<Rightarrow> (True, bioAppend ciphertext t)
    | (WantWrite ciphertext, t) \<Rightarrow> (True, bioAppend ciphertext t)
    | (_, t) \<Rightarrow> (False, t)) = (generated, w)" by (cases rule: prod.exhaust)
  have "kept s v" using kept_answer [of "[]" s u] ku v by simp
  then have kw: "kept s w" using w by (cases a) auto
  have "performTLSShutdown E U t =
    (if \<not> nt_gracefulCloseRequested t \<or> nt_closing t \<or> nt_queue t \<noteq> [] then t
     else if \<not> nt_ssl t then closeNow U UV_ECANCELED t
     else if nt_tlsShutdownGenerated t then finish (flushMemoryBIOOutput E U t)
     else if \<not> ok \<or> hasTLSOutput u then u\<lparr>nt_tlsShutdownPending := True\<rparr>
     else if \<not> generated then closeNow U UV_ECANCELED (w\<lparr>nt_tlsShutdownPending := False\<rparr>)
     else finish (flushMemoryBIOOutput E U (w\<lparr>nt_tlsShutdownGenerated := True\<rparr>)))"
    unfolding performTLSShutdown_def u Let_def prod.case v w [unfolded prod.case] finish_def by (rule refl)
  with t ku kw fin show ?thesis by (simp add: closeNow_kept)
qed

lemma maybeFinishPeerClose_kept: "kept s t \<Longrightarrow> kept s (maybeFinishPeerClose E U t)"
  by (simp add: maybeFinishPeerClose_def Let_def split_beta callOwner_kept performTLSShutdown_kept)

lemma readTCP_kept: "kept s t \<Longrightarrow> kept s (readTCP E U t)"
proof -
  assume t: "kept s t"
  obtain a u where u: "nextAnswer t = (a, u)" by (cases "nextAnswer t")
  with kept_answer [of "[]" s t] t have "kept s u" by simp
  with u show ?thesis by (simp add: readTCP_def closeNow_kept nt_fail_kept nt_consume_kept split: answer.split)
qed

lemma bioWrite_kept: "kept s t \<Longrightarrow> kept s (snd (bioWrite n t))"
proof (induction n t rule: bioWrite.induct)
  case (1 n t)
  obtain a u where u: "nextAnswer t = (a, u)" by (cases "nextAnswer t")
  with kept_answer [of "[]" s t] "1.prems" have "kept s u" by simp
  with "1.prems" "1.IH" [OF _ u [symmetric]] u show ?case by (subst bioWrite.simps) (auto split: answer.split)
qed

lemma readAvailable_kept: "kept s t \<Longrightarrow> kept s (readAvailable E U t)"
proof -
  assume t: "kept s t"
  obtain a u where u: "nextAnswer t = (a, u)" by (cases "nextAnswer t")
  with kept_answer [of "[]" s t] t have "kept s u" by simp
  with t u have "kept s (readTLSMemoryBIO E U t)"
    by (simp add: readTLSMemoryBIO_def split_beta closeNow_kept nt_fail_kept processMemoryBIO_kept bioWrite_kept split: answer.split)
  with readTCP_kept [OF t] show ?thesis by (simp add: readAvailable_def)
qed

lemma nt_poll_kept: "kept s t \<Longrightarrow> kept s (nt_poll E U error reading writing t)"
proof -
  assume t: "kept s t"
  define r where "r = (if reading then
      (let retryWrite = nt_tlsWriteBlockedOnRead t; t = readAvailable E U (t\<lparr>nt_tlsWriteBlockedOnRead := False\<rparr>)
       in if \<not> nt_closing t \<and> retryWrite then flushWrites E U t else t) else t)"
  define h where "h = (if nt_tlsShutdownPending r then performTLSShutdown E U r else r)"
  define p where "p = (if nt_ssl h then snd (processMemoryBIO E U h) else h)"
  define w where "w = (if \<not> nt_closing p then flushWrites E U p else p)"
  define d where "d = (if \<not> nt_closing w \<and> nt_tlsShutdownPending w then performTLSShutdown E U w else w)"
  have r: "kept s r" using t by (simp add: r_def Let_def readAvailable_kept flushWrites_kept)
  have h: "kept s h" using r by (simp add: h_def performTLSShutdown_kept)
  have p: "kept s p" using h by (simp add: p_def processMemoryBIO_kept)
  have w: "kept s w" using p by (simp add: w_def flushWrites_kept)
  have d: "kept s d" using w by (simp add: d_def performTLSShutdown_kept)
  have e: "nt_poll E U error reading writing t = (if nt_closing t then t
      else case error of Some e \<Rightarrow> nt_fail U (uv_strerror E (UV_ERRNO e)) t
      | None \<Rightarrow> if \<not> nt_closing r \<and> writing then (if nt_closing h then h else if \<not> nt_closing d then updatePoll E U d else d)
          else if \<not> nt_closing r then updatePoll E U r else r)"
    unfolding nt_poll_def Let_def r_def [unfolded Let_def, symmetric] h_def [symmetric] p_def [symmetric] w_def [symmetric]
      d_def [symmetric] by (rule refl)
  show ?thesis
    unfolding e using t r h d nt_fail_kept updatePoll_kept by (simp split: option.split)
qed

lemma nt_delete_kept: "kept s t \<Longrightarrow> kept s (nt_delete U t)"
  by (simp add: nt_delete_def cancelWrites_kept)

lemma requestDestroy_kept: "kept s t \<Longrightarrow> kept s (requestDestroy U t)"
  by (simp add: requestDestroy_def Let_def nt_delete_kept closeNow_kept)

lemma perform_kept: "kept s t \<Longrightarrow> kept s (perform E U a t)"
  using kept_trans [OF _ writeMessage_kept] kept_trans [OF _ writeFrameList_kept] kept_trans [OF _ writeFrame_kept]
  by (cases a) (simp_all add: perform_def terminate_def closeNow_kept requestDestroy_kept writeClose_kept)

lemma react_kept: "kept s t \<Longrightarrow> kept s (snd (react E U t))"
proof -
  have "kept s u \<Longrightarrow> kept s (fold (perform E U) as u)" for as u
    by (induction as arbitrary: u) (simp_all add: perform_kept)
  moreover assume "kept s t"
  ultimately show ?thesis by (simp add: react_def split: list.split)
qed

lemma takeStep_kept: "kept s t \<Longrightarrow> kept s (takeStep E U st t)"
proof -
  assume t: "kept s t"
  have f: "kept s (snd (feed E U dat t))" for dat using t by (simp add: feed_def nt_consume_kept)
  have p: "kept s (onPollClosed U t)" using t
    by (simp add: onPollClosed_def Let_def split_beta nt_delete_kept callOwner_kept)
  have b: "kept s (beginEnvironmentCleanup U t)" using t
    by (simp add: beginEnvironmentCleanup_def Let_def nt_delete_kept closeNow_kept)
  have a: "kept s (snd (activate E U t))"
  proof -
    let ?b = "if nt_ssl t then t\<lparr>nt_nodeBIOs := sslWriteBIO E\<rparr> else t"
    obtain a u where u: "nextAnswer ?b = (a, u)" by (cases "nextAnswer ?b")
    with kept_answer [of "[]" s ?b] t have "kept s u" by (simp split: if_splits)
    with t u show ?thesis
      by (simp add: activate_def Let_def split_beta processMemoryBIO_kept updatePoll_kept flushWrites_kept split: answer.split)
  qed
  show ?thesis using t f p b a by (cases st) (simp_all add: takeStep_def nt_poll_kept perform_kept)
qed

end

text \<open>At every depth of the stack.\<close>

lemma recalling_upcalls: "recalling (upcallsAt E depth)"
proof (induction depth)
  case 0
  show ?case by unfold_locales simp_all
next
  case (Suc depth)
  show ?case
    by unfold_locales (simp_all add: recalling.react_kept [OF Suc] recalling.maybeFinishPeerClose_kept [OF Suc])
qed

interpretation recalls: recalling "upcallsAt E depth" for E :: "'z host" and depth
  by (rule recalling_upcalls)

lemma life_kept: "kept s t \<Longrightarrow> kept s (life E depth steps t)"
  by (induction steps arbitrary: t) (simp_all add: life_def recalls.takeStep_kept)

lemma promised_returned:
  "mset (logged promisedBy (life E depth steps (newNativeTransport ssl session textAsBuffer maxBackpressure bio io reactions))) =
   mset (logged returnedBy (life E depth steps (newNativeTransport ssl session textAsBuffer maxBackpressure bio io reactions)))"
proof -
  let ?t = "newNativeTransport ssl session textAsBuffer maxBackpressure bio io reactions"
  have "keyed ?t" "logged promisedBy ?t = []" "logged returnedBy ?t = []"
    by (simp_all add: keyed_def newNativeTransport_def logged_def)
  with life_kept [OF kept_refl [of ?t], of E depth steps] show ?thesis by (simp add: kept_but_def)
qed

section \<open>The property\<close>

text \<open>
  C4: as long as the environment lives, the callback of every write that returned \<open>WRITE_ASYNCHRONOUS\<close> to
  JavaScript, and no other, is called exactly once: the callbacks called so far and those of the
  requests still queued are together those of the writes that returned it. When the transport closes, all
  have been called.
\<close>

theorem callbacks_once:
  "let final = life E depth steps (newNativeTransport ssl session textAsBuffer maxBackpressure bio io reactions)
   in nt_environmentCleaning final \<or>
      mset (logged returnedBy final) = mset (logged answeredBy final) +
        (if nt_closing final then {#} else mset (concat (map callbacksOf (requests final))))"
  using resting_facts(4) [OF reached_resting(1) [of E depth steps ssl session textAsBuffer maxBackpressure bio io reactions]]
  unfolding promised_returned Let_def .

end
