(* ===== verification/Environments.thy ===== *)
theory Environments
  imports Transport_Safety
begin

text \<open>
  The transports of a Node.js environment (\<open>NativeEnvironment\<close> and the pointers between the transports in
  \<open>native_transport.cpp\<close>, \<open>SessionHandle\<close> in \<open>addon.cpp\<close>): a doubly linked list through the transports, from
  which the cleanup hook of the environment deletes them, and the handles through which JavaScript reaches
  them. Transports and handles are numbers. \<open>rt_fault\<close> is set when the code touches memory that was freed.
\<close>

section \<open>State\<close>

record NativeEnvironment =
  ne_cleanupHook :: bool
  ne_head :: "nat option"
  ne_cleaning :: bool

text \<open>The fields of a transport that link it; \<open>en_environment\<close> tells whether \<open>environment_\<close> is set.\<close>

record links =
  en_environment :: bool
  en_registered :: bool
  en_previous :: "nat option"
  en_next :: "nat option"
  en_storage :: "nat option"

record SessionHandle =
  sh_session :: bool
  sh_transport :: "nat option"

record 'z runtime =
  rt_known :: bool
  rt_environment :: "NativeEnvironment option"
  rt_freed :: nat
  rt_links :: "nat \<Rightarrow> links"
  rt_transports :: "nat \<Rightarrow> 'z NativeTransport"
  rt_count :: nat
  rt_handles :: "nat \<Rightarrow> SessionHandle"
  rt_fault :: bool

definition setLinks :: "nat \<Rightarrow> (links \<Rightarrow> links) \<Rightarrow> 'z runtime \<Rightarrow> 'z runtime" where
  "setLinks i f R = R\<lparr>rt_links := (rt_links R)(i := f (rt_links R i))\<rparr>"

definition setHandle :: "nat \<Rightarrow> (SessionHandle \<Rightarrow> SessionHandle) \<Rightarrow> 'z runtime \<Rightarrow> 'z runtime" where
  "setHandle h f R = R\<lparr>rt_handles := (rt_handles R)(h := f (rt_handles R h))\<rparr>"

definition faulty :: "'z runtime \<Rightarrow> 'z runtime" where
  "faulty R = R\<lparr>rt_fault := True\<rparr>"

text \<open>An access to a transport through a pointer to it.\<close>

definition alive :: "'z runtime \<Rightarrow> nat \<Rightarrow> bool" where
  "alive R i \<longleftrightarrow> i < rt_count R \<and> \<not> nt_deleted (rt_transports R i)"

section \<open>The list\<close>

definition linkEnvironment :: "nat \<Rightarrow> 'z runtime \<Rightarrow> 'z runtime" where
  "linkEnvironment i R =
     (if \<not> en_environment (rt_links R i) then R
      else case rt_environment R of
        None \<Rightarrow> faulty R
      | Some e \<Rightarrow>
          (let R = setLinks i (\<lambda>l. l\<lparr>en_next := ne_head e\<rparr>) R;
               R = (case ne_head e of None \<Rightarrow> R
                    | Some n \<Rightarrow> if alive R n then setLinks n (\<lambda>l. l\<lparr>en_previous := Some i\<rparr>) R else faulty R)
           in setLinks i (\<lambda>l. l\<lparr>en_registered := True\<rparr>) (R\<lparr>rt_environment := Some (e\<lparr>ne_head := Some i\<rparr>)\<rparr>)))"

text \<open>The neighbours of a transport must be alive; the transport itself is the one being deleted.\<close>

definition unlinkEnvironment :: "nat \<Rightarrow> 'z runtime \<Rightarrow> 'z runtime" where
  "unlinkEnvironment i R =
     (let l = rt_links R i
      in if \<not> en_registered l \<or> \<not> en_environment l then R
      else case rt_environment R of
        None \<Rightarrow> faulty R
      | Some e \<Rightarrow>
          (let R = (case en_previous l of
                      Some p \<Rightarrow> if alive R p then setLinks p (\<lambda>k. k\<lparr>en_next := en_next l\<rparr>) R else faulty R
                    | None \<Rightarrow> R\<lparr>rt_environment := Some (e\<lparr>ne_head := en_next l\<rparr>)\<rparr>);
               R = (case en_next l of
                      Some n \<Rightarrow> if alive R n then setLinks n (\<lambda>k. k\<lparr>en_previous := en_previous l\<rparr>) R else faulty R
                    | None \<Rightarrow> R)
           in setLinks i (\<lambda>k. k\<lparr>en_previous := None, en_next := None, en_registered := False\<rparr>) R))"

definition completeNativeEnvironmentCleanup :: "bool \<Rightarrow> 'z runtime \<Rightarrow> 'z runtime" where
  "completeNativeEnvironmentCleanup environment R =
     (if \<not> environment then R
      else case rt_environment R of
        None \<Rightarrow> faulty R
      | Some e \<Rightarrow> if ne_head e \<noteq> None then R else R\<lparr>rt_environment := None, rt_freed := rt_freed R + 1\<rparr>)"

text \<open>The destructor is part of the step of the transport, see \<open>runTransport\<close>.\<close>

definition finishEnvironmentCleanup :: "nat \<Rightarrow> 'z runtime \<Rightarrow> 'z runtime" where
  "finishEnvironmentCleanup i R =
     (let environment = en_environment (rt_links R i);
          R = setLinks i (\<lambda>l. l\<lparr>en_environment := False\<rparr>) (unlinkEnvironment i R)
      in completeNativeEnvironmentCleanup environment R)"

section \<open>Handles\<close>

text \<open>\<open>dispose\<close> and \<open>finalizeSession\<close> forget the transport and detach it before they ask for its destruction.\<close>

definition forget :: "nat \<Rightarrow> 'z runtime \<Rightarrow> 'z runtime" where
  "forget i R =
     (case en_storage (rt_links R i) of
        None \<Rightarrow> R
      | Some h \<Rightarrow> setLinks i (\<lambda>l. l\<lparr>en_storage := None\<rparr>)
                    (setHandle h (\<lambda>k. k\<lparr>sh_transport := None, sh_session := False\<rparr>) R))"

text \<open>The part of \<open>beginEnvironmentCleanup\<close> that clears the handle.\<close>

definition clearStorage :: "nat \<Rightarrow> 'z runtime \<Rightarrow> 'z runtime" where
  "clearStorage i R =
     (case en_storage (rt_links R i) of
        None \<Rightarrow> R
      | Some h \<Rightarrow>
          (let R = (if sh_transport (rt_handles R h) = Some i then setHandle h (\<lambda>k. k\<lparr>sh_transport := None\<rparr>) R else R)
           in setLinks i (\<lambda>l. l\<lparr>en_storage := None\<rparr>) R))"

text \<open>
  After an operation on a transport, which is \<open>t'\<close> now: when JavaScript asked for its destruction in a callback, its
  handle was disposed; when it was deleted, it left the list.
\<close>

definition becomes :: "nat \<Rightarrow> 'z NativeTransport \<Rightarrow> 'z runtime \<Rightarrow> 'z runtime" where
  "becomes i t' R =
     (let t = rt_transports R i;
          R = R\<lparr>rt_transports := (rt_transports R)(i := t')\<rparr>;
          R = (if nt_destroyRequested t' \<and> \<not> nt_environmentCleaning t' then forget i R else R)
      in if nt_deleted t \<or> \<not> nt_deleted t' then R
         else if nt_environmentCleaning t' then finishEnvironmentCleanup i R
         else unlinkEnvironment i R)"

definition runTransport :: "'z host \<Rightarrow> nat \<Rightarrow> nat \<Rightarrow> step \<Rightarrow> 'z runtime \<Rightarrow> 'z runtime" where
  "runTransport E depth i s R = becomes i (takeStep E (upcallsAt E depth) s (rt_transports R i)) R"

section \<open>Environments\<close>

definition initializeNativeEnvironment :: "bool \<Rightarrow> 'z runtime \<Rightarrow> bool \<times> 'z runtime" where
  "initializeNativeEnvironment hookAdded R =
     (if rt_known R then (True, R)
      else if \<not> hookAdded then (False, R)
      else (True, R\<lparr>rt_environment := Some \<lparr>ne_cleanupHook = True, ne_head = None, ne_cleaning = False\<rparr>, rt_known := True\<rparr>))"

definition getNativeEnvironment :: "'z runtime \<Rightarrow> NativeEnvironment option" where
  "getNativeEnvironment R = (if rt_known R then rt_environment R else None)"

definition beginCleanup :: "'z host \<Rightarrow> nat \<Rightarrow> nat \<Rightarrow> 'z runtime \<Rightarrow> 'z runtime" where
  "beginCleanup E depth i R = runTransport E depth i EnvironmentCleanup (clearStorage i R)"

text \<open>The loop over the list; without fuel left it would not end.\<close>

primrec cleanupLoop :: "'z host \<Rightarrow> nat \<Rightarrow> nat \<Rightarrow> nat option \<Rightarrow> 'z runtime \<Rightarrow> 'z runtime" where
  "cleanupLoop E depth 0 transport R = (if transport = None then R else faulty R)"
| "cleanupLoop E depth (Suc fuel) transport R =
     (case transport of
        None \<Rightarrow> R
      | Some i \<Rightarrow>
          if \<not> alive R i then faulty R
          else cleanupLoop E depth fuel (en_next (rt_links R i)) (beginCleanup E depth i R))"

definition cleanupNativeEnvironment :: "'z host \<Rightarrow> nat \<Rightarrow> 'z runtime \<Rightarrow> 'z runtime" where
  "cleanupNativeEnvironment E depth R =
     (case rt_environment R of
        None \<Rightarrow> faulty R
      | Some e \<Rightarrow>
          (let R = R\<lparr>rt_environment := Some (e\<lparr>ne_cleaning := True, ne_cleanupHook := True\<rparr>), rt_known := False\<rparr>
           in if ne_head e = None then completeNativeEnvironmentCleanup True R
              else cleanupLoop E depth (rt_count R) (ne_head e) R))"

section \<open>What happens in an environment\<close>

definition newTransport :: "nat \<Rightarrow> 'z NativeTransport \<Rightarrow> 'z runtime \<Rightarrow> 'z runtime" where
  "newTransport h t R =
     (let i = rt_count R;
          R = R\<lparr>rt_count := i + 1, rt_transports := (rt_transports R)(i := t),
                rt_links := (rt_links R)(i := \<lparr>en_environment = True, en_registered = False, en_previous = None,
                  en_next = None, en_storage = Some h\<rparr>)\<rparr>
      in linkEnvironment i R)"

text \<open>
  \<open>granted\<close> tells whether Node.js and the system gave what \<open>attachNativeTransport\<close> asks for; the other arguments
  are the new transport.
\<close>

definition attachTransport :: "nat \<Rightarrow> bool \<Rightarrow> 'z NativeTransport \<Rightarrow> 'z runtime \<Rightarrow> nat option \<times> 'z runtime" where
  "attachTransport h granted t R =
     (case getNativeEnvironment R of
        None \<Rightarrow> (None, R)
      | Some e \<Rightarrow>
          if ne_cleaning e \<or> \<not> granted then (None, R) else (Some (rt_count R), newTransport h t R))"

text \<open>\<open>handle->transport = attachNativeTransport(...)\<close>. Its caller has to see that nothing is attached yet.\<close>

definition storeTransport :: "nat \<Rightarrow> nat option \<times> 'z runtime \<Rightarrow> 'z runtime" where
  "storeTransport h attached = setHandle h (\<lambda>k. k\<lparr>sh_transport := fst attached\<rparr>) (snd attached)"

definition dispose :: "'z host \<Rightarrow> nat \<Rightarrow> nat \<Rightarrow> 'z runtime \<Rightarrow> 'z runtime" where
  "dispose E depth h R =
     (case sh_transport (rt_handles R h) of
        None \<Rightarrow> setHandle h (\<lambda>k. k\<lparr>sh_session := False\<rparr>) R
      | Some i \<Rightarrow>
          if \<not> alive R i then faulty R
          else runTransport E depth i (Act Destroy)
                 (setLinks i (\<lambda>l. l\<lparr>en_storage := None\<rparr>)
                    (setHandle h (\<lambda>k. k\<lparr>sh_transport := None, sh_session := False\<rparr>) R)))"

text \<open>
  What comes from outside: calls of JavaScript through a handle, its use of the session object, callbacks of libuv on the poll handle of a
  transport (from \<open>uv_poll_init_socket\<close> until the callback of \<open>uv_close\<close> has run), and the cleanup hook.
\<close>

datatype 'z envEvent =
  CreateSession nat
| AttachTransport nat bool bool "'z Session" bool nat "byte list" "answer list" "(action list \<times> bool) list"
| FromJs nat step
| FromLoop nat step
| UseSession nat "'z Session"
| Dispose nat
| CleanupHook

fun byJs :: "step \<Rightarrow> bool" where
  "byJs Activate = True"
| "byJs (Feed dat) = True"
| "byJs (Act a) = True"
| "byJs _ = False"

fun byLoop :: "step \<Rightarrow> bool" where
  "byLoop (Poll error reading writing) = True"
| "byLoop PollClosed = True"
| "byLoop _ = False"

definition onTransport :: "'z host \<Rightarrow> nat \<Rightarrow> nat \<Rightarrow> step \<Rightarrow> 'z runtime \<Rightarrow> 'z runtime" where
  "onTransport E depth i s R = (if alive R i then runTransport E depth i s R else faulty R)"

text \<open>The session object is shared by its handle and the transport.\<close>

definition useSession :: "nat \<Rightarrow> 'z Session \<Rightarrow> 'z runtime \<Rightarrow> 'z runtime" where
  "useSession h x R =
     (case sh_transport (rt_handles R h) of
        None \<Rightarrow> R
      | Some i \<Rightarrow>
          if alive R i
          then R\<lparr>rt_transports := (rt_transports R)(i := (rt_transports R i)\<lparr>nt_sessionObject := x\<rparr>)\<rparr>
          else faulty R)"

definition hasPollHandle :: "'z NativeTransport \<Rightarrow> bool" where
  "hasPollHandle t \<longleftrightarrow> nt_pollInitialized t \<and> \<not> nt_pollClosed t"

fun envStep :: "'z host \<Rightarrow> nat \<Rightarrow> 'z envEvent \<Rightarrow> 'z runtime \<Rightarrow> 'z runtime" where
  "envStep E depth (CreateSession h) R =
     (if sh_session (rt_handles R h) \<or> sh_transport (rt_handles R h) \<noteq> None then R
      else setHandle h (\<lambda>k. k\<lparr>sh_session := True\<rparr>) R)"
| "envStep E depth (AttachTransport h granted ssl session textAsBuffer maxBackpressure bio io reactions) R =
     (if \<not> sh_session (rt_handles R h) \<or> sh_transport (rt_handles R h) \<noteq> None then R
      else storeTransport h
             (attachTransport h granted
                (newNativeTransport ssl session textAsBuffer maxBackpressure bio io reactions) R))"
| "envStep E depth (FromJs h s) R =
     (if \<not> sh_session (rt_handles R h) \<or> \<not> byJs s then R
      else case sh_transport (rt_handles R h) of None \<Rightarrow> R | Some i \<Rightarrow> onTransport E depth i s R)"
| "envStep E depth (FromLoop i s) R =
     (if i < rt_count R \<and> hasPollHandle (rt_transports R i) \<and> byLoop s then onTransport E depth i s R else R)"
| "envStep E depth (UseSession h x) R = (if sh_session (rt_handles R h) then useSession h x R else R)"
| "envStep E depth (Dispose h) R = dispose E depth h R"
| "envStep E depth CleanupHook R = (if rt_known R then cleanupNativeEnvironment E depth R else R)"

definition envRun :: "'z host \<Rightarrow> nat \<Rightarrow> 'z envEvent list \<Rightarrow> 'z runtime \<Rightarrow> 'z runtime" where
  "envRun E depth es = fold (envStep E depth) es"

text \<open>A process in which no addon was loaded yet, and one in which it was.\<close>

definition unloaded :: "(nat \<Rightarrow> 'z NativeTransport) \<Rightarrow> 'z runtime" where
  "unloaded ts =
     \<lparr>rt_known = False, rt_environment = None, rt_freed = 0,
      rt_links = (\<lambda>_. \<lparr>en_environment = False, en_registered = False, en_previous = None, en_next = None, en_storage = None\<rparr>),
      rt_transports = ts, rt_count = 0, rt_handles = (\<lambda>_. \<lparr>sh_session = False, sh_transport = None\<rparr>), rt_fault = False\<rparr>"

definition loaded :: "(nat \<Rightarrow> 'z NativeTransport) \<Rightarrow> 'z runtime" where
  "loaded ts = snd (initializeNativeEnvironment True (unloaded ts))"

section \<open>Lists through pointers\<close>

primrec chain :: "(nat \<Rightarrow> links) \<Rightarrow> nat option \<Rightarrow> nat list \<Rightarrow> nat option \<Rightarrow> bool" where
  "chain L p [] h \<longleftrightarrow> h = None"
| "chain L p (i # is) h \<longleftrightarrow> h = Some i \<and> en_previous (L i) = p \<and> chain L (Some i) is (en_next (L i))"

lemma chain_cong:
  "(\<And>i. i \<in> set is \<Longrightarrow> en_previous (L i) = en_previous (M i) \<and> en_next (L i) = en_next (M i)) \<Longrightarrow>
    chain L p is h = chain M p is h"
  by (induction "is" arbitrary: p h) auto

lemma chain_head: "chain L p is h \<Longrightarrow> h = (if is = [] then None else Some (hd is))"
  by (cases "is") auto

lemma chain_suffix:
  "chain L p (as @ i # bs) h \<Longrightarrow> en_previous (L i) = (if as = [] then p else Some (last as)) \<and> chain L (Some i) bs (en_next (L i))"
  by (induction as arbitrary: p h) (auto split: if_splits)

definition unlinked :: "nat \<Rightarrow> (nat \<Rightarrow> links) \<Rightarrow> nat \<Rightarrow> links" where
  "unlinked i L =
     (let l = L i;
          L = (case en_previous l of Some p \<Rightarrow> L(p := (L p)\<lparr>en_next := en_next l\<rparr>) | None \<Rightarrow> L)
      in case en_next l of Some n \<Rightarrow> L(n := (L n)\<lparr>en_previous := en_previous l\<rparr>) | None \<Rightarrow> L)"

lemma chain_unlinked:
  assumes "chain L p (as @ i # bs) h" "distinct (as @ i # bs)" "\<And>q. p = Some q \<Longrightarrow> q \<notin> set (as @ i # bs)"
  shows "chain (unlinked i L) p (as @ bs) (if as = [] then en_next (L i) else h)"
  using assms
proof (induction as arbitrary: p h)
  case Nil
  then have "en_previous (L i) = p" "chain L (Some i) bs (en_next (L i))" by simp_all
  show ?case
  proof (cases bs)
    case (Cons b cs)
    have "chain (unlinked i L) (Some b) cs (en_next (L b)) = chain L (Some b) cs (en_next (L b))"
      using Nil Cons by (intro chain_cong) (auto simp: unlinked_def Let_def split: option.splits)
    moreover have "en_previous (unlinked i L b) = p" "en_next (unlinked i L b) = en_next (L b)"
      using Nil Cons by (auto simp: unlinked_def Let_def split: option.splits)
    ultimately show ?thesis using Nil Cons by simp
  qed (use Nil in auto)
next
  case (Cons a as)
  have rest: "chain (unlinked i L) (Some a) (as @ bs) (if as = [] then en_next (L i) else en_next (L a))"
    using Cons by (intro Cons.IH) auto
  have pre: "en_previous (L i) = Some (last (a # as))" using chain_suffix [of L p "a # as" i bs h] Cons.prems(1) by simp
  have nx: "en_next (L i) = (if bs = [] then None else Some (hd bs))"
    using chain_suffix [of L p "a # as" i bs h] Cons.prems(1) chain_head by fastforce
  have "en_previous (unlinked i L a) = en_previous (L a)"
    "en_next (unlinked i L a) = (if as = [] then en_next (L i) else en_next (L a))"
    using pre nx Cons.prems(2) by (auto simp: unlinked_def Let_def split: if_splits)
  with rest Cons.prems(1) show ?case by simp
qed

section \<open>The invariant\<close>

definition headOf :: "'z runtime \<Rightarrow> nat option" where
  "headOf R = (case rt_environment R of None \<Rightarrow> None | Some e \<Rightarrow> ne_head e)"

text \<open>
  \<open>xs\<close> is the list: exactly the transports alive. A handle and its transport point to each other, until the
  transport is asked to go.
\<close>

definition listed :: "'z runtime \<Rightarrow> nat list \<Rightarrow> bool" where
  "listed R xs \<longleftrightarrow> distinct xs \<and> set xs = {i. alive R i} \<and> chain (rt_links R) None xs (headOf R) \<and>
     (\<forall>i. alive R i \<longrightarrow> en_registered (rt_links R i) \<and> en_environment (rt_links R i))"

definition handled :: "'z runtime \<Rightarrow> bool" where
  "handled R \<longleftrightarrow>
     (\<forall>h i. sh_transport (rt_handles R h) = Some i \<longleftrightarrow> i < rt_count R \<and> en_storage (rt_links R i) = Some h) \<and>
     (\<forall>i < rt_count R. en_storage (rt_links R i) \<noteq> None \<longrightarrow> \<not> nt_destroyRequested (rt_transports R i))"

definition rested :: "'z runtime \<Rightarrow> bool" where
  "rested R \<longleftrightarrow> \<not> rt_fault R \<and> (\<forall>i < rt_count R. resting (rt_transports R i))"

definition linked :: "'z runtime \<Rightarrow> nat list \<Rightarrow> bool" where
  "linked R xs \<longleftrightarrow> listed R xs \<and> handled R \<and> rested R"

lemma runtime_fields [simp]:
  "rt_transports (setLinks i f R) = rt_transports R" "rt_handles (setLinks i f R) = rt_handles R"
  "rt_environment (setLinks i f R) = rt_environment R" "rt_count (setLinks i f R) = rt_count R"
  "rt_fault (setLinks i f R) = rt_fault R" "rt_known (setLinks i f R) = rt_known R" "rt_freed (setLinks i f R) = rt_freed R"
  "rt_links (setLinks i f R) = (rt_links R)(i := f (rt_links R i))" "alive (setLinks i f R) = alive R"
  "rt_transports (setHandle h g R) = rt_transports R" "rt_handles (setHandle h g R) = (rt_handles R)(h := g (rt_handles R h))"
  "rt_environment (setHandle h g R) = rt_environment R" "rt_count (setHandle h g R) = rt_count R"
  "rt_fault (setHandle h g R) = rt_fault R" "rt_known (setHandle h g R) = rt_known R" "rt_freed (setHandle h g R) = rt_freed R"
  "rt_links (setHandle h g R) = rt_links R" "alive (setHandle h g R) = alive R"
  "headOf (setLinks i f R) = headOf R" "headOf (setHandle h g R) = headOf R"
  by (simp_all add: setLinks_def setHandle_def alive_def headOf_def fun_eq_iff)

lemma unlinkEnvironment_ok:
  assumes e: "rt_environment R = Some e" and i: "en_registered (rt_links R i)" "en_environment (rt_links R i)"
    and c: "chain (rt_links R) None (as @ i # bs) (ne_head e)" "distinct (as @ i # bs)"
    and a: "\<And>j. j \<in> set (as @ bs) \<Longrightarrow> alive R j"
  shows "\<exists>L h. unlinkEnvironment i R = R\<lparr>rt_links := L, rt_environment := Some (e\<lparr>ne_head := h\<rparr>)\<rparr> \<and>
    chain L None (as @ bs) h \<and> \<not> en_registered (L i) \<and>
    (\<forall>j. en_storage (L j) = en_storage (rt_links R j) \<and> en_environment (L j) = en_environment (rt_links R j)) \<and>
    (\<forall>j. j \<noteq> i \<longrightarrow> en_registered (L j) = en_registered (rt_links R j))"
proof -
  let ?L = "rt_links R"
  define M where "M = (unlinked i ?L)(i := (?L i)\<lparr>en_previous := None, en_next := None, en_registered := False\<rparr>)"
  define h where "h = (if as = [] then en_next (?L i) else ne_head e)"
  have pre: "en_previous (?L i) = (if as = [] then None else Some (last as))"
    using chain_suffix [OF c(1)] by simp
  have nx: "en_next (?L i) = (if bs = [] then None else Some (hd bs))"
    using chain_suffix [OF c(1)] chain_head by fastforce
  have ends: "as \<noteq> [] \<Longrightarrow> last as \<in> set (as @ bs) \<and> last as \<noteq> i" "bs \<noteq> [] \<Longrightarrow> hd bs \<in> set (as @ bs) \<and> hd bs \<noteq> i"
    "as \<noteq> [] \<Longrightarrow> bs \<noteq> [] \<Longrightarrow> last as \<noteq> hd bs"
    using c(2) last_in_set [of as] hd_in_set [of bs] by (auto, metis disjoint_iff)
  have "unlinkEnvironment i R = R\<lparr>rt_links := M, rt_environment := Some (e\<lparr>ne_head := h\<rparr>)\<rparr>"
  proof -
    have up: "as \<noteq> [] \<Longrightarrow> alive R (last as)" "bs \<noteq> [] \<Longrightarrow> alive R (hd bs)" using ends a by blast+
    have keep: "alive (R\<lparr>rt_environment := x\<rparr>) = alive R" for x by (simp add: alive_def fun_eq_iff)
    have same: "setLinks n f (R\<lparr>rt_environment := x\<rparr>) = (setLinks n f R)\<lparr>rt_environment := x\<rparr>" for n f x
      by (simp add: setLinks_def)
    show ?thesis
      using e i up
      by (cases "as = []"; cases "bs = []")
        (simp_all add: unlinkEnvironment_def M_def h_def unlinked_def pre nx keep same Let_def)
  qed
  moreover have "chain M None (as @ bs) h"
    using chain_unlinked [OF c(1,2)] c(2) unfolding M_def h_def by (subst chain_cong [where M = "unlinked i ?L"]) auto
  moreover have "\<forall>j. en_storage (M j) = en_storage (?L j) \<and> en_environment (M j) = en_environment (?L j)"
    "\<forall>j. j \<noteq> i \<longrightarrow> en_registered (M j) = en_registered (?L j)" "\<not> en_registered (M i)"
    by (auto simp: M_def unlinked_def Let_def split: option.splits)
  ultimately show ?thesis by blast
qed

lemma environment_of_alive:
  assumes "listed R xs" "alive R i"
  obtains e where "rt_environment R = Some e"
  using assms by (cases xs) (auto simp: listed_def headOf_def split: option.splits)

text \<open>The step of a transport, before it leaves the list.\<close>

definition ran :: "nat \<Rightarrow> 'z NativeTransport \<Rightarrow> 'z runtime \<Rightarrow> 'z runtime" where
  "ran i t R =
     (let R = R\<lparr>rt_transports := (rt_transports R)(i := t)\<rparr>
      in if nt_destroyRequested t \<and> \<not> nt_environmentCleaning t then forget i R else R)"

lemma ran_fields:
  assumes "nt_environmentCleaning t \<Longrightarrow> en_storage (rt_links R i) = None"
  shows "rt_transports (ran i t R) = (rt_transports R)(i := t)" "rt_count (ran i t R) = rt_count R"
    "rt_known (ran i t R) = rt_known R" "rt_freed (ran i t R) = rt_freed R" "rt_environment (ran i t R) = rt_environment R"
    "rt_fault (ran i t R) = rt_fault R" "headOf (ran i t R) = headOf R"
    "en_previous (rt_links (ran i t R) j) = en_previous (rt_links R j)" "en_next (rt_links (ran i t R) j) = en_next (rt_links R j)"
    "en_registered (rt_links (ran i t R) j) = en_registered (rt_links R j)"
    "en_environment (rt_links (ran i t R) j) = en_environment (rt_links R j)"
    "en_storage (rt_links (ran i t R) j) = (if j = i \<and> nt_destroyRequested t then None else en_storage (rt_links R j))"
    "chain (rt_links (ran i t R)) p xs h = chain (rt_links R) p xs h"
proof -
  show fields: "en_previous (rt_links (ran i t R) j) = en_previous (rt_links R j)" 
    "en_next (rt_links (ran i t R) j) = en_next (rt_links R j)" for j
    by (auto simp: ran_def forget_def Let_def split: option.splits)
  show "chain (rt_links (ran i t R)) p xs h = chain (rt_links R) p xs h" by (rule chain_cong) (simp add: fields)
qed (use assms in \<open>auto simp: ran_def forget_def Let_def headOf_def split: option.splits\<close>)

lemma ran_handled:
  assumes "handled R" "i < rt_count R" "nt_environmentCleaning t \<Longrightarrow> en_storage (rt_links R i) = None"
  shows "handled (ran i t R)"
proof -
  note f = ran_fields [OF assms(3)]
  have inj: "j = k" if "en_storage (rt_links R j) = Some h" "en_storage (rt_links R k) = Some h" "j < rt_count R" "k < rt_count R"
    for h j k using assms(1) that unfolding handled_def by (metis option.inject)
  have "sh_transport (rt_handles (ran i t R) h) = Some j \<longleftrightarrow>
      j < rt_count R \<and> (if j = i \<and> nt_destroyRequested t then None else en_storage (rt_links R j)) = Some h" for h j
    using assms inj [of i _ j] by (auto simp: ran_def forget_def Let_def handled_def split: option.splits)
  with assms(1) f show ?thesis by (simp add: handled_def)
qed

lemma ran_rested: "rested R \<Longrightarrow> resting t \<Longrightarrow> (nt_environmentCleaning t \<Longrightarrow> en_storage (rt_links R i) = None) \<Longrightarrow>
    rested (ran i t R)"
  by (simp add: rested_def ran_fields)

lemma runTransport_linked:
  assumes l: "linked R xs" and i: "alive R i" and e: "rt_environment R = Some e"
    and t': "t' = takeStep E (upcallsAt E depth) s (rt_transports R i)"
    and st: "nt_environmentCleaning t' \<Longrightarrow> en_storage (rt_links R i) = None"
  shows "linked (runTransport E depth i s R) (if nt_deleted t' then remove1 i xs else xs)"
    "rt_transports (runTransport E depth i s R) = (rt_transports R)(i := t')"
    "rt_count (runTransport E depth i s R) = rt_count R" "rt_known (runTransport E depth i s R) = rt_known R"
    "en_storage (rt_links (runTransport E depth i s R) j) = (if j = i \<and> nt_destroyRequested t' then None else en_storage (rt_links R j))"
    "if nt_deleted t' \<and> nt_environmentCleaning t' \<and> remove1 i xs = []
     then rt_environment (runTransport E depth i s R) = None \<and> rt_freed (runTransport E depth i s R) = rt_freed R + 1
     else map_option ne_cleaning (rt_environment (runTransport E depth i s R)) = Some (ne_cleaning e) \<and>
       rt_freed (runTransport E depth i s R) = rt_freed R"
proof -
  let ?R' = "runTransport E depth i s R" and ?R = "ran i t' R"
  have rt: "resting (rt_transports R i)" "i < rt_count R" "\<not> nt_deleted (rt_transports R i)"
    using l i by (simp_all add: linked_def rested_def alive_def)
  then have resting: "resting t'" using takeStep_settles [OF rt(1), of E depth s] by (simp add: settles_def t')
  note f = ran_fields [of t' R i, OF st]
  have same: "?R\<lparr>rt_links := L, rt_environment := x, rt_freed := rt_freed R\<rparr> = ?R\<lparr>rt_links := L, rt_environment := x\<rparr>" for L x
    by (rule runtime.equality) (simp_all add: f(4))
  have h: "handled ?R" "rested ?R" using l rt(2) resting st by (auto simp: linked_def intro: ran_handled ran_rested)
  have eq: "?R' = (if \<not> nt_deleted t' then ?R else if nt_environmentCleaning t' then finishEnvironmentCleanup i ?R
      else unlinkEnvironment i ?R)"
    using rt(3) by (simp add: runTransport_def becomes_def ran_def Let_def t')
  have xs: "distinct xs" "set xs = {i. alive R i}" "chain (rt_links R) None xs (ne_head e)" 
    "\<And>j. alive R j \<Longrightarrow> en_registered (rt_links R j) \<and> en_environment (rt_links R j)"
    using l e by (simp_all add: linked_def listed_def headOf_def)
  have alive: "alive ?R j \<longleftrightarrow> (if j = i then \<not> nt_deleted t' else alive R j)" for j using rt(2) f by (auto simp: alive_def)
  define result where "result \<longleftrightarrow> linked ?R' (if nt_deleted t' then remove1 i xs else xs) \<and>
    rt_transports ?R' = (rt_transports R)(i := t') \<and> rt_count ?R' = rt_count R \<and> rt_known ?R' = rt_known R \<and>
    en_storage (rt_links ?R' j) = (if j = i \<and> nt_destroyRequested t' then None else en_storage (rt_links R j)) \<and>
    (if nt_deleted t' \<and> nt_environmentCleaning t' \<and> remove1 i xs = []
     then rt_environment ?R' = None \<and> rt_freed ?R' = rt_freed R + 1
     else map_option ne_cleaning (rt_environment ?R') = Some (ne_cleaning e) \<and> rt_freed ?R' = rt_freed R)"
  have result
  proof (cases "nt_deleted t'")
    case False
    have "listed ?R xs" using xs False alive f i e by (auto simp: listed_def headOf_def)
    with False h eq f e show ?thesis
      by (simp add: linked_def result_def)
  next
    case True
    obtain as bs where ab: "xs = as @ i # bs" using i xs(2) split_list [of i xs] by auto
    then have rm: "remove1 i xs = as @ bs" using xs(1) by (simp add: remove1_append)
    have R: "rt_environment ?R = Some e" "en_registered (rt_links ?R i)" "en_environment (rt_links ?R i)"
      "chain (rt_links ?R) None (as @ i # bs) (ne_head e)" "distinct (as @ i # bs)" "\<And>j. j \<in> set (as @ bs) \<Longrightarrow> alive ?R j"
      using f e xs i alive ab True by auto
    obtain L hd' where u: "unlinkEnvironment i ?R = ?R\<lparr>rt_links := L, rt_environment := Some (e\<lparr>ne_head := hd'\<rparr>)\<rparr>"
      "chain L None (as @ bs) hd'" "\<not> en_registered (L i)"
      "\<forall>j. en_storage (L j) = en_storage (rt_links ?R j) \<and> en_environment (L j) = en_environment (rt_links ?R j)"
      "\<forall>j. j \<noteq> i \<longrightarrow> en_registered (L j) = en_registered (rt_links ?R j)"
      using unlinkEnvironment_ok [OF R] by blast
    have empty: "hd' = None \<longleftrightarrow> as @ bs = []" using chain_head [OF u(2)] by simp
    define M where "M = (if nt_environmentCleaning t' then L(i := (L i)\<lparr>en_environment := False\<rparr>) else L)"
    have M: "chain M None (as @ bs) hd'" "\<And>j. en_storage (M j) = en_storage (rt_links ?R j)"
      "\<And>j. j \<noteq> i \<Longrightarrow> en_registered (M j) = en_registered (rt_links ?R j) \<and> en_environment (M j) = en_environment (rt_links ?R j)"
      using u by (auto simp: M_def chain_cong [where L = "L(i := k)" and M = L for k])
    define env where "env = (if nt_environmentCleaning t' \<and> as @ bs = [] then None else Some (e\<lparr>ne_head := hd'\<rparr>))"
    define freed where "freed = rt_freed R + of_bool (nt_environmentCleaning t' \<and> as @ bs = [])"
    have R': "?R' = ?R\<lparr>rt_links := M, rt_environment := env, rt_freed := freed\<rparr>"
    proof (cases "nt_environmentCleaning t'")
      case clean: True
      have "en_environment (rt_links ?R i)" using f(11) [of i] xs(4) [OF i] by simp
      then have "?R' = completeNativeEnvironmentCleanup True (?R\<lparr>rt_environment := Some (e\<lparr>ne_head := hd'\<rparr>), rt_links := M\<rparr>)"
        using True clean by (simp add: eq u(1) M_def finishEnvironmentCleanup_def setLinks_def)
      then show ?thesis
        using clean empty same [where L = M] f(4)
        by (cases "as @ bs = []") (simp_all add: env_def freed_def completeNativeEnvironmentCleanup_def)
    next
      case False
      with True same show ?thesis by (simp add: eq u(1) M_def env_def freed_def)
    qed
    have "listed ?R' (as @ bs)"
    proof -
      have al: "alive ?R' j \<longleftrightarrow> j \<noteq> i \<and> alive R j" for j
        using alive [of j] True by (simp add: R') (simp add: alive_def)
      have "distinct (as @ bs)" "set (as @ bs) = {j. alive ?R' j}" using xs(1,2) ab al by auto
      moreover have "headOf ?R' = hd'" using empty by (auto simp: R' headOf_def env_def)
      moreover have "en_registered (rt_links ?R' j) \<and> en_environment (rt_links ?R' j)" if "alive ?R' j" for j
        using that al [of j] M(3) [of j] xs(4) [of j] f(10,11) by (simp add: R')
      moreover have "chain (rt_links ?R') None (as @ bs) hd'" using M(1) by (simp add: R')
      ultimately show ?thesis by (simp add: listed_def)
    qed
    moreover have "handled ?R'" "rested ?R'" using h M(2) unfolding R' by (simp_all add: handled_def rested_def)
    ultimately show ?thesis
      using True rm f M(2) unfolding linked_def result_def by (simp add: R' env_def freed_def)
  qed
  then show "linked ?R' (if nt_deleted t' then remove1 i xs else xs)" "rt_transports ?R' = (rt_transports R)(i := t')"
    "rt_count ?R' = rt_count R" "rt_known ?R' = rt_known R"
    "en_storage (rt_links ?R' j) = (if j = i \<and> nt_destroyRequested t' then None else en_storage (rt_links R j))"
    "if nt_deleted t' \<and> nt_environmentCleaning t' \<and> remove1 i xs = []
     then rt_environment ?R' = None \<and> rt_freed ?R' = rt_freed R + 1
     else map_option ne_cleaning (rt_environment ?R') = Some (ne_cleaning e) \<and> rt_freed ?R' = rt_freed R"
    unfolding result_def by blast+
qed

section \<open>The steps of a transport and the environment\<close>

text \<open>A transport that waits for the callback of \<open>uv_close\<close> to be deleted.\<close>

definition waiting :: "'z NativeTransport \<Rightarrow> bool" where
  "waiting t \<longleftrightarrow> nt_environmentCleaning t \<and> nt_uvClosing t \<and> \<not> nt_pollClosed t"

lemma nt_delete_quiet:
  assumes "nt_queue t = []"
  shows "nt_delete U t = t\<lparr>nt_deleted := True, nt_descriptor := False\<rparr>"
  using assms by (simp add: nt_delete_def cancelWrites_def)

lemma cleanup_deletes_or_waits:
  assumes "resting t" "\<not> nt_deleted t"
  shows "nt_environmentCleaning (takeStep E (upcallsAt E depth) EnvironmentCleanup t)"
    "nt_deleted (takeStep E (upcallsAt E depth) EnvironmentCleanup t) \<or>
      waiting (takeStep E (upcallsAt E depth) EnvironmentCleanup t)"
proof -
  let ?U = "upcallsAt E depth"
  let ?e = "t\<lparr>nt_environmentCleaning := True, nt_destroyRequested := True, nt_session := False\<rparr>"
  let ?c = "closeNow ?U UV_ECANCELED ?e"
  have f: "follows ?e ?c" "nt_closing ?c" using calls.closeNow_ok by auto
  have "resting ?e"
  proof -
    have "nt_history ?e = nt_history t" by simp
    note h = logged_eq [OF this]
    have "gone_ok ?e = gone_ok t" by (rule gone_same) simp_all
    then have "sound ?e"
      using assms(1) by (simp add: resting_def soundWith_def queue_ok_def bytes_ok_def cipher_ok_def calls_ok_def flags_ok_def h)
    with assms(1) show ?thesis
      by (simp add: resting_def quiet_def bounded_def backpressureExceeded_def lifetime_def)
  qed
  then have r: "resting ?c" using follows_settles [OF f(1)] by (simp add: settles_def)
  have c: "nt_environmentCleaning ?c" using f by (simp add: follows_def static_def)
  have q: "nt_queue ?c = []" using r f by (simp add: resting_def quiet_def)
  have step: "takeStep E ?U EnvironmentCleanup t = (if \<not> nt_pollInitialized ?c \<or> nt_pollClosed ?c then nt_delete ?U ?c else ?c)"
    using assms(2) by (simp add: takeStep_def beginEnvironmentCleanup_def)
  show "nt_environmentCleaning (takeStep E ?U EnvironmentCleanup t)" using c by (simp add: step nt_delete_quiet [OF q])
  have "nt_uvClosing ?c" if "nt_pollInitialized ?c"
    using that r f by (simp add: resting_def lifetime_def soundWith_def flags_ok_def)
  then show "nt_deleted (takeStep E ?U EnvironmentCleanup t) \<or> waiting (takeStep E ?U EnvironmentCleanup t)"
    using c by (simp add: step nt_delete_quiet [OF q] waiting_def)
qed

lemma waiting_deleted:
  assumes "waiting t" "resting t" "\<not> nt_deleted t"
  shows "takeStep E U PollClosed t = t\<lparr>nt_pollClosed := True, nt_deleted := True, nt_descriptor := False\<rparr>"
proof -
  have "nt_queue (t\<lparr>nt_pollClosed := True\<rparr>) = []"
    using assms by (auto simp: waiting_def resting_def quiet_def soundWith_def flags_ok_def)
  from nt_delete_quiet [OF this] assms show ?thesis by (simp add: takeStep_def onPollClosed_def waiting_def)
qed

lemma waiting_poll:
  assumes "waiting t" "resting t"
  shows "takeStep E U (Poll error reading writing) t = t"
  using assms by (auto simp: takeStep_def nt_poll_def waiting_def resting_def soundWith_def flags_ok_def)

lemma follows_cleaning: "follows t u \<Longrightarrow> nt_environmentCleaning u = nt_environmentCleaning t"
  by (simp add: follows_def static_def)

lemma activate_cleaning: "nt_environmentCleaning (snd (activate E (upcallsAt E depth) t)) = nt_environmentCleaning t"
proof (cases "nt_active t \<or> nt_closing t")
  case True
  then show ?thesis by (simp add: activate_def)
next
  case idle: False
  let ?U = "upcallsAt E depth"
  let ?b = "if nt_ssl t then t\<lparr>nt_nodeBIOs := sslWriteBIO E\<rparr> else t"
  show ?thesis
  proof (cases "nt_ssl t \<and> \<not> (sslReadBIO E \<and> sslWriteBIO E)")
    case True
    with idle show ?thesis by (simp add: activate_def)
  next
    case bios: False
    obtain a u where u: "nextAnswer ?b = (a, u)" by (cases "nextAnswer ?b")
    obtain io where io: "u = ?b\<lparr>nt_io := io\<rparr>" using nextAnswer_fields [OF u] by blast
    let ?p = "u\<lparr>nt_pollInitialized := True, nt_active := True\<rparr>"
    obtain ok v where v: "(if nt_ssl ?p then processMemoryBIO E ?U ?p else (True, ?p)) = (ok, v)" by (cases rule: prod.exhaust)
    have f: "follows ?p v"
      using v calls.processMemoryBIO_steady [of ?p E E depth ok v] by (auto simp: steady_def split: if_splits)
    have u': "nt_environmentCleaning u = nt_environmentCleaning t" using io by simp
    have v': "nt_environmentCleaning v = nt_environmentCleaning t" using follows_cleaning [OF f] io by simp
    have w: "nt_environmentCleaning (updatePoll E ?U (flushWrites E ?U v)) = nt_environmentCleaning t"
      by (simp add: follows_cleaning [OF follows_trans [OF calls.flushWrites_follows calls.updatePoll_follows]] v')
    have "activate E ?U t = (case (a, u) of (Failure e, t) \<Rightarrow> (UV_ERRNO e, t) | _ \<Rightarrow>
        (if \<not> ok then (UV_EIO, v) else let t = updatePoll E ?U (flushWrites E ?U v) in (if nt_closing t then UV_EIO else UV_OK, t)))"
      using idle bios unfolding activate_def Let_def u prod.case v by simp
    then show ?thesis using u' v' w by (cases a) (simp_all add: Let_def)
  qed
qed

lemma onPollClosed_cleaning:
  assumes "nt_uvClosing t" "\<not> nt_deleted t" "resting t"
  shows "nt_environmentCleaning (onPollClosed (upcallsAt E depth) t) = nt_environmentCleaning t"
proof (cases "nt_environmentCleaning t")
  case True
  have "nt_queue (t\<lparr>nt_pollClosed := True\<rparr>) = []"
    using assms by (auto simp: resting_def quiet_def soundWith_def flags_ok_def)
  from nt_delete_quiet [OF this] True show ?thesis by (simp add: onPollClosed_def)
next
  case False
  let ?U = "upcallsAt E depth" and ?i = "t\<lparr>nt_pollClosed := True, nt_insideCloseCallback := True\<rparr>"
  obtain ok u where u: "callOwner ?U OnClosed ?i = (ok, u)" by (cases rule: prod.exhaust)
  let ?v = "u\<lparr>nt_insideCloseCallback := False\<rparr>"
  have f: "follows ?i u" by (rule calls.callOwner_follows [OF _ u]) simp
  have c: "nt_closing t" using assms by (simp add: resting_def soundWith_def flags_ok_def)
  then have c': "nt_closing ?v" using f by (simp add: follows_def frozen_def)
  have p: "nt_pollClosed ?v" using f by (simp add: follows_def static_def)
  have "follows ?v (nt_delete ?U ?v)" if "nt_destroyRequested ?v"
    using that c' p by (intro calls.nt_delete_follows) (simp_all add: undeleted_def)
  from follows_cleaning [OF this] follows_cleaning [OF f] u False show ?thesis
    by (simp add: onPollClosed_def Let_def)
qed

lemma takeStep_cleaning:
  assumes "resting t" "s \<noteq> EnvironmentCleanup"
  shows "nt_environmentCleaning (takeStep E (upcallsAt E depth) s t) = nt_environmentCleaning t"
proof (cases s)
  case (Poll error reading writing)
  then show ?thesis by (simp add: takeStep_def follows_cleaning [OF calls.nt_poll_follows])
next
  case (Feed dat)
  then show ?thesis by (simp add: takeStep_def follows_cleaning [OF feed_follows])
next
  case (Act a)
  then show ?thesis by (simp add: takeStep_def follows_cleaning [OF calls.perform_follows])
qed (use assms in \<open>simp_all add: takeStep_def activate_cleaning onPollClosed_cleaning\<close>)

section \<open>The environment between events\<close>

definition detached :: "'z runtime \<Rightarrow> nat \<Rightarrow> bool" where
  "detached R i \<longleftrightarrow> waiting (rt_transports R i) \<and> en_storage (rt_links R i) = None"

text \<open>
  Before the cleanup no transport of the list is being cleaned; after it all of them wait, out of reach of
  JavaScript, and the environment is freed with the last one.
\<close>

definition phase :: "'z runtime \<Rightarrow> nat list \<Rightarrow> bool" where
  "phase R xs \<longleftrightarrow> (case rt_environment R of
        None \<Rightarrow> xs = [] \<and> \<not> rt_known R \<and> rt_freed R = 1
      | Some e \<Rightarrow> rt_freed R = 0 \<and> rt_known R = (\<not> ne_cleaning e) \<and>
          (if ne_cleaning e then xs \<noteq> [] \<and> (\<forall>i \<in> set xs. detached R i)
           else \<forall>i \<in> set xs. \<not> nt_environmentCleaning (rt_transports R i)))"

definition orderly :: "'z runtime \<Rightarrow> bool" where
  "orderly R \<longleftrightarrow> (\<exists>xs. linked R xs \<and> phase R xs)"

lemma orderlyI: "linked R xs \<Longrightarrow> phase R xs \<Longrightarrow> orderly R"
  by (auto simp: orderly_def)

lemma onTransport_orderly:
  assumes o: "orderly R" and i: "alive R i" and s: "s \<noteq> EnvironmentCleanup"
    "byLoop s \<or> en_storage (rt_links R i) \<noteq> None \<or> \<not> nt_environmentCleaning (rt_transports R i)"
  shows "orderly (runTransport E depth i s R)"
proof -
  let ?R = "runTransport E depth i s R"
  obtain xs where l: "linked R xs" and env: "phase R xs"
    using o by (auto simp: orderly_def)
  note env = env [unfolded phase_def]
  have ix: "i \<in> set xs" "distinct xs" using l i by (simp_all add: linked_def listed_def)
  obtain e where e: "rt_environment R = Some e" using l environment_of_alive [OF _ i, of xs] unfolding linked_def by blast
  define t' where "t' = takeStep E (upcallsAt E depth) s (rt_transports R i)"
  have rt: "resting (rt_transports R i)" "\<not> nt_deleted (rt_transports R i)"
    using l i by (simp_all add: linked_def rested_def alive_def)
  have clean: "nt_environmentCleaning t' = nt_environmentCleaning (rt_transports R i)"
    unfolding t'_def by (rule takeStep_cleaning [OF rt(1) s(1)])
  have st: "nt_environmentCleaning t' \<Longrightarrow> en_storage (rt_links R i) = None"
    using env e ix clean by (auto simp: detached_def split: if_splits)
  note ran = runTransport_linked [OF l i e t'_def st]
  let ?ys = "if nt_deleted t' then remove1 i xs else xs"
  have ys: "set ?ys = (if nt_deleted t' then set xs - {i} else set xs)" using ix by simp
  show ?thesis
  proof (cases "ne_cleaning e")
    case False
    have "\<not> nt_environmentCleaning (rt_transports R i)" using False env e ix by simp
    then have "map_option ne_cleaning (rt_environment ?R) = Some False" "rt_freed ?R = rt_freed R"
      "\<forall>j \<in> set ?ys. \<not> nt_environmentCleaning (rt_transports ?R j)"
      using ran(2,6) False clean env e ys by (auto split: if_splits)
    with ran(1,4) False env e show ?thesis
      by (intro orderlyI [of _ ?ys]) (auto simp: phase_def split: option.splits)
  next
    case True
    then have w: "waiting (rt_transports R i)" "detached R j" if "j \<in> set xs" for j
      using env e ix that by (auto simp: detached_def)
    have "byLoop s" using s w ix True env e by (auto simp: detached_def waiting_def)
    then consider "\<exists>a b c. s = Poll a b c" | "s = PollClosed" by (cases s) auto
    then show ?thesis
    proof cases
      case 1
      then have "t' = rt_transports R i" using waiting_poll [OF w(1) [OF ix(1)] rt(1)] by (auto simp: t'_def)
      moreover from this have "\<forall>j \<in> set xs. detached ?R j"
        using w ran(2) ran(5) True env e by (auto simp: detached_def)
      ultimately show ?thesis using ran(1,4,6) True env e rt(2)
        by (intro orderlyI [of _ xs]) (auto simp: phase_def split: option.splits)
    next
      case 2
      have d: "nt_deleted t'" "nt_environmentCleaning t'"
        using waiting_deleted [OF w(1) [OF ix(1)] rt(1,2)] w(1) [OF ix(1)] 2 by (simp_all add: t'_def waiting_def)
      moreover have "\<forall>j \<in> set ?ys. detached ?R j"
        using w ran(2) ran(5) ys d by (auto simp: detached_def)
      ultimately show ?thesis using ran(1,4,6) True env e
        by (intro orderlyI [of _ ?ys]) (auto simp: phase_def split: option.splits if_splits)
    qed
  qed
qed

section \<open>The cleanup\<close>

lemma clearStorage_fields:
  "rt_transports (clearStorage i R) = rt_transports R" "rt_count (clearStorage i R) = rt_count R"
  "rt_known (clearStorage i R) = rt_known R" "rt_freed (clearStorage i R) = rt_freed R"
  "rt_environment (clearStorage i R) = rt_environment R" "rt_fault (clearStorage i R) = rt_fault R"
  "alive (clearStorage i R) = alive R" "headOf (clearStorage i R) = headOf R"
  "en_storage (rt_links (clearStorage i R) j) = (if j = i then None else en_storage (rt_links R j))"
  by (auto simp: clearStorage_def Let_def split: option.splits)

lemma clearStorage_linked:
  assumes "linked R xs" "alive R i"
  shows "linked (clearStorage i R) xs"
proof -
  have fields: "en_previous (rt_links (clearStorage i R) j) = en_previous (rt_links R j)"
    "en_next (rt_links (clearStorage i R) j) = en_next (rt_links R j)"
    "en_registered (rt_links (clearStorage i R) j) = en_registered (rt_links R j)"
    "en_environment (rt_links (clearStorage i R) j) = en_environment (rt_links R j)" for j
    by (auto simp: clearStorage_def Let_def split: option.splits)
  then have "chain (rt_links (clearStorage i R)) None xs (headOf R) = chain (rt_links R) None xs (headOf R)"
    by (intro chain_cong) simp
  with assms have "listed (clearStorage i R) xs"
    by (simp add: linked_def listed_def clearStorage_fields fields)
  moreover have "handled (clearStorage i R)"
  proof -
    have h: "handled R" "i < rt_count R" using assms by (simp_all add: linked_def alive_def)
    have inj: "j = i" if "en_storage (rt_links R j) = Some h" "en_storage (rt_links R i) = Some h" "j < rt_count R" for h j
      using h that unfolding handled_def by (metis option.inject)
    have "sh_transport (rt_handles (clearStorage i R) h) = Some j \<longleftrightarrow>
        j < rt_count R \<and> (if j = i then None else en_storage (rt_links R j)) = Some h" for h j
      using h inj [of j] by (auto simp: clearStorage_def Let_def handled_def split: option.splits)
    with h show ?thesis by (simp add: handled_def clearStorage_fields)
  qed
  moreover have "rested (clearStorage i R)" using assms by (simp add: linked_def rested_def clearStorage_fields)
  ultimately show ?thesis by (simp add: linked_def)
qed

text \<open>\<open>ds\<close> are the transports the loop has passed and left in the list, \<open>ys\<close> those before it.\<close>

definition cleaningUp :: "'z runtime \<Rightarrow> nat list \<Rightarrow> nat list \<Rightarrow> bool" where
  "cleaningUp R ds ys \<longleftrightarrow> linked R (ds @ ys) \<and> \<not> rt_known R \<and> (\<forall>i \<in> set ds. detached R i) \<and>
     (case rt_environment R of
        None \<Rightarrow> ds @ ys = [] \<and> rt_freed R = 1
      | Some e \<Rightarrow> ds @ ys \<noteq> [] \<and> ne_cleaning e \<and> rt_freed R = 0)"

lemma beginCleanup_cleaningUp:
  assumes "cleaningUp R ds (i # ys)"
  shows "cleaningUp (beginCleanup E depth i R) ds ys \<or> cleaningUp (beginCleanup E depth i R) (ds @ [i]) ys"
proof -
  let ?C = "clearStorage i R" and ?R = "beginCleanup E depth i R"
  have l: "linked R (ds @ i # ys)" and env: "\<exists>e. rt_environment R = Some e \<and> ne_cleaning e \<and> rt_freed R = 0 \<and> \<not> rt_known R"
    and ds: "\<forall>j \<in> set ds. detached R j"
    using assms by (auto simp: cleaningUp_def split: option.splits)
  then have xs: "distinct (ds @ i # ys)" "set (ds @ i # ys) = {i. alive R i}" by (simp_all add: linked_def listed_def)
  then have i: "alive R i" "alive ?C i" by (auto simp: clearStorage_fields)
  obtain e where e: "rt_environment ?C = Some e" "ne_cleaning e" using env by (auto simp: clearStorage_fields)
  define t' where "t' = takeStep E (upcallsAt E depth) EnvironmentCleanup (rt_transports ?C i)"
  have rt: "resting (rt_transports ?C i)" "\<not> nt_deleted (rt_transports ?C i)"
    using l i(1) by (simp_all add: linked_def rested_def alive_def clearStorage_fields)
  have t: "nt_environmentCleaning t'" "nt_deleted t' \<or> waiting t'"
    unfolding t'_def by (rule cleanup_deletes_or_waits [OF rt])+
  note ran = runTransport_linked [OF clearStorage_linked [OF l i(1)] i(2) e(1) t'_def, folded beginCleanup_def]
  have ran': "linked ?R (if nt_deleted t' then ds @ ys else ds @ i # ys)" "rt_transports ?R = (rt_transports R)(i := t')"
    "\<not> rt_known ?R" "\<And>j. j \<noteq> i \<Longrightarrow> en_storage (rt_links ?R j) = en_storage (rt_links R j)" "en_storage (rt_links ?R i) = None"
    "if nt_deleted t' \<and> ds @ ys = [] then rt_environment ?R = None \<and> rt_freed ?R = 1
     else map_option ne_cleaning (rt_environment ?R) = Some True \<and> rt_freed ?R = 0"
    using ran t(1) xs(1) e env by (auto simp: clearStorage_fields remove1_append)
  have d: "\<forall>j \<in> set ds. detached ?R j" using ds xs(1) ran'(2,4) by (auto simp: detached_def)
  show ?thesis
  proof (cases "nt_deleted t'")
    case True
    with ran' d have "cleaningUp ?R ds ys" by (auto simp: cleaningUp_def split: option.splits if_splits)
    then show ?thesis ..
  next
    case False
    with t have "detached ?R i" using ran'(2,5) by (simp add: detached_def)
    with False ran' d have "cleaningUp ?R (ds @ [i]) ys" by (auto simp: cleaningUp_def split: option.splits)
    then show ?thesis ..
  qed
qed

lemma cleanupLoop_orderly:
  "cleaningUp R ds ys \<Longrightarrow> length ys \<le> fuel \<Longrightarrow>
    orderly (cleanupLoop E depth fuel (if ys = [] then None else Some (hd ys)) R)"
proof (induction fuel arbitrary: R ds ys)
  case 0
  then show ?case by (auto simp: cleaningUp_def orderly_def phase_def split: option.splits)
next
  case (Suc fuel)
  show ?case
  proof (cases ys)
    case Nil
    with Suc.prems show ?thesis by (auto simp: cleaningUp_def orderly_def phase_def split: option.splits)
  next
    case (Cons i zs)
    have l: "linked R (ds @ i # zs)" using Suc.prems Cons by (simp add: cleaningUp_def)
    then have i: "alive R i" "chain (rt_links R) (Some i) zs (en_next (rt_links R i))"
      using chain_suffix [of "rt_links R" None ds i zs] by (auto simp: linked_def listed_def)
    have "orderly (cleanupLoop E depth fuel (if zs = [] then None else Some (hd zs)) (beginCleanup E depth i R))"
      using beginCleanup_cleaningUp [of R ds i zs E depth] Suc.IH [of "beginCleanup E depth i R" _ zs] Suc.prems Cons by auto
    with Cons i(1) chain_head [OF i(2)] show ?thesis by simp
  qed
qed

lemma cleanupNativeEnvironment_orderly:
  assumes "orderly R" "rt_known R"
  shows "orderly (cleanupNativeEnvironment E depth R)"
proof -
  obtain xs where l: "linked R xs" and env: "phase R xs"
    using assms unfolding orderly_def by blast
  obtain e where e: "rt_environment R = Some e" "rt_freed R = 0" using env assms(2) by (auto simp: phase_def split: option.splits)
  let ?R = "R\<lparr>rt_environment := Some (e\<lparr>ne_cleaning := True, ne_cleanupHook := True\<rparr>), rt_known := False\<rparr>"
  have alive: "alive ?R = alive R" by (simp add: alive_def fun_eq_iff)
  have l': "linked ?R xs" using l e alive by (simp add: linked_def listed_def handled_def rested_def headOf_def)
  have hd: "ne_head e = (if xs = [] then None else Some (hd xs))"
    using l e chain_head by (fastforce simp: linked_def listed_def headOf_def)
  show ?thesis
  proof (cases "xs = []")
    case True
    have "linked (?R\<lparr>rt_environment := None, rt_freed := 1\<rparr>) []"
      using l' True alive by (auto simp: linked_def listed_def handled_def rested_def headOf_def alive_def)
    with True hd e show ?thesis
      by (simp add: cleanupNativeEnvironment_def completeNativeEnvironmentCleanup_def orderly_def phase_def)
  next
    case False
    have "set xs \<subseteq> {..<rt_count R}" "distinct xs" using l by (auto simp: linked_def listed_def alive_def)
    then have "length xs \<le> rt_count R" using card_mono [of "{..<rt_count R}" "set xs"] distinct_card [of xs] by simp
    moreover have "cleaningUp ?R [] xs" using l' False e by (simp add: cleaningUp_def)
    ultimately show ?thesis
      using False hd e cleanupLoop_orderly [of ?R "[]" xs "rt_count R" E depth] by (simp add: cleanupNativeEnvironment_def)
  qed
qed

section \<open>Every event keeps the environment in order\<close>

lemma orderly_handles:
  assumes "orderly R" "sh_transport (rt_handles R h) = Some i"
  shows "alive R i" "en_storage (rt_links R i) = Some h" "rt_known R"
    "\<not> nt_environmentCleaning (rt_transports R i)" "\<not> nt_destroyRequested (rt_transports R i)"
proof -
  obtain xs where l: "linked R xs" and env: "phase R xs"
    using assms(1) unfolding orderly_def by blast
  have h: "i < rt_count R" "en_storage (rt_links R i) = Some h" "\<not> nt_destroyRequested (rt_transports R i)"
    using l assms(2) by (auto simp: linked_def handled_def)
  then have "resting (rt_transports R i)" using l by (simp add: linked_def rested_def)
  then have "\<not> nt_deleted (rt_transports R i)" "\<not> nt_environmentCleaning (rt_transports R i)"
    using h(3) by (auto simp: resting_def lifetime_def)
  with h(1) show a: "alive R i" and "\<not> nt_environmentCleaning (rt_transports R i)" by (simp_all add: alive_def)
  with l have ix: "i \<in> set xs" by (simp add: linked_def listed_def)
  with env h(2) show "rt_known R" by (auto simp: phase_def detached_def split: option.splits if_splits)
  show "en_storage (rt_links R i) = Some h" "\<not> nt_destroyRequested (rt_transports R i)" using h by simp_all
qed

lemma orderly_session: "orderly R \<Longrightarrow> orderly (setHandle h (\<lambda>k. k\<lparr>sh_session := b\<rparr>) R)"
proof -
  assume o: "orderly R"
  let ?R = "setHandle h (\<lambda>k. k\<lparr>sh_session := b\<rparr>) R"
  have "sh_transport (rt_handles ?R k) = sh_transport (rt_handles R k)" for k by simp
  then have "handled ?R = handled R" unfolding handled_def by simp
  then have "linked ?R xs = linked R xs" for xs by (simp add: linked_def listed_def rested_def)
  moreover have d: "detached ?R = detached R" by (simp add: detached_def fun_eq_iff)
  have "phase ?R xs = phase R xs" for xs unfolding phase_def d runtime_fields ..
  ultimately show "orderly ?R" using o by (simp add: orderly_def)
qed

lemma dispose_orderly:
  assumes "orderly R"
  shows "orderly (dispose E depth h R)"
proof (cases "sh_transport (rt_handles R h)")
  case None
  with assms show ?thesis by (simp add: dispose_def orderly_session)
next
  case (Some i)
  note h = orderly_handles [OF assms Some]
  let ?R = "setLinks i (\<lambda>l. l\<lparr>en_storage := None\<rparr>)
    (setHandle h (\<lambda>k. k\<lparr>sh_transport := None, sh_session := False\<rparr>) R)"
  obtain xs where l: "linked R xs" and env: "phase R xs"
    using assms unfolding orderly_def by blast
  have k: "sh_transport (rt_handles R k) = Some j \<longleftrightarrow> j < rt_count R \<and> en_storage (rt_links R j) = Some k" for k j
    using l by (simp add: linked_def handled_def)
  have inj: "j = i" if "en_storage (rt_links R j) = Some h" "j < rt_count R" for j
    using k [of h j] that Some by simp
  have "chain (rt_links ?R) None xs (headOf R) = chain (rt_links R) None xs (headOf R)" by (rule chain_cong) simp
  with l have "listed ?R xs" by (simp add: linked_def listed_def)
  moreover have "handled ?R"
  proof -
    have "sh_transport (rt_handles ?R k) = Some j \<longleftrightarrow> j < rt_count ?R \<and> en_storage (rt_links ?R j) = Some k" for k j
    proof (cases "k = h")
      case True
      with inj [of j] show ?thesis by auto
    next
      case False
      with k [of k j] h(2) show ?thesis by auto
    qed
    moreover have "\<not> nt_destroyRequested (rt_transports ?R j)" if "j < rt_count ?R" "en_storage (rt_links ?R j) \<noteq> None" for j
    proof -
      have "en_storage (rt_links R j) \<noteq> None" using that(2) by (cases "j = i") simp_all
      with l that(1) show ?thesis by (simp add: linked_def handled_def)
    qed
    ultimately show ?thesis unfolding handled_def by blast
  qed
  moreover have "rested ?R" using l by (simp add: linked_def rested_def)
  ultimately have l': "linked ?R xs" by (simp add: linked_def)
  have "phase ?R xs" using env h(3) unfolding phase_def runtime_fields by (simp split: option.splits)
  then have "orderly ?R" using l' by (rule orderlyI [rotated])
  then have "orderly (runTransport E depth i (Act Destroy) ?R)"
    by (rule onTransport_orderly) (use h(1,4) in simp_all)
  with Some h(1) show ?thesis by (simp add: dispose_def)
qed

lemma setHandle_same: "g (rt_handles R h) = rt_handles R h \<Longrightarrow> setHandle h g R = R"
  by (simp add: setHandle_def fun_upd_idem)

lemma storeTransport_None: "sh_transport (rt_handles R h) = None \<Longrightarrow> storeTransport h (None, R) = R"
  by (simp add: storeTransport_def) (rule setHandle_same, cases "rt_handles R h", simp)

lemma attachTransport_refused:
  assumes "\<not> rt_known R \<or> \<not> granted" "sh_transport (rt_handles R h) = None"
  shows "storeTransport h (attachTransport h granted t R) = R"
proof -
  have "attachTransport h granted t R = (None, R)"
    using assms(1) by (auto simp: attachTransport_def getNativeEnvironment_def split: option.split)
  with storeTransport_None [OF assms(2)] show ?thesis by simp
qed

lemma attachTransport_orderly:
  assumes "orderly R" "resting t" "\<not> nt_deleted t" "\<not> nt_destroyRequested t" "\<not> nt_environmentCleaning t"
    "sh_transport (rt_handles R h) = None" "sh_session (rt_handles R h)"
  shows "orderly (storeTransport h (attachTransport h granted t R))"
proof (cases "rt_known R \<and> granted")
  case False
  with assms(1) attachTransport_refused [OF _ assms(6)] show ?thesis by auto
next
  case True
  obtain xs where l: "linked R xs" and env: "phase R xs"
    using assms(1) unfolding orderly_def by blast
  obtain e where e: "rt_environment R = Some e" "\<not> ne_cleaning e" "rt_freed R = 0"
    using env True by (auto simp: phase_def split: option.splits)
  have free: "sh_transport (rt_handles R h) = None" "rt_known R" using True assms(6) by blast+
  let ?i = "rt_count R" and ?R = "storeTransport h (attachTransport h granted t R)"
  have lf: "distinct xs" "set xs = {i. alive R i}" "chain (rt_links R) None xs (ne_head e)"
    "\<And>i. alive R i \<Longrightarrow> en_registered (rt_links R i) \<and> en_environment (rt_links R i)" "\<not> rt_fault R"
    using l e by (simp_all add: linked_def listed_def headOf_def rested_def)
  have new: "?i \<notin> set xs" using lf(2) by (simp add: alive_def)
  have hd: "ne_head e = (if xs = [] then None else Some (hd xs))" using lf(3) by (rule chain_head)
  have hd_alive: "xs \<noteq> [] \<Longrightarrow> hd xs < rt_count R \<and> \<not> nt_deleted (rt_transports R (hd xs))"
    using lf(2) hd_in_set [of xs] by (auto simp: alive_def)
  define L where "L = (let L = (rt_links R)(?i := \<lparr>en_environment = True, en_registered = True, en_previous = None,
      en_next = ne_head e, en_storage = Some h\<rparr>)
    in if xs = [] then L else L(hd xs := (L (hd xs))\<lparr>en_previous := Some ?i\<rparr>))"
  have R: "?R = R\<lparr>rt_count := ?i + 1, rt_transports := (rt_transports R)(?i := t), rt_links := L,
      rt_environment := Some (e\<lparr>ne_head := Some ?i\<rparr>),
      rt_handles := (rt_handles R)(h := (rt_handles R h)\<lparr>sh_transport := Some ?i\<rparr>)\<rparr>"
    using True e hd hd_alive
    by (auto simp: storeTransport_def attachTransport_def getNativeEnvironment_def newTransport_def linkEnvironment_def setLinks_def setHandle_def
        L_def Let_def alive_def fun_upd_twist)
  have Lf: "en_storage (L j) = (if j = ?i then Some h else en_storage (rt_links R j))"
    "j \<noteq> ?i \<Longrightarrow> en_registered (L j) = en_registered (rt_links R j) \<and> en_environment (L j) = en_environment (rt_links R j)"
    "en_registered (L ?i)" "en_environment (L ?i)" for j
    using hd_alive by (auto simp: L_def Let_def)
  have alive: "alive ?R j \<longleftrightarrow> j = ?i \<or> alive R j" for j using assms(3) unfolding R by (auto simp: alive_def)
  have "chain L None (?i # xs) (Some ?i)"
  proof -
    have "chain L (Some ?i) xs (ne_head e)"
    proof (cases xs)
      case (Cons x ys)
      have "chain L (Some x) ys (en_next (rt_links R x)) = chain (rt_links R) (Some x) ys (en_next (rt_links R x))"
        by (rule chain_cong) (use Cons lf(1) new in \<open>auto simp: L_def Let_def\<close>)
      with Cons lf(3) new show ?thesis by (auto simp: L_def Let_def)
    qed (use lf(3) in simp)
    moreover have "en_previous (L ?i) = None \<and> en_next (L ?i) = ne_head e"
      using hd_alive by (cases "xs = []") (auto simp: L_def Let_def)
    ultimately show ?thesis by simp
  qed
  then have "listed ?R (?i # xs)"
  proof -
    assume c: "chain L None (?i # xs) (Some ?i)"
    have d: "distinct (?i # xs)" "set (?i # xs) = {j. alive ?R j}" using lf(1,2) new by (auto simp: alive)
    have g: "en_registered (L j) \<and> en_environment (L j)" if "alive ?R j" for j
      using that alive [of j] lf(4) [of j] Lf(2) [of j] Lf(3,4) by (cases "j = ?i") simp_all
    have "headOf ?R = Some ?i" "rt_links ?R = L" by (simp_all add: R headOf_def)
    moreover have "\<forall>j. alive ?R j \<longrightarrow> en_registered (L j) \<and> en_environment (L j)" using g by blast
    ultimately show ?thesis using c d by (simp only: listed_def simp_thms)
  qed
  moreover have "handled ?R"
  proof -
    have h: "sh_transport (rt_handles R k) = Some j \<longleftrightarrow> j < ?i \<and> en_storage (rt_links R j) = Some k" for k j
      using l by (simp add: linked_def handled_def)
    have "sh_transport (rt_handles ?R k) = Some j \<longleftrightarrow> j < rt_count ?R \<and> en_storage (rt_links ?R j) = Some k" for k j
    proof (cases "k = h")
      case True
      with h [of h j] free show ?thesis by (auto simp: R Lf(1))
    next
      case False
      with h [of k j] show ?thesis by (auto simp: R Lf(1))
    qed
    moreover have "\<not> nt_destroyRequested (rt_transports ?R j)" if "j < rt_count ?R" "en_storage (rt_links ?R j) \<noteq> None" for j
      using that l assms(4) by (auto simp: R Lf(1) linked_def handled_def less_Suc_eq split: if_splits)
    ultimately show ?thesis unfolding handled_def by blast
  qed
  moreover have "rested ?R" using l assms(2) by (simp add: R linked_def rested_def less_Suc_eq)
  moreover have "\<forall>j \<in> set (?i # xs). \<not> nt_environmentCleaning (rt_transports ?R j)"
    using env e assms(5) by (simp add: R phase_def)
  ultimately have "linked ?R (?i # xs)" "\<forall>j \<in> set (?i # xs). \<not> nt_environmentCleaning (rt_transports ?R j)"
    by (simp_all only: linked_def simp_thms)
  moreover have "rt_environment ?R = Some (e\<lparr>ne_head := Some ?i\<rparr>)" "rt_freed ?R = 0" "rt_known ?R"
    using e free by (simp_all add: R)
  ultimately show ?thesis using e(2) by (intro orderlyI [of _ "?i # xs"]) (simp_all add: phase_def)
qed

lemma useSession_orderly:
  assumes "orderly R"
  shows "orderly (useSession h x R)"
proof (cases "sh_transport (rt_handles R h)")
  case None
  with assms show ?thesis by (simp add: useSession_def)
next
  case (Some i)
  note h = orderly_handles [OF assms Some]
  let ?R = "useSession h x R" and ?t = "(rt_transports R i)\<lparr>nt_sessionObject := x\<rparr>"
  have R: "?R = R\<lparr>rt_transports := (rt_transports R)(i := ?t)\<rparr>" using Some h(1) by (simp add: useSession_def)
  obtain xs where l: "linked R xs" and env: "phase R xs" using assms by (auto simp: orderly_def)
  have alive: "alive ?R = alive R" by (auto simp: R alive_def fun_eq_iff)
  have "resting (rt_transports R i)" using l h(1) by (simp add: linked_def rested_def alive_def)
  then have "resting ?t" using follows_settles [OF follows_fields(2) [of "rt_transports R i" x]] by (simp add: settles_def)
  then have "rested ?R" using l by (simp add: R linked_def rested_def)
  moreover have "handled ?R" using l h(5) by (simp add: R linked_def handled_def)
  moreover have "listed ?R xs" using l unfolding linked_def listed_def alive by (simp add: R headOf_def)
  ultimately have "linked ?R xs" by (simp add: linked_def)
  moreover have "phase ?R xs"
  proof -
    have w: "waiting (rt_transports ?R j) = waiting (rt_transports R j)"
      "nt_environmentCleaning (rt_transports ?R j) = nt_environmentCleaning (rt_transports R j)" for j
      by (simp_all add: R waiting_def)
    have same: "rt_environment ?R = rt_environment R" "rt_known ?R = rt_known R" "rt_freed ?R = rt_freed R"
      "rt_links ?R = rt_links R"
      by (simp_all add: R)
    show ?thesis using env unfolding phase_def detached_def w same .
  qed
  ultimately show ?thesis by (rule orderlyI)
qed

lemma onTransport_alive: "alive R i \<Longrightarrow> onTransport E depth i s R = runTransport E depth i s R"
  by (simp add: onTransport_def)

lemma hasPollHandle_alive:
  assumes "orderly R" "i < rt_count R" "hasPollHandle (rt_transports R i)"
  shows "alive R i"
proof -
  have "resting (rt_transports R i)" using assms by (auto simp: orderly_def linked_def rested_def)
  with assms(2,3) show ?thesis
    by (auto simp: alive_def hasPollHandle_def resting_def lifetime_def soundWith_def flags_ok_def)
qed

lemma envStep_orderly:
  assumes "orderly R"
  shows "orderly (envStep E depth ev R)"
proof (cases ev)
  case (CreateSession h)
  with assms show ?thesis by (simp add: orderly_session)
next
  case (AttachTransport h granted ssl session textAsBuffer maxBackpressure bio io reactions)
  let ?t = "newNativeTransport ssl session textAsBuffer maxBackpressure bio io reactions"
  have "orderly (storeTransport h (attachTransport h granted ?t R))"
    if "sh_transport (rt_handles R h) = None" "sh_session (rt_handles R h)"
    by (rule attachTransport_orderly [OF assms new_resting]) (simp_all add: newNativeTransport_def that)
  with AttachTransport assms show ?thesis by simp
next
  case (FromJs h s)
  show ?thesis
  proof (cases "sh_transport (rt_handles R h)")
    case (Some i)
    note h = orderly_handles [OF assms Some]
    have "byJs s \<Longrightarrow> s \<noteq> EnvironmentCleanup" by auto
    then have "byJs s \<Longrightarrow> orderly (runTransport E depth i s R)" using h by (intro onTransport_orderly [OF assms]) auto
    with FromJs Some assms onTransport_alive [OF h(1)] show ?thesis by simp
  qed (use FromJs assms in simp)
next
  case (FromLoop i s)
  have "orderly (onTransport E depth i s R)" if "i < rt_count R" "hasPollHandle (rt_transports R i)" "byLoop s"
  proof -
    note a = hasPollHandle_alive [OF assms that(1,2)]
    have "s \<noteq> EnvironmentCleanup" using that(3) by auto
    with that(3) onTransport_orderly [OF assms a] onTransport_alive [OF a] show ?thesis by simp
  qed
  with FromLoop assms show ?thesis by simp
next
  case (UseSession h x)
  with assms show ?thesis by (simp add: useSession_orderly)
next
  case (Dispose h)
  with assms show ?thesis by (simp add: dispose_orderly)
next
  case CleanupHook
  with assms show ?thesis by (simp add: cleanupNativeEnvironment_orderly)
qed

lemma envRun_orderly: "orderly R \<Longrightarrow> orderly (envRun E depth es R)"
  by (induction es arbitrary: R) (simp_all add: envRun_def envStep_orderly)

lemma loaded_orderly: "orderly (loaded ts)"
  by (rule orderlyI [of _ "[]"])
    (simp_all add: loaded_def initializeNativeEnvironment_def unloaded_def linked_def listed_def handled_def rested_def
      headOf_def alive_def phase_def)

text \<open>After the cleanup JavaScript reaches no transport; the callbacks of \<open>uv_close\<close> delete those that are left.\<close>

lemma cleanup_known:
  "\<not> rt_known (cleanupNativeEnvironment E depth R) \<or> rt_environment R = None"
  "rt_count (cleanupNativeEnvironment E depth R) = rt_count R"
proof -
  have run: "rt_known (runTransport E depth i s R) = rt_known R" "rt_count (runTransport E depth i s R) = rt_count R"
    for i s and R :: "'a runtime"
    by (auto simp: runTransport_def becomes_def forget_def finishEnvironmentCleanup_def unlinkEnvironment_def
      completeNativeEnvironmentCleanup_def faulty_def Let_def split: option.splits)
  have loop: "rt_known (cleanupLoop E depth fuel p R) = rt_known R" "rt_count (cleanupLoop E depth fuel p R) = rt_count R"
    for fuel p and R :: "'a runtime"
    by (induction fuel arbitrary: p R)
      (simp_all add: faulty_def run beginCleanup_def clearStorage_fields split: option.split)
  show "\<not> rt_known (cleanupNativeEnvironment E depth R) \<or> rt_environment R = None"
    "rt_count (cleanupNativeEnvironment E depth R) = rt_count R"
    by (auto simp: cleanupNativeEnvironment_def completeNativeEnvironmentCleanup_def loop Let_def faulty_def
      split: option.split)
qed

lemma cleaned_step:
  assumes "orderly R" "\<not> rt_known R"
  shows "\<not> rt_known (envStep E depth ev R)" "rt_count (envStep E depth ev R) = rt_count R"
    "nt_deleted (rt_transports R i) \<Longrightarrow> nt_deleted (rt_transports (envStep E depth ev R) i)"
    "i < rt_count R \<Longrightarrow> nt_deleted (rt_transports (envStep E depth (FromLoop i PollClosed) R) i)"
proof -
  have none: "sh_transport (rt_handles R h) = None" for h
    using orderly_handles(3) [OF assms(1), of h] assms(2) by (cases "sh_transport (rt_handles R h)") auto
  obtain xs where l: "linked R xs" and env: "phase R xs" using assms(1) by (auto simp: orderly_def)
  have step: "\<not> rt_known R' \<and> rt_count R' = rt_count R \<and> rt_transports R' = (rt_transports R)(j := takeStep E (upcallsAt E depth) s (rt_transports R j))"
    if R': "R' = onTransport E depth j s R" and j: "alive R j" and s: "byLoop s" for j s R'
  proof -
    have ix: "j \<in> set xs" using l j by (simp add: linked_def listed_def)
    obtain e where e: "rt_environment R = Some e" using l environment_of_alive [OF _ j, of xs] unfolding linked_def by blast
    have "detached R j" using ix env e assms(2) by (auto simp: phase_def split: if_splits)
    then have st: "en_storage (rt_links R j) = None" by (simp add: detached_def)
    note ran = runTransport_linked [OF l j e refl st]
    show ?thesis using ran(2-4) assms(2) by (simp add: R' onTransport_alive [OF j])
  qed
  have loop: "\<not> rt_known (envStep E depth ev R) \<and> rt_count (envStep E depth ev R) = rt_count R \<and>
      (nt_deleted (rt_transports R i) \<longrightarrow> nt_deleted (rt_transports (envStep E depth ev R) i))"
  proof (cases ev)
    case (FromLoop j s)
    show ?thesis
    proof (cases "j < rt_count R \<and> hasPollHandle (rt_transports R j) \<and> byLoop s")
      case True
      with hasPollHandle_alive [OF assms(1)] have j: "alive R j" by blast
      from step [OF refl j] True have "\<not> rt_known (onTransport E depth j s R)" "rt_count (onTransport E depth j s R) = rt_count R"
        "rt_transports (onTransport E depth j s R) = (rt_transports R)(j := takeStep E (upcallsAt E depth) s (rt_transports R j))"
        by blast+
      with True FromLoop j show ?thesis by (auto simp: alive_def)
    next
      case False
      then have "envStep E depth ev R = R" using FromLoop by auto
      with assms(2) show ?thesis by simp
    qed
  qed (use assms(2) none in \<open>auto simp: attachTransport_refused dispose_def useSession_def\<close>)
  then show "\<not> rt_known (envStep E depth ev R)" "rt_count (envStep E depth ev R) = rt_count R"
    "nt_deleted (rt_transports R i) \<Longrightarrow> nt_deleted (rt_transports (envStep E depth ev R) i)" by blast+
  show "nt_deleted (rt_transports (envStep E depth (FromLoop i PollClosed) R) i)" if "i < rt_count R"
  proof (cases "alive R i")
    case True
    have ix: "i \<in> set xs" using l True by (simp add: linked_def listed_def)
    obtain e where e: "rt_environment R = Some e" using l environment_of_alive [OF _ True, of xs] unfolding linked_def by blast
    have w: "waiting (rt_transports R i)" using ix env e assms(2) by (auto simp: phase_def detached_def split: if_splits)
    have rt: "resting (rt_transports R i)" "\<not> nt_deleted (rt_transports R i)"
      using l True by (simp_all add: linked_def rested_def alive_def)
    then have "hasPollHandle (rt_transports R i)"
      using w by (simp add: hasPollHandle_def waiting_def resting_def soundWith_def flags_ok_def)
    with that step [OF refl True, of PollClosed] waiting_deleted [OF w rt] show ?thesis by simp
  next
    case False
    with that have d: "nt_deleted (rt_transports R i)" by (simp add: alive_def)
    then have "\<not> hasPollHandle (rt_transports R i)"
      using hasPollHandle_alive [OF assms(1) that] by (auto simp: alive_def)
    with d show ?thesis by simp
  qed
qed

lemma cleaned_run:
  "orderly R \<Longrightarrow> \<not> rt_known R \<Longrightarrow> i < rt_count R \<Longrightarrow> nt_deleted (rt_transports R i) \<or> FromLoop i PollClosed \<in> set es \<Longrightarrow>
    \<not> rt_known (envRun E depth es R) \<and> rt_count (envRun E depth es R) = rt_count R \<and>
    nt_deleted (rt_transports (envRun E depth es R) i)"
proof (induction es arbitrary: R)
  case (Cons ev es)
  note step = cleaned_step [OF Cons.prems(1,2), where E = E and depth = depth]
  have "nt_deleted (rt_transports (envStep E depth ev R) i) \<or> FromLoop i PollClosed \<in> set es"
    using Cons.prems(3,4) step(3) [where i = i and ev = ev] step(4) [where i = i] by auto
  with Cons.IH [of "envStep E depth ev R"] step(1,2) envStep_orderly [OF Cons.prems(1)] Cons.prems(3) show ?case
    by (simp add: envRun_def)
qed (simp add: envRun_def)

lemma cleaned_known: "orderly R \<Longrightarrow> \<not> rt_known R \<Longrightarrow> \<not> rt_known (envRun E depth es R) \<and> rt_count (envRun E depth es R) = rt_count R"
  by (induction es arbitrary: R) (simp_all add: envRun_def cleaned_step envStep_orderly)

section \<open>Properties\<close>

text \<open>
  C5: whatever happens in an environment, no operation touches a transport or an environment that was freed: the
  handles of JavaScript point to live transports only, libuv has no poll handle of a deleted one, the list
  consists of the live ones, and the environment is freed exactly once, with the last transport after its
  cleanup began.
\<close>

theorem no_dangling_transports:
  "let R = envRun E depth es (loaded ts)
   in \<not> rt_fault R \<and>
      {i. \<exists>h. sh_transport (rt_handles R h) = Some i} \<subseteq> {i. alive R i} \<and>
      {i. i < rt_count R \<and> hasPollHandle (rt_transports R i)} \<subseteq> {i. alive R i} \<and>
      (\<exists>xs. distinct xs \<and> set xs = {i. alive R i} \<and> chain (rt_links R) None xs (headOf R) \<and>
        (if rt_environment R = None then xs = [] \<and> rt_freed R = 1 \<and> \<not> rt_known R else rt_freed R = 0))"
proof -
  define R where "R = envRun E depth es (loaded ts)"
  have o: "orderly R" unfolding R_def by (rule envRun_orderly [OF loaded_orderly])
  then obtain xs where l: "linked R xs" and env: "phase R xs" by (auto simp: orderly_def)
  have list: "distinct xs \<and> set xs = {i. alive R i} \<and> chain (rt_links R) None xs (headOf R)"
    using l by (simp add: linked_def listed_def)
  have freed: "if rt_environment R = None then xs = [] \<and> rt_freed R = 1 \<and> \<not> rt_known R else rt_freed R = 0"
    using env by (auto simp: phase_def split: option.splits)
  have "\<not> rt_fault R" using l by (simp add: linked_def rested_def)
  moreover have "{i. \<exists>h. sh_transport (rt_handles R h) = Some i} \<subseteq> {i. alive R i}"
    using orderly_handles(1) [OF o] by auto
  moreover have "{i. i < rt_count R \<and> hasPollHandle (rt_transports R i)} \<subseteq> {i. alive R i}"
    using hasPollHandle_alive [OF o] by auto
  ultimately show ?thesis using list freed unfolding R_def [symmetric] Let_def by blast
qed

text \<open>
  C8: the cleanup of an environment comes to an end: once its hook has run and libuv has closed the poll handle of
  every transport, whatever else happened, all transports are deleted and the environment is freed.
\<close>

theorem cleanup_completes:
  assumes "R = envRun E depth es (loaded ts)" "{i. FromLoop i PollClosed \<in> set later} \<supseteq> {..<rt_count R}"
  shows "rt_environment (envRun E depth (CleanupHook # later) R) = None \<and> rt_freed (envRun E depth (CleanupHook # later) R) = 1 \<and>
    (\<forall>i < rt_count R. nt_deleted (rt_transports (envRun E depth (CleanupHook # later) R) i))"
proof -
  let ?C = "envStep E depth CleanupHook R" and ?F = "envRun E depth (CleanupHook # later) R"
  have o: "orderly R" unfolding assms(1) by (rule envRun_orderly [OF loaded_orderly])
  have C: "orderly ?C" by (rule envStep_orderly [OF o])
  have known: "rt_environment R = None \<Longrightarrow> \<not> rt_known R" using o by (auto simp: orderly_def phase_def)
  then have k: "\<not> rt_known ?C" "rt_count ?C = rt_count R" using cleanup_known [of E depth R] by auto
  have F: "?F = envRun E depth later ?C" by (simp add: envRun_def)
  have d: "\<forall>i < rt_count R. nt_deleted (rt_transports ?F i)"
    using cleaned_run [OF C k(1), of _ later E depth] k(2) assms(2) unfolding F by auto
  have fin: "\<not> rt_known ?F" "rt_count ?F = rt_count R" using cleaned_known [OF C k(1)] k(2) unfolding F by simp_all
  have "orderly ?F" unfolding F by (rule envRun_orderly [OF C])
  then obtain xs where l: "linked ?F xs" and env: "phase ?F xs" by (auto simp: orderly_def)
  have "set xs = {i. alive ?F i}" using l by (simp add: linked_def listed_def)
  moreover have "\<not> alive ?F i" for i using d fin(2) by (auto simp: alive_def)
  ultimately have "xs = []" by simp
  with env fin(1) have "rt_environment ?F = None \<and> rt_freed ?F = 1"
    by (auto simp: phase_def split: option.splits if_splits)
  with d show ?thesis by blast
qed

lemma cleanup_completes_witness:
  "rt_environment (envRun exampleHost 1 [CleanupHook, FromLoop 0 PollClosed]
     (envRun exampleHost 1
        [CreateSession 5,
         AttachTransport 5 True False (newSession copyingZlib 0 15 100 None [0, 0, 0, 0] (replicate 27 0)) False 1000 []
           [Done 0 [] [], Done 1 [] []] [],
         FromJs 5 Activate]
        (loaded (\<lambda>_. exampleTransport [] [])))) = None"
proof -
  let ?es = "[CreateSession 5,
         AttachTransport 5 True False (newSession copyingZlib 0 15 100 None [0, 0, 0, 0] (replicate 27 0)) False 1000 []
           [Done 0 [] [], Done 1 [] []] [],
         FromJs 5 Activate]"
  have "rt_count (envRun exampleHost 1 ?es (loaded (\<lambda>_. exampleTransport [] []))) = 1 \<and>
      nt_active (rt_transports (envRun exampleHost 1 ?es (loaded (\<lambda>_. exampleTransport [] []))) 0)"
    by code_simp
  with cleanup_completes [OF refl, of exampleHost 1 ?es "\<lambda>_. exampleTransport [] []" "[FromLoop 0 PollClosed]"]
  show ?thesis by (simp add: lessThan_Suc)
qed

end
