(* ===== verification/TLS_Contexts.thy ===== *)
theory TLS_Contexts
  imports Prelude
begin

text \<open>
  The callbacks of TLS contexts (\<open>native_transport.cpp\<close>). Node's contexts are shared between connections
  that a transport owns and ordinary ones. While a transport owns a connection of a context, the callbacks of
  the context are replaced by multiplexers, which are silent for owned connections and pass the others on to
  the callbacks found before. Contexts and connections are numbers, a null pointer is \<open>None\<close>.
\<close>

section \<open>OpenSSL's view\<close>

text \<open>A callback of a context: none, the multiplexer of its kind, or a function of the application.\<close>

datatype hook = NullHook | Multiplexer | Application nat

record hooks =
  sess_new_cb :: hook
  sess_get_cb :: hook
  keylog_callback :: hook

text \<open>
  A connection has a current context (\<open>SSL_get_SSL_CTX\<close>), which the handshake may change, and the one it began
  with, which stays its session context: OpenSSL takes the session callbacks from the latter, the key log
  callback from the former.
\<close>

record connection =
  ssl_context :: "nat option"
  session_context :: "nat option"
  info_callback :: bool
  cert_cb :: bool
  msg_callback :: bool
  msg_callback_arg :: bool
  no_renegotiation :: bool
  app_data :: bool

section \<open>State\<close>

record TLSContextCallbacks =
  tc_newSession :: hook
  tc_getSession :: hook
  tc_keylog :: hook
  tc_owners :: nat

record tlsWorld =
  contextHooks :: "nat \<Rightarrow> hooks"
  connections :: "nat \<Rightarrow> connection"
  tlsContexts :: "nat \<rightharpoonup> TLSContextCallbacks"
  ownedTLSConnections :: "nat set"

definition noCallbacks :: TLSContextCallbacks where
  "noCallbacks = \<lparr>tc_newSession = NullHook, tc_getSession = NullHook, tc_keylog = NullHook, tc_owners = 0\<rparr>"

section \<open>The multiplexers\<close>

text \<open>
  The functions of the application are a parameter: \<open>call f\<close> is what the function at \<open>f\<close> does with its arguments.
\<close>

definition contextEntry :: "tlsWorld \<Rightarrow> nat \<Rightarrow> TLSContextCallbacks option" where
  "contextEntry W ssl = (case ssl_context (connections W ssl) of None \<Rightarrow> None | Some c \<Rightarrow> tlsContexts W c)"

definition multiplexNewSession :: "(nat \<Rightarrow> nat \<Rightarrow> 's \<Rightarrow> int) \<Rightarrow> tlsWorld \<Rightarrow> nat \<Rightarrow> 's \<Rightarrow> int" where
  "multiplexNewSession call W ssl session =
     (if ssl \<in> ownedTLSConnections W then 0
      else let callback = (case contextEntry W ssl of None \<Rightarrow> NullHook | Some e \<Rightarrow> tc_newSession e)
           in case callback of Application f \<Rightarrow> call f ssl session | _ \<Rightarrow> 0)"

text \<open>The result is the session with the final value of \<open>*copy\<close>.\<close>

definition multiplexGetSession ::
  "(nat \<Rightarrow> nat \<Rightarrow> byte list \<Rightarrow> int \<Rightarrow> 's option \<times> int) \<Rightarrow> tlsWorld \<Rightarrow> nat \<Rightarrow> byte list \<Rightarrow> int \<Rightarrow> 's option \<times> int" where
  "multiplexGetSession call W ssl dat copy =
     (if ssl \<in> ownedTLSConnections W then (None, 0)
      else let callback = (case contextEntry W ssl of None \<Rightarrow> NullHook | Some e \<Rightarrow> tc_getSession e)
           in case callback of Application f \<Rightarrow> call f ssl dat copy | _ \<Rightarrow> (None, copy))"

text \<open>The result is what is written to the key log, as a change of the application's state.\<close>

definition multiplexKeylog :: "(nat \<Rightarrow> nat \<Rightarrow> string \<Rightarrow> 'a \<Rightarrow> 'a) \<Rightarrow> tlsWorld \<Rightarrow> nat \<Rightarrow> string \<Rightarrow> 'a \<Rightarrow> 'a" where
  "multiplexKeylog call W ssl line a =
     (if ssl \<in> ownedTLSConnections W then a
      else let callback = (case contextEntry W ssl of None \<Rightarrow> NullHook | Some e \<Rightarrow> tc_keylog e)
           in case callback of Application f \<Rightarrow> call f ssl line a | _ \<Rightarrow> a)"

section \<open>Retaining and releasing\<close>

definition retainTLSContext :: "nat option \<Rightarrow> tlsWorld \<Rightarrow> tlsWorld" where
  "retainTLSContext context W =
     (case context of
        None \<Rightarrow> W
      | Some c \<Rightarrow>
          let callbacks = (case tlsContexts W c of None \<Rightarrow> noCallbacks | Some e \<Rightarrow> e);
              counted = callbacks\<lparr>tc_owners := tc_owners callbacks + 1\<rparr>
          in if tc_owners callbacks \<noteq> 0 then W\<lparr>tlsContexts := (tlsContexts W)(c \<mapsto> counted)\<rparr>
             else let h = contextHooks W c
             in W\<lparr>tlsContexts := (tlsContexts W)(c \<mapsto> counted\<lparr>tc_newSession := sess_new_cb h,
                    tc_getSession := sess_get_cb h, tc_keylog := keylog_callback h\<rparr>),
                  contextHooks := (contextHooks W)(c := \<lparr>sess_new_cb = Multiplexer, sess_get_cb = Multiplexer,
                    keylog_callback = Multiplexer\<rparr>)\<rparr>)"

definition releaseTLSContext :: "nat option \<Rightarrow> tlsWorld \<Rightarrow> tlsWorld" where
  "releaseTLSContext context W =
     (case context of
        None \<Rightarrow> W
      | Some c \<Rightarrow>
          (case tlsContexts W c of
             None \<Rightarrow> W
           | Some e \<Rightarrow>
               if tc_owners e - 1 \<noteq> 0 then W\<lparr>tlsContexts := (tlsContexts W)(c \<mapsto> e\<lparr>tc_owners := tc_owners e - 1\<rparr>)\<rparr>
               else let h = contextHooks W c;
                        h = (if sess_new_cb h = Multiplexer then h\<lparr>sess_new_cb := tc_newSession e\<rparr> else h);
                        h = (if sess_get_cb h = Multiplexer then h\<lparr>sess_get_cb := tc_getSession e\<rparr> else h);
                        h = (if keylog_callback h = Multiplexer then h\<lparr>keylog_callback := tc_keylog e\<rparr> else h)
                    in W\<lparr>contextHooks := (contextHooks W)(c := h), tlsContexts := (tlsContexts W)(c := None)\<rparr>))"

definition retainTLSCallbacks :: "nat \<Rightarrow> nat option \<Rightarrow> tlsWorld \<Rightarrow> tlsWorld" where
  "retainTLSCallbacks ssl initialContext W =
     (let currentContext = ssl_context (connections W ssl);
          W = retainTLSContext initialContext W;
          W = (if currentContext \<noteq> initialContext then retainTLSContext currentContext W else W)
      in W\<lparr>ownedTLSConnections := insert ssl (ownedTLSConnections W),
           connections := (connections W)(ssl := (connections W ssl)\<lparr>info_callback := False, cert_cb := False,
             msg_callback := False, msg_callback_arg := False, no_renegotiation := True, app_data := False\<rparr>)\<rparr>)"

definition releaseTLSCallbacks :: "nat option \<Rightarrow> nat option \<Rightarrow> tlsWorld \<Rightarrow> tlsWorld" where
  "releaseTLSCallbacks connection initialContext W =
     (case connection of
        None \<Rightarrow> W
      | Some ssl \<Rightarrow>
          let currentContext = ssl_context (connections W ssl);
              W = W\<lparr>ownedTLSConnections := ownedTLSConnections W - {ssl}\<rparr>;
              W = (if currentContext \<noteq> initialContext then releaseTLSContext currentContext W else W)
          in releaseTLSContext initialContext W)"

section \<open>OpenSSL calls a context's callbacks\<close>

text \<open>What each hook of a context does when OpenSSL calls it for a connection; a null pointer is not called.\<close>

definition raiseNewSession :: "(nat \<Rightarrow> nat \<Rightarrow> 's \<Rightarrow> int) \<Rightarrow> tlsWorld \<Rightarrow> hook \<Rightarrow> nat \<Rightarrow> 's \<Rightarrow> int" where
  "raiseNewSession call W h ssl session =
     (case h of NullHook \<Rightarrow> 0 | Multiplexer \<Rightarrow> multiplexNewSession call W ssl session
      | Application f \<Rightarrow> call f ssl session)"

definition raiseGetSession ::
  "(nat \<Rightarrow> nat \<Rightarrow> byte list \<Rightarrow> int \<Rightarrow> 's option \<times> int) \<Rightarrow> tlsWorld \<Rightarrow> hook \<Rightarrow> nat \<Rightarrow> byte list \<Rightarrow> int \<Rightarrow> 's option \<times> int" where
  "raiseGetSession call W h ssl dat copy =
     (case h of NullHook \<Rightarrow> (None, copy) | Multiplexer \<Rightarrow> multiplexGetSession call W ssl dat copy
      | Application f \<Rightarrow> call f ssl dat copy)"

definition raiseKeylog :: "(nat \<Rightarrow> nat \<Rightarrow> string \<Rightarrow> 'a \<Rightarrow> 'a) \<Rightarrow> tlsWorld \<Rightarrow> hook \<Rightarrow> nat \<Rightarrow> string \<Rightarrow> 'a \<Rightarrow> 'a" where
  "raiseKeylog call W h ssl line a =
     (case h of NullHook \<Rightarrow> a | Multiplexer \<Rightarrow> multiplexKeylog call W ssl line a
      | Application f \<Rightarrow> call f ssl line a)"

text \<open>The callbacks for a connection: those of its session context, and the key log of its current one.\<close>

definition newSessionFor :: "(nat \<Rightarrow> nat \<Rightarrow> 's \<Rightarrow> int) \<Rightarrow> tlsWorld \<Rightarrow> nat \<Rightarrow> 's \<Rightarrow> int" where
  "newSessionFor call W ssl session =
     (case session_context (connections W ssl) of
        None \<Rightarrow> 0
      | Some c \<Rightarrow> raiseNewSession call W (sess_new_cb (contextHooks W c)) ssl session)"

definition getSessionFor ::
  "(nat \<Rightarrow> nat \<Rightarrow> byte list \<Rightarrow> int \<Rightarrow> 's option \<times> int) \<Rightarrow> tlsWorld \<Rightarrow> nat \<Rightarrow> byte list \<Rightarrow> int \<Rightarrow> 's option \<times> int" where
  "getSessionFor call W ssl dat copy =
     (case session_context (connections W ssl) of
        None \<Rightarrow> (None, copy)
      | Some c \<Rightarrow> raiseGetSession call W (sess_get_cb (contextHooks W c)) ssl dat copy)"

definition keylogFor :: "(nat \<Rightarrow> nat \<Rightarrow> string \<Rightarrow> 'a \<Rightarrow> 'a) \<Rightarrow> tlsWorld \<Rightarrow> nat \<Rightarrow> string \<Rightarrow> 'a \<Rightarrow> 'a" where
  "keylogFor call W ssl line a =
     (case ssl_context (connections W ssl) of
        None \<Rightarrow> a
      | Some c \<Rightarrow> raiseKeylog call W (keylog_callback (contextHooks W c)) ssl line a)"

text \<open>What the application's own callbacks do, without any transport in the process.\<close>

definition ownNewSession :: "(nat \<Rightarrow> nat \<Rightarrow> 's \<Rightarrow> int) \<Rightarrow> hooks \<Rightarrow> nat \<Rightarrow> 's \<Rightarrow> int" where
  "ownNewSession call h ssl session = (case sess_new_cb h of Application f \<Rightarrow> call f ssl session | _ \<Rightarrow> 0)"

definition ownGetSession ::
  "(nat \<Rightarrow> nat \<Rightarrow> byte list \<Rightarrow> int \<Rightarrow> 's option \<times> int) \<Rightarrow> hooks \<Rightarrow> nat \<Rightarrow> byte list \<Rightarrow> int \<Rightarrow> 's option \<times> int" where
  "ownGetSession call h ssl dat copy = (case sess_get_cb h of Application f \<Rightarrow> call f ssl dat copy | _ \<Rightarrow> (None, copy))"

definition ownKeylog :: "(nat \<Rightarrow> nat \<Rightarrow> string \<Rightarrow> 'a \<Rightarrow> 'a) \<Rightarrow> hooks \<Rightarrow> nat \<Rightarrow> string \<Rightarrow> 'a \<Rightarrow> 'a" where
  "ownKeylog call h ssl line a = (case keylog_callback h of Application f \<Rightarrow> call f ssl line a | _ \<Rightarrow> a)"

section \<open>A process with its connections\<close>

text \<open>
  Transports retain the callbacks of a connection when they are activated and release them when they are
  deleted; \<open>held\<close> are the connections retained and their initial contexts. The handshake, which may choose
  another context, is over by then and renegotiation is switched off. Meanwhile the application may install
  callbacks of its own, and ordinary connections choose contexts. \<open>Retain\<close> is the first activation of a
  connection, later ones are ignored: \<open>eiows.js\<close> activates a transport once and destroys it if that failed. The
  code itself would retain again in a second \<open>activate\<close> after a failed \<open>uv_poll_init_socket\<close>.
\<close>

datatype tlsEvent =
  Retain nat "nat option"
| Release nat
| InstallNewSession nat "nat option"
| InstallGetSession nat "nat option"
| InstallKeylog nat "nat option"
| SelectContext nat "nat option"

definition hookAt :: "nat option \<Rightarrow> hook" where
  "hookAt f = (case f of None \<Rightarrow> NullHook | Some f \<Rightarrow> Application f)"

type_synonym process = "tlsWorld \<times> (nat \<rightharpoonup> nat option)"

definition setHooks :: "nat \<Rightarrow> (hooks \<Rightarrow> hooks) \<Rightarrow> (nat \<Rightarrow> hooks) \<Rightarrow> nat \<Rightarrow> hooks" where
  "setHooks c f H = H(c := f (H c))"

fun install :: "tlsEvent \<Rightarrow> (nat \<Rightarrow> hooks) \<Rightarrow> nat \<Rightarrow> hooks" where
  "install (InstallNewSession c f) H = setHooks c (\<lambda>h. h\<lparr>sess_new_cb := hookAt f\<rparr>) H"
| "install (InstallGetSession c f) H = setHooks c (\<lambda>h. h\<lparr>sess_get_cb := hookAt f\<rparr>) H"
| "install (InstallKeylog c f) H = setHooks c (\<lambda>h. h\<lparr>keylog_callback := hookAt f\<rparr>) H"
| "install _ H = H"

fun tlsStep :: "tlsEvent \<Rightarrow> process \<Rightarrow> process" where
  "tlsStep (Retain ssl initial) (W, held) =
     (if held ssl = None then (retainTLSCallbacks ssl initial W, held(ssl \<mapsto> initial)) else (W, held))"
| "tlsStep (Release ssl) (W, held) =
     (case held ssl of
        None \<Rightarrow> (W, held)
      | Some initial \<Rightarrow> (releaseTLSCallbacks (Some ssl) initial W, held(ssl := None)))"
| "tlsStep (SelectContext ssl c) (W, held) =
     (if held ssl = None
      then (W\<lparr>connections := (connections W)(ssl := (connections W ssl)\<lparr>ssl_context := c\<rparr>)\<rparr>, held)
      else (W, held))"
| "tlsStep e (W, held) = (W\<lparr>contextHooks := install e (contextHooks W)\<rparr>, held)"

definition tlsRun :: "tlsEvent list \<Rightarrow> process \<Rightarrow> process" where
  "tlsRun es = fold tlsStep es"

text \<open>A process in which no transport was activated yet.\<close>

definition applicationHooks :: "(nat \<Rightarrow> nat option \<times> nat option \<times> nat option) \<Rightarrow> nat \<Rightarrow> hooks" where
  "applicationHooks fs c = (case fs c of (n, g, k) \<Rightarrow>
     \<lparr>sess_new_cb = hookAt n, sess_get_cb = hookAt g, keylog_callback = hookAt k\<rparr>)"

definition freshProcess :: "(nat \<Rightarrow> nat option \<times> nat option \<times> nat option) \<Rightarrow> (nat \<Rightarrow> connection) \<Rightarrow> process" where
  "freshProcess fs conns =
     (\<lparr>contextHooks = applicationHooks fs, connections = conns, tlsContexts = Map.empty,
       ownedTLSConnections = {}\<rparr>, Map.empty)"

section \<open>The invariant\<close>

text \<open>The callbacks as the application sees them: where a multiplexer stands, the one it passes on to.\<close>

definition behind :: "hook \<Rightarrow> hook \<Rightarrow> hook" where
  "behind h saved = (if h = Multiplexer then saved else h)"

definition visibleHooks :: "tlsWorld \<Rightarrow> nat \<Rightarrow> hooks" where
  "visibleHooks W c =
     (let h = contextHooks W c
      in case tlsContexts W c of
           None \<Rightarrow> h
         | Some e \<Rightarrow> \<lparr>sess_new_cb = behind (sess_new_cb h) (tc_newSession e),
                      sess_get_cb = behind (sess_get_cb h) (tc_getSession e),
                      keylog_callback = behind (keylog_callback h) (tc_keylog e)\<rparr>)"

definition plain :: "hooks \<Rightarrow> bool" where
  "plain h \<longleftrightarrow> sess_new_cb h \<noteq> Multiplexer \<and> sess_get_cb h \<noteq> Multiplexer \<and> keylog_callback h \<noteq> Multiplexer"

text \<open>The contexts whose callbacks a connection holds, and the connections that hold those of a context.\<close>

definition contextsOf :: "connection \<Rightarrow> nat option \<Rightarrow> nat set" where
  "contextsOf con initial = set_option initial \<union> set_option (ssl_context con)"

definition users :: "process \<Rightarrow> nat \<Rightarrow> nat set" where
  "users P c = (case P of (W, held) \<Rightarrow>
     {ssl. \<exists>initial. held ssl = Some initial \<and> c \<in> contextsOf (connections W ssl) initial})"

definition counts :: "tlsWorld \<Rightarrow> (nat \<Rightarrow> nat) \<Rightarrow> bool" where
  "counts W n \<longleftrightarrow>
     (\<forall>c. case tlsContexts W c of None \<Rightarrow> n c = 0 | Some e \<Rightarrow> n c \<noteq> 0 \<and> tc_owners e = n c) \<and>
     (\<forall>c. plain (visibleHooks W c))"

definition retained :: "process \<Rightarrow> bool" where
  "retained P \<longleftrightarrow> (case P of (W, held) \<Rightarrow>
     finite (dom held) \<and> ownedTLSConnections W = dom held \<and> counts W (\<lambda>c. card (users P c)))"

lemma counts_retain:
  assumes "counts W n"
  shows "counts (retainTLSContext ctx W) (\<lambda>c. n c + of_bool (ctx = Some c)) \<and>
    visibleHooks (retainTLSContext ctx W) = visibleHooks W"
proof (cases ctx)
  case (Some c)
  note facts = assms [unfolded counts_def, THEN conjunct1, rule_format, of c]
    assms [unfolded counts_def, THEN conjunct2, rule_format, of c]
  have same: "visibleHooks (retainTLSContext ctx W) = visibleHooks W"
    using facts Some
    by (intro ext) (auto simp: retainTLSContext_def visibleHooks_def noCallbacks_def behind_def plain_def Let_def
      split: option.splits)
  moreover have "case tlsContexts (retainTLSContext ctx W) d of None \<Rightarrow> n d + of_bool (ctx = Some d) = 0
      | Some e \<Rightarrow> n d + of_bool (ctx = Some d) \<noteq> 0 \<and> tc_owners e = n d + of_bool (ctx = Some d)" for d
    using facts Some assms [unfolded counts_def, THEN conjunct1, rule_format, of d]
    by (auto simp: retainTLSContext_def noCallbacks_def Let_def split: option.splits)
  ultimately show ?thesis using assms by (simp add: counts_def)
qed (use assms in \<open>simp add: retainTLSContext_def\<close>)

lemma counts_release:
  assumes "counts W (\<lambda>c. n c + of_bool (ctx = Some c))"
  shows "counts (releaseTLSContext ctx W) n \<and> visibleHooks (releaseTLSContext ctx W) = visibleHooks W"
proof (cases ctx)
  case (Some c)
  note facts = assms [unfolded counts_def, THEN conjunct1, rule_format, of c]
    assms [unfolded counts_def, THEN conjunct2, rule_format, of c]
  have same: "visibleHooks (releaseTLSContext ctx W) = visibleHooks W"
    using facts Some
    by (intro ext) (auto simp: releaseTLSContext_def visibleHooks_def behind_def plain_def Let_def
      split: option.splits)
  moreover have "case tlsContexts (releaseTLSContext ctx W) d of None \<Rightarrow> n d = 0
      | Some e \<Rightarrow> n d \<noteq> 0 \<and> tc_owners e = n d" for d
    using facts Some assms [unfolded counts_def, THEN conjunct1, rule_format, of d]
    by (auto simp: releaseTLSContext_def Let_def split: option.splits)
  ultimately show ?thesis using assms by (simp add: counts_def)
qed (use assms in \<open>simp add: releaseTLSContext_def\<close>)

lemma connections_retain [simp]:
  "connections (retainTLSContext c W) = connections W"
  "ownedTLSConnections (retainTLSContext c W) = ownedTLSConnections W"
  by (auto simp: retainTLSContext_def Let_def split: option.splits)

lemma connections_release [simp]:
  "connections (releaseTLSContext c W) = connections W"
  "ownedTLSConnections (releaseTLSContext c W) = ownedTLSConnections W"
  by (auto simp: releaseTLSContext_def Let_def split: option.splits)

lemma counts_frame:
  "tlsContexts W' = tlsContexts W \<Longrightarrow> contextHooks W' = contextHooks W \<Longrightarrow>
    counts W' n = counts W n \<and> visibleHooks W' = visibleHooks W"
  by (simp add: counts_def visibleHooks_def fun_eq_iff)

lemma retainTLSCallbacks_counts:
  assumes "counts W n"
  shows "counts (retainTLSCallbacks ssl initial W)
      (\<lambda>c. n c + of_bool (c \<in> contextsOf (connections W ssl) initial)) \<and>
    visibleHooks (retainTLSCallbacks ssl initial W) = visibleHooks W"
proof -
  let ?current = "ssl_context (connections W ssl)" and ?W1 = "retainTLSContext initial W"
  let ?W2 = "if ?current \<noteq> initial then retainTLSContext ?current ?W1 else ?W1"
  have n: "(\<lambda>c. n c + of_bool (c \<in> contextsOf (connections W ssl) initial)) =
      (if ?current \<noteq> initial then (\<lambda>c. n c + of_bool (initial = Some c) + of_bool (?current = Some c))
       else (\<lambda>c. n c + of_bool (initial = Some c)))"
    by (auto simp: contextsOf_def fun_eq_iff)
  have "counts ?W2 (\<lambda>c. n c + of_bool (c \<in> contextsOf (connections W ssl) initial)) \<and>
      visibleHooks ?W2 = visibleHooks W"
    using counts_retain [OF assms, of initial] counts_retain [of ?W1 _ ?current] unfolding n
    by (cases "?current = initial") auto
  then show ?thesis
    using counts_frame [of "retainTLSCallbacks ssl initial W" ?W2] by (simp add: retainTLSCallbacks_def Let_def)
qed

lemma releaseTLSCallbacks_counts:
  assumes "counts W (\<lambda>c. n c + of_bool (c \<in> contextsOf (connections W ssl) initial))"
  shows "counts (releaseTLSCallbacks (Some ssl) initial W) n \<and>
    visibleHooks (releaseTLSCallbacks (Some ssl) initial W) = visibleHooks W"
proof -
  let ?current = "ssl_context (connections W ssl)"
  let ?W1 = "W\<lparr>ownedTLSConnections := ownedTLSConnections W - {ssl}\<rparr>"
  have n: "(\<lambda>c. n c + of_bool (c \<in> contextsOf (connections W ssl) initial)) =
      (if ?current \<noteq> initial then (\<lambda>c. n c + of_bool (initial = Some c) + of_bool (?current = Some c))
       else (\<lambda>c. n c + of_bool (initial = Some c)))"
    by (auto simp: contextsOf_def fun_eq_iff)
  have 1: "counts ?W1 (\<lambda>c. n c + of_bool (c \<in> contextsOf (connections W ssl) initial)) \<and>
      visibleHooks ?W1 = visibleHooks W"
    using assms counts_frame [of ?W1 W] by simp
  show ?thesis
  proof (cases "?current = initial")
    case True
    with 1 n counts_release [of ?W1 n initial] show ?thesis by (simp add: releaseTLSCallbacks_def Let_def)
  next
    case False
    with 1 n counts_release [of ?W1 "\<lambda>c. n c + of_bool (initial = Some c)" ?current]
      counts_release [of "releaseTLSContext ?current ?W1" n initial]
    show ?thesis by (simp add: releaseTLSCallbacks_def Let_def)
  qed
qed

section \<open>Every event keeps it\<close>

lemma users_insert:
  "held ssl = None \<Longrightarrow> users (W, held(ssl \<mapsto> initial)) c =
    (if c \<in> contextsOf (connections W ssl) initial then insert ssl (users (W, held) c) else users (W, held) c)"
  by (auto simp: users_def split: if_splits)

lemma users_remove:
  "held ssl = Some initial \<Longrightarrow> users (W, held) c =
    (if c \<in> contextsOf (connections W ssl) initial then insert ssl (users (W, held(ssl := None)) c)
     else users (W, held(ssl := None)) c)"
  by (auto simp: users_def split: if_splits)

lemma users_frame:
  assumes "\<And>s. held s \<noteq> None \<Longrightarrow> ssl_context (connections W' s) = ssl_context (connections W s)"
  shows "users (W', held) c = users (W, held) c"
  using assms by (fastforce simp: users_def contextsOf_def)

lemma finite_users: "finite (dom held) \<Longrightarrow> finite (users (W, held) c)"
  by (rule finite_subset [of _ "dom held"]) (auto simp: users_def)

lemma users_not_held: "held ssl = None \<Longrightarrow> ssl \<notin> users (W, held) c"
  by (simp add: users_def)

lemma retained_retain:
  assumes "retained (W, held)" "held ssl = None"
  shows "retained (retainTLSCallbacks ssl initial W, held(ssl \<mapsto> initial)) \<and>
    visibleHooks (retainTLSCallbacks ssl initial W) = visibleHooks W"
proof -
  have fin: "finite (users (W, held) c)" for c using assms finite_users by (auto simp: retained_def)
  have "users (retainTLSCallbacks ssl initial W, held(ssl \<mapsto> initial)) c = users (W, held(ssl \<mapsto> initial)) c" for c
    by (rule users_frame) (simp add: retainTLSCallbacks_def Let_def)
  then have "(\<lambda>c. card (users (retainTLSCallbacks ssl initial W, held(ssl \<mapsto> initial)) c)) =
      (\<lambda>c. card (users (W, held) c) + of_bool (c \<in> contextsOf (connections W ssl) initial))"
    using assms(2) fin by (auto simp: users_insert users_not_held)
  moreover have "ownedTLSConnections (retainTLSCallbacks ssl initial W) = insert ssl (ownedTLSConnections W)"
    by (simp add: retainTLSCallbacks_def Let_def)
  ultimately show ?thesis
    using retainTLSCallbacks_counts [of W "\<lambda>c. card (users (W, held) c)" ssl initial] assms
    by (simp add: retained_def)
qed

lemma retained_release:
  assumes "retained (W, held)" "held ssl = Some initial"
  shows "retained (releaseTLSCallbacks (Some ssl) initial W, held(ssl := None)) \<and>
    visibleHooks (releaseTLSCallbacks (Some ssl) initial W) = visibleHooks W"
proof -
  have fin: "finite (users (W, held(ssl := None)) c)" for c
    using assms finite_users [of "held(ssl := None)"] by (auto simp: retained_def)
  have "users (releaseTLSCallbacks (Some ssl) initial W, held(ssl := None)) c = users (W, held(ssl := None)) c" for c
    by (rule users_frame) (simp add: releaseTLSCallbacks_def Let_def)
  moreover have "(\<lambda>c. card (users (W, held) c)) =
      (\<lambda>c. card (users (W, held(ssl := None)) c) + of_bool (c \<in> contextsOf (connections W ssl) initial))"
    using fin by (auto simp: users_remove [where W = W and held = held, OF assms(2)] users_not_held)
  moreover have "ownedTLSConnections (releaseTLSCallbacks (Some ssl) initial W) = ownedTLSConnections W - {ssl}"
    by (simp add: releaseTLSCallbacks_def Let_def)
  ultimately show ?thesis
    using releaseTLSCallbacks_counts [of W "\<lambda>c. card (users (W, held(ssl := None)) c)" ssl initial] assms
    by (auto simp: retained_def)
qed

lemma hookAt_plain [simp]: "hookAt f \<noteq> Multiplexer"
  by (simp add: hookAt_def split: option.split)

lemma retained_select:
  assumes "retained (W, held)" "held ssl = None"
  shows "retained (W\<lparr>connections := (connections W)(ssl := con)\<rparr>, held)"
proof -
  have "users (W\<lparr>connections := (connections W)(ssl := con)\<rparr>, held) c = users (W, held) c" for c
    using assms(2) by (intro users_frame) auto
  with assms(1) counts_frame [of "W\<lparr>connections := (connections W)(ssl := con)\<rparr>" W] show ?thesis
    by (simp add: retained_def)
qed

lemma retained_install:
  assumes "retained (W, held)"
  shows "retained (W\<lparr>contextHooks := install e (contextHooks W)\<rparr>, held) \<and>
    visibleHooks (W\<lparr>contextHooks := install e (contextHooks W)\<rparr>) = install e (visibleHooks W)"
proof -
  let ?W = "W\<lparr>contextHooks := install e (contextHooks W)\<rparr>"
  have visible: "visibleHooks ?W = install e (visibleHooks W)"
    by (cases e) (auto simp: fun_eq_iff visibleHooks_def setHooks_def behind_def Let_def split: option.splits)
  have "users (?W, held) = users (W, held)" by (simp add: users_def fun_eq_iff)
  moreover have "plain (install e (visibleHooks W) c)" for c
    using assms by (cases e) (auto simp: setHooks_def plain_def retained_def counts_def)
  ultimately show ?thesis using assms visible by (simp add: retained_def counts_def)
qed

lemma tlsStep_retained:
  assumes "retained P"
  shows "retained (tlsStep e P) \<and> visibleHooks (fst (tlsStep e P)) = install e (visibleHooks (fst P))"
proof -
  obtain W held where P: "P = (W, held)" by (cases P)
  have R: "retained (W, held)" using assms P by simp
  note installed = retained_install [OF R]
  show ?thesis
  proof (cases e)
    case (Retain ssl initial)
    with P R retained_retain [OF R, of ssl initial] show ?thesis by simp
  next
    case (Release ssl)
    with P R retained_release [OF R, of ssl] show ?thesis by (cases "held ssl") simp_all
  next
    case (SelectContext ssl ctx)
    let ?W = "W\<lparr>connections := (connections W)(ssl := (connections W ssl)\<lparr>ssl_context := ctx\<rparr>)\<rparr>"
    have "visibleHooks ?W = visibleHooks W" by (simp add: visibleHooks_def fun_eq_iff)
    with SelectContext P R retained_select [OF R, of ssl] show ?thesis by simp
  qed (use P installed [of e] in simp_all)
qed

lemma tlsRun_retained:
  "retained P \<Longrightarrow> retained (tlsRun es P) \<and>
    visibleHooks (fst (tlsRun es P)) = fold install es (visibleHooks (fst P))"
proof (induction es arbitrary: P)
  case (Cons e es)
  with tlsStep_retained [of P e] show ?case by (simp add: tlsRun_def)
qed (simp add: tlsRun_def)

lemma freshProcess_retained:
  "retained (freshProcess fs conns)" "visibleHooks (fst (freshProcess fs conns)) = applicationHooks fs"
  by (auto simp: freshProcess_def retained_def users_def counts_def visibleHooks_def plain_def applicationHooks_def
    fun_eq_iff split: prod.splits)

lemmas process_facts = tlsRun_retained [OF freshProcess_retained(1)]

lemma run_facts:
  assumes "tlsRun es (freshProcess fs conns) = (W, held)"
  shows "ssl \<in> ownedTLSConnections W \<longleftrightarrow> held ssl \<noteq> None" "plain (visibleHooks W c)"
    "visibleHooks W = fold install es (applicationHooks fs)" "tlsContexts W c = None \<longleftrightarrow> users (W, held) c = {}"
proof -
  have R: "retained (W, held)" using process_facts [of es fs conns] assms by simp
  show "visibleHooks W = fold install es (applicationHooks fs)"
    using process_facts [of es fs conns] freshProcess_retained(2) [of fs conns] assms by simp
  show "ssl \<in> ownedTLSConnections W \<longleftrightarrow> held ssl \<noteq> None" "plain (visibleHooks W c)"
    using R by (auto simp: retained_def counts_def)
  have "finite (users (W, held) c)" using R finite_users by (auto simp: retained_def)
  moreover have "case tlsContexts W c of None \<Rightarrow> card (users (W, held) c) = 0 | Some e \<Rightarrow> card (users (W, held) c) \<noteq> 0"
    using R [unfolded retained_def prod.case counts_def, THEN conjunct2, THEN conjunct2, THEN conjunct1, rule_format, of c]
    by (auto split: option.splits)
  ultimately show "tlsContexts W c = None \<longleftrightarrow> users (W, held) c = {}" by (auto split: option.splits)
qed

section \<open>What the application and OpenSSL see\<close>

text \<open>
  C16: Whatever connections are retained and released and whatever callbacks the application installs in
  between, each context has an entry counting exactly the retained connections that use it, the callbacks
  behind the multiplexers are those of the application, and a context that nobody retains has them back.
\<close>

theorem callbacks_restored:
  "let P = tlsRun es (freshProcess fs conns);
       application = fold install es (applicationHooks fs) c
   in map_option tc_owners (tlsContexts (fst P) c) = (if users P c = {} then None else Some (card (users P c))) \<and>
      visibleHooks (fst P) c = application \<and>
      (if users P c = {} then contextHooks (fst P) c else application) = application"
proof -
  obtain W held where P: "tlsRun es (freshProcess fs conns) = (W, held)" by fastforce
  have R: "retained (W, held)" "visibleHooks W = fold install es (applicationHooks fs)"
    using process_facts [of es fs conns] freshProcess_retained(2) [of fs conns] P by auto
  have fin: "finite (users (W, held) c)" using R finite_users by (auto simp: retained_def)
  have entry: "case tlsContexts W c of None \<Rightarrow> card (users (W, held) c) = 0
      | Some e \<Rightarrow> card (users (W, held) c) \<noteq> 0 \<and> tc_owners e = card (users (W, held) c)"
    using R by (simp add: retained_def counts_def)
  then have "map_option tc_owners (tlsContexts W c) =
      (if users (W, held) c = {} then None else Some (card (users (W, held) c)))"
    using fin by (auto split: option.splits)
  moreover have "users (W, held) c = {} \<Longrightarrow> contextHooks W c = visibleHooks W c"
    using entry by (auto simp: visibleHooks_def split: option.splits)
  ultimately show ?thesis using R by (simp add: P Let_def)
qed

text \<open>
  For an installed multiplexer OpenSSL's call is the multiplexer's, for any other hook it is the application's own;
  and the multiplexer of a connection finds what is saved for its current context.
\<close>

lemmas raised = raiseNewSession_def raiseGetSession_def raiseKeylog_def newSessionFor_def getSessionFor_def keylogFor_def
  ownNewSession_def ownGetSession_def ownKeylog_def

lemma called:
  assumes "plain (visibleHooks W c)"
  shows "session_context (connections W ssl) = Some c \<Longrightarrow> newSessionFor f W ssl s =
      (if sess_new_cb (contextHooks W c) = Multiplexer then multiplexNewSession f W ssl s
       else ownNewSession f (visibleHooks W c) ssl s)"
    "session_context (connections W ssl) = Some c \<Longrightarrow> getSessionFor g W ssl dat copy =
      (if sess_get_cb (contextHooks W c) = Multiplexer then multiplexGetSession g W ssl dat copy
       else ownGetSession g (visibleHooks W c) ssl dat copy)"
    "ssl_context (connections W ssl) = Some c \<Longrightarrow> keylogFor k W ssl line a =
      (if keylog_callback (contextHooks W c) = Multiplexer then multiplexKeylog k W ssl line a
       else ownKeylog k (visibleHooks W c) ssl line a)"
  using assms
  by (auto simp: raised visibleHooks_def plain_def behind_def Let_def split: option.splits hook.splits)

lemma multiplexed:
  assumes "ssl_context (connections W ssl) = Some d" "plain (visibleHooks W d)"
  shows "sess_new_cb (contextHooks W d) = Multiplexer \<Longrightarrow> multiplexNewSession f W ssl s =
      (if ssl \<in> ownedTLSConnections W then 0 else ownNewSession f (visibleHooks W d) ssl s)"
    "sess_get_cb (contextHooks W d) = Multiplexer \<Longrightarrow> multiplexGetSession g W ssl dat copy =
      (if ssl \<in> ownedTLSConnections W then (None, 0) else ownGetSession g (visibleHooks W d) ssl dat copy)"
    "keylog_callback (contextHooks W d) = Multiplexer \<Longrightarrow> multiplexKeylog k W ssl line a =
      (if ssl \<in> ownedTLSConnections W then a else ownKeylog k (visibleHooks W d) ssl line a)"
    "tlsContexts W d = None \<Longrightarrow> multiplexNewSession f W ssl s = 0"
    "tlsContexts W d = None \<Longrightarrow> multiplexGetSession g W ssl dat copy =
      (None, if ssl \<in> ownedTLSConnections W then 0 else copy)"
  using assms
  by (auto simp: raised multiplexNewSession_def multiplexGetSession_def multiplexKeylog_def contextEntry_def
      visibleHooks_def plain_def behind_def Let_def split: option.splits hook.splits)

text \<open>
  C15: On a connection that still has the context it began with, the callbacks do what the application's own, as it
  last installed them, would do without any transport; only on a connection that a transport owns the
  multiplexers are silent. So transports neither take callbacks away from other connections that kept their
  context nor let the application see the sessions and keys of their own through a multiplexer.
\<close>

theorem callbacks_transparent:
  assumes "tlsRun es (freshProcess fs conns) = (W, held)"
    "ssl_context (connections W ssl) = Some c" "session_context (connections W ssl) = Some c"
  shows "let h = contextHooks W c; own = fold install es (applicationHooks fs) c; owned = (held ssl \<noteq> None)
    in newSessionFor f W ssl s = (if owned \<and> sess_new_cb h = Multiplexer then 0 else ownNewSession f own ssl s) \<and>
       getSessionFor g W ssl dat copy =
         (if owned \<and> sess_get_cb h = Multiplexer then (None, 0) else ownGetSession g own ssl dat copy) \<and>
       keylogFor k W ssl line a = (if owned \<and> keylog_callback h = Multiplexer then a else ownKeylog k own ssl line a)"
proof -
  note R = run_facts [OF assms(1)]
  note own = R(3) [symmetric]
  show ?thesis
    by (simp add: Let_def own called(1) [OF R(2) assms(3)] called(2) [OF R(2) assms(3)] called(3) [OF R(2) assms(2)]
      multiplexed(1-3) [OF assms(2) R(2)] R(1))
qed

text \<open>
  Two connections of context 3, of which a transport activates the first: the application hears of the
  session, the lookup and the keys of the second only.
\<close>

definition oneContext :: connection where
  "oneContext = \<lparr>ssl_context = Some 3, session_context = Some 3, info_callback = True, cert_cb = True, msg_callback = True,
     msg_callback_arg = True, no_renegotiation = False, app_data = True\<rparr>"

definition exampleFunctions :: "nat \<Rightarrow> nat option \<times> nat option \<times> nat option" where
  "exampleFunctions c = (Some (10 + c), Some (20 + c), Some (30 + c))"

lemma callbacks_transparent_witness:
  "let W = fst (tlsRun [Retain 7 (Some 3)] (freshProcess exampleFunctions (\<lambda>_. oneContext)))
   in newSessionFor (\<lambda>a ssl s. int (a + ssl + s)) W 7 5 = 0 \<and> newSessionFor (\<lambda>a ssl s. int (a + ssl + s)) W 8 5 = 26 \<and>
      keylogFor (\<lambda>a ssl line log. log @ [(a, ssl, line)]) W 8 ''x'' [] = [(33, 8, ''x'')]"
proof -
  obtain W held where P: "tlsRun [Retain 7 (Some 3)] (freshProcess exampleFunctions (\<lambda>_. oneContext)) = (W, held)"
    by fastforce
  have held: "held 7 \<noteq> None" "held 8 = None" and mult: "sess_new_cb (contextHooks W 3) = Multiplexer"
    and ctx: "ssl_context (connections W i) = Some 3" "session_context (connections W i) = Some 3" for i
    using P by (auto simp: tlsRun_def freshProcess_def retainTLSCallbacks_def retainTLSContext_def noCallbacks_def
        oneContext_def Let_def)
  note t = callbacks_transparent [OF P ctx, unfolded Let_def]
  have own: "applicationHooks exampleFunctions 3 =
      \<lparr>sess_new_cb = Application 13, sess_get_cb = Application 23, keylog_callback = Application 33\<rparr>"
    by (simp add: applicationHooks_def exampleFunctions_def hookAt_def)
  have "newSessionFor (\<lambda>a ssl s. int (a + ssl + s)) W 7 5 = 0" "newSessionFor (\<lambda>a ssl s. int (a + ssl + s)) W 8 5 = 26"
    using t [of "\<lambda>a ssl s. int (a + ssl + s)", THEN conjunct1] by (simp_all add: own held mult ownNewSession_def)
  moreover have "keylogFor (\<lambda>a ssl line log. log @ [(a, ssl, line)]) W 8 ''x'' [] = [(33, 8, ''x'')]"
    using t [of _ 8 _ _ _ _ "\<lambda>a ssl line log. log @ [(a, ssl, line)]", THEN conjunct2, THEN conjunct2]
    by (simp add: own held ownKeylog_def)
  ultimately show ?thesis by (simp add: P)
qed



end
