(* ===== verification/Attach.thy ===== *)
theory Attach
  imports Prelude
begin

text \<open>
  What a transport owns (\<open>attachNativeTransport\<close>, \<open>duplicateDescriptor\<close>, the constructor and the destructor of
  \<open>NativeTransport\<close>): a descriptor of its own, references to the connection and the context of OpenSSL, references to
  JavaScript objects and an \<open>AsyncResource\<close>. A ledger counts them. What Node.js, N-API, OpenSSL and the system answer
  are records of arguments.
\<close>

section \<open>What is asked of the outside\<close>

datatype provider = PROVIDER_TCPWRAP | PROVIDER_TLSWRAP | OTHER_PROVIDER

text \<open>The stream of the JavaScript socket; connections and contexts of OpenSSL are numbers.\<close>

record StreamBase =
  sb_alive :: bool
  sb_closing :: bool
  sb_provider :: "provider option"
  sb_descriptor :: "nat option"
  sb_ssl :: "nat option"
  sb_initialContext :: "nat option"

datatype systemCall = Gave nat | Refused bool

text \<open>
  \<open>Refused True\<close> is \<open>EINVAL\<close>. \<open>sys_hasDupfd\<close> and \<open>sys_hasNosigpipe\<close> tell whether the macros \<open>F_DUPFD_CLOEXEC\<close> and
  \<open>SO_NOSIGPIPE\<close> are defined.
\<close>

record system =
  sys_hasDupfd :: bool
  sys_hasNosigpipe :: bool
  sys_dupfd :: systemCall
  sys_dup :: systemCall
  sys_getfd :: bool
  sys_setfd :: bool
  sys_setsockopt :: bool
  sys_sslUp :: bool
  sys_contextUp :: bool
  sys_loop :: bool
  sys_readStop :: bool
  sys_ownerReference :: bool
  sys_messageProperty :: bool
  sys_messageReference :: bool
  sys_ownerIsObject :: bool
  sys_asyncResource :: bool

section \<open>The ledger\<close>

text \<open>An open descriptor comes with its close-on-exec flag.\<close>

record ledger =
  lg_descriptors :: "(nat \<times> bool) list"
  lg_ssl :: "nat \<Rightarrow> nat"
  lg_contexts :: "nat \<Rightarrow> nat"
  lg_references :: nat
  lg_asyncResources :: nat
  lg_reading :: bool

definition openDescriptor :: "nat \<Rightarrow> bool \<Rightarrow> ledger \<Rightarrow> ledger" where
  "openDescriptor fd cloexec L = L\<lparr>lg_descriptors := (fd, cloexec) # lg_descriptors L\<rparr>"

definition setCloseOnExec :: "nat \<Rightarrow> ledger \<Rightarrow> ledger" where
  "setCloseOnExec fd L = L\<lparr>lg_descriptors := map (\<lambda>(d, c). (d, c \<or> d = fd)) (lg_descriptors L)\<rparr>"

definition closeDescriptor :: "nat \<Rightarrow> ledger \<Rightarrow> ledger" where
  "closeDescriptor fd L = L\<lparr>lg_descriptors := filter (\<lambda>(d, c). d \<noteq> fd) (lg_descriptors L)\<rparr>"

definition SSL_up_ref :: "nat \<Rightarrow> ledger \<Rightarrow> ledger" where
  "SSL_up_ref ssl L = L\<lparr>lg_ssl := (lg_ssl L)(ssl := lg_ssl L ssl + 1)\<rparr>"

definition SSL_free :: "nat option \<Rightarrow> ledger \<Rightarrow> ledger" where
  "SSL_free p L = (case p of None \<Rightarrow> L | Some ssl \<Rightarrow> L\<lparr>lg_ssl := (lg_ssl L)(ssl := lg_ssl L ssl - 1)\<rparr>)"

definition SSL_CTX_up_ref :: "nat \<Rightarrow> ledger \<Rightarrow> ledger" where
  "SSL_CTX_up_ref ctx L = L\<lparr>lg_contexts := (lg_contexts L)(ctx := lg_contexts L ctx + 1)\<rparr>"

definition SSL_CTX_free :: "nat option \<Rightarrow> ledger \<Rightarrow> ledger" where
  "SSL_CTX_free p L = (case p of None \<Rightarrow> L | Some ctx \<Rightarrow> L\<lparr>lg_contexts := (lg_contexts L)(ctx := lg_contexts L ctx - 1)\<rparr>)"

section \<open>The descriptor\<close>

definition duplicateDescriptor :: "system \<Rightarrow> ledger \<Rightarrow> nat option \<times> ledger" where
  "duplicateDescriptor sys L =
     (case (if sys_hasDupfd sys then sys_dupfd sys else Refused True) of
        Gave fd \<Rightarrow> (Some fd, openDescriptor fd True L)
      | Refused invalid \<Rightarrow>
          if \<not> invalid then (None, L)
          else case sys_dup sys of
            Refused _ \<Rightarrow> (None, L)
          | Gave fd \<Rightarrow>
              (let L = openDescriptor fd False L
               in if \<not> sys_getfd sys \<or> \<not> sys_setfd sys then (None, closeDescriptor fd L)
                  else (Some fd, setCloseOnExec fd L)))"

section \<open>The transport\<close>

text \<open>The members that own something.\<close>

record ownership =
  own_descriptor :: "nat option"
  own_ssl :: "nat option"
  own_initialContext :: "nat option"
  own_owner :: bool
  own_messageCallback :: bool
  own_asyncResource :: bool
  own_valid :: bool

text \<open>The constructor gives up at the first failure; its caller then sees an invalid transport.\<close>

definition construct :: "system \<Rightarrow> nat \<Rightarrow> nat option \<Rightarrow> nat option \<Rightarrow> ledger \<Rightarrow> ownership \<times> ledger" where
  "construct sys fd ssl ctx L =
     (let t = \<lparr>own_descriptor = Some fd, own_ssl = ssl, own_initialContext = ctx, own_owner = False,
               own_messageCallback = False, own_asyncResource = False, own_valid = False\<rparr>
      in if \<not> sys_ownerReference sys then (t, L)
      else let t = t\<lparr>own_owner := True\<rparr>; L = L\<lparr>lg_references := lg_references L + 1\<rparr>
      in if \<not> sys_messageProperty sys \<or> \<not> sys_messageReference sys then (t, L)
      else let t = t\<lparr>own_messageCallback := True\<rparr>; L = L\<lparr>lg_references := lg_references L + 1\<rparr>
      in if \<not> sys_ownerIsObject sys then (t, L)
      else if \<not> sys_asyncResource sys then (t, L)
      else (t\<lparr>own_asyncResource := True, own_valid := True\<rparr>, L\<lparr>lg_asyncResources := lg_asyncResources L + 1\<rparr>))"

text \<open>
  The destructor; \<open>environmentCleaning\<close> leaves the references to the environment, which is going away. The callbacks
  and the list are in \<open>TLS_Contexts\<close> and \<open>Environments\<close>. A transport that was closed has no descriptor any more.
\<close>

definition destruct :: "bool \<Rightarrow> ownership \<Rightarrow> ledger \<Rightarrow> ledger" where
  "destruct environmentCleaning t L =
     (let L = SSL_free (own_ssl t) L;
          L = SSL_CTX_free (own_initialContext t) L;
          L = (case own_descriptor t of None \<Rightarrow> L | Some fd \<Rightarrow> closeDescriptor fd L);
          L = (if own_asyncResource t then L\<lparr>lg_asyncResources := lg_asyncResources L - 1\<rparr> else L)
      in if environmentCleaning then L
         else let L = (if own_messageCallback t then L\<lparr>lg_references := lg_references L - 1\<rparr> else L)
         in if own_owner t then L\<lparr>lg_references := lg_references L - 1\<rparr> else L)"

text \<open>The part of \<open>closeNow\<close> that closes the descriptor.\<close>

definition closeOwned :: "ownership \<Rightarrow> ledger \<Rightarrow> ownership \<times> ledger" where
  "closeOwned t L =
     (case own_descriptor t of None \<Rightarrow> (t, L) | Some fd \<Rightarrow> (t\<lparr>own_descriptor := None\<rparr>, closeDescriptor fd L))"

definition giveUp :: "nat \<Rightarrow> nat option \<Rightarrow> nat option \<Rightarrow> ledger \<Rightarrow> ledger" where
  "giveUp fd ssl ctx L = SSL_CTX_free ctx (SSL_free ssl (closeDescriptor fd L))"

text \<open>The references to OpenSSL's objects; \<open>None\<close> is the return of \<open>nullptr\<close>.\<close>

definition retainTLS :: "system \<Rightarrow> bool \<Rightarrow> StreamBase \<Rightarrow> ledger \<Rightarrow> (nat option \<times> nat option) option \<times> ledger" where
  "retainTLS sys encrypted stream L =
     (if \<not> encrypted then (Some (None, None), L)
      else case (sb_ssl stream, sb_initialContext stream) of
        (Some ssl, Some ctx) \<Rightarrow>
          if \<not> sys_sslUp sys then (None, L)
          else let L = SSL_up_ref ssl L
          in if \<not> sys_contextUp sys then (None, SSL_free (Some ssl) L)
             else (Some (Some ssl, Some ctx), SSL_CTX_up_ref ctx L)
      | _ \<Rightarrow> (None, L))"

text \<open>\<open>stream\<close> is \<open>None\<close> when the handle is no object with the field of a stream.\<close>

definition attachNativeTransport ::
  "system \<Rightarrow> bool \<Rightarrow> StreamBase option \<Rightarrow> bool \<Rightarrow> ledger \<Rightarrow> ownership option \<times> ledger" where
  "attachNativeTransport sys environmentReady handle encrypted L =
     (if \<not> environmentReady then (None, L)
      else case handle of
        None \<Rightarrow> (None, L)
      | Some stream \<Rightarrow>
          if \<not> sb_alive stream \<or> sb_closing stream then (None, L)
          else if sb_provider stream = None then (None, L)
          else if encrypted \<noteq> (sb_provider stream = Some PROVIDER_TLSWRAP) then (None, L)
          else if \<not> encrypted \<and> sb_provider stream \<noteq> Some PROVIDER_TCPWRAP then (None, L)
          else if sb_descriptor stream = None then (None, L)
          else case retainTLS sys encrypted stream L of
            (None, L) \<Rightarrow> (None, L)
          | (Some (ssl, ctx), L) \<Rightarrow>
              (case duplicateDescriptor sys L of
                 (None, L) \<Rightarrow> (None, SSL_CTX_free ctx (SSL_free ssl L))
               | (Some fd, L) \<Rightarrow>
                   if sys_hasNosigpipe sys \<and> \<not> sys_setsockopt sys then (None, giveUp fd ssl ctx L)
                   else if \<not> sys_loop sys then (None, giveUp fd ssl ctx L)
                   else if \<not> sys_readStop sys then (None, giveUp fd ssl ctx L)
                   else let (t, L) = construct sys fd ssl ctx (L\<lparr>lg_reading := False\<rparr>)
                   in if \<not> own_valid t then (None, destruct False t L) else (Some t, L)))"

section \<open>Balance\<close>

text \<open>The system hands out descriptors that are not open.\<close>

definition newDescriptors :: "system \<Rightarrow> ledger \<Rightarrow> bool" where
  "newDescriptors sys L \<longleftrightarrow>
     (\<forall>fd \<in> fst ` set (lg_descriptors L). sys_dupfd sys \<noteq> Gave fd \<and> sys_dup sys \<noteq> Gave fd)"

definition free :: "nat \<Rightarrow> ledger \<Rightarrow> bool" where
  "free fd L \<longleftrightarrow> fd \<notin> fst ` set (lg_descriptors L)"

text \<open>The ledger with what a transport holds of a connection.\<close>

definition holding :: "nat \<Rightarrow> nat option \<Rightarrow> nat option \<Rightarrow> ledger \<Rightarrow> ledger" where
  "holding fd ssl ctx L =
     openDescriptor fd True
       ((case ctx of None \<Rightarrow> id | Some c \<Rightarrow> SSL_CTX_up_ref c) ((case ssl of None \<Rightarrow> id | Some c \<Rightarrow> SSL_up_ref c) L))"

lemma close_open [simp]: "free fd L \<Longrightarrow> closeDescriptor fd (openDescriptor fd c L) = L"
proof -
  assume "free fd L"
  then have "filter (\<lambda>(d, c). d \<noteq> fd) (lg_descriptors L) = lg_descriptors L"
    by (intro filter_True) (force simp: free_def)
  then show ?thesis by (simp add: closeDescriptor_def openDescriptor_def)
qed

lemma set_open: "free fd L \<Longrightarrow> setCloseOnExec fd (openDescriptor fd c L) = openDescriptor fd True L"
proof -
  assume "free fd L"
  then have "map (\<lambda>(d, c). (d, c \<or> d = fd)) (lg_descriptors L) = lg_descriptors L"
    by (intro map_idI) (force simp: free_def)
  then show ?thesis by (simp add: setCloseOnExec_def openDescriptor_def)
qed

lemma ssl_balance [simp]: "SSL_free (Some p) (SSL_up_ref p L) = L"
  by (simp add: SSL_free_def SSL_up_ref_def)

lemma context_balance [simp]: "SSL_CTX_free (Some p) (SSL_CTX_up_ref p L) = L"
  by (simp add: SSL_CTX_free_def SSL_CTX_up_ref_def)

lemma duplicate_result:
  assumes "newDescriptors sys L" "duplicateDescriptor sys L = (result, L')"
  shows "case result of None \<Rightarrow> L' = L | Some fd \<Rightarrow> free fd L \<and> L' = openDescriptor fd True L"
proof -
  have "free fd L" if "sys_dupfd sys = Gave fd \<or> sys_dup sys = Gave fd" for fd
    using assms(1) that by (auto simp: newDescriptors_def free_def)
  with assms(2) show ?thesis
    by (auto simp: duplicateDescriptor_def Let_def set_open split: if_splits systemCall.splits)
qed

lemma free_up [simp]: "free fd (SSL_up_ref p L) = free fd L" "free fd (SSL_CTX_up_ref q L) = free fd L"
  "free fd (L\<lparr>lg_reading := r\<rparr>) = free fd L"
  by (simp_all add: free_def SSL_up_ref_def SSL_CTX_up_ref_def)

lemma newDescriptors_up [simp]:
  "newDescriptors sys (SSL_up_ref p L) = newDescriptors sys L" "newDescriptors sys (SSL_CTX_up_ref q L) = newDescriptors sys L"
  by (simp_all add: newDescriptors_def SSL_up_ref_def SSL_CTX_up_ref_def)

lemma giveUp_holding [simp]:
  assumes "free fd L"
  shows "giveUp fd ssl ctx (holding fd ssl ctx L) = L"
    "giveUp fd ssl ctx ((holding fd ssl ctx L)\<lparr>lg_reading := r\<rparr>) = L\<lparr>lg_reading := r\<rparr>"
proof -
  have swap: "SSL_free p (SSL_CTX_up_ref q K) = SSL_CTX_up_ref q (SSL_free p K)" for p q K
    by (simp add: SSL_free_def SSL_CTX_up_ref_def split: option.split)
  have none: "SSL_free None K = K" "SSL_CTX_free None K = K" for K by (simp_all add: SSL_free_def SSL_CTX_free_def)
  have reading: "(holding fd ssl ctx L)\<lparr>lg_reading := r\<rparr> = holding fd ssl ctx (L\<lparr>lg_reading := r\<rparr>)"
    by (simp add: holding_def openDescriptor_def SSL_up_ref_def SSL_CTX_up_ref_def split: option.split)
  have all: "free fd K \<Longrightarrow> giveUp fd ssl ctx (holding fd ssl ctx K) = K" for K
    by (cases ssl; cases ctx) (simp_all add: giveUp_def holding_def swap none)
  show "giveUp fd ssl ctx (holding fd ssl ctx L) = L" by (rule all [OF assms])
  show "giveUp fd ssl ctx ((holding fd ssl ctx L)\<lparr>lg_reading := r\<rparr>) = L\<lparr>lg_reading := r\<rparr>"
    unfolding reading by (rule all) (simp add: assms)
qed

lemma release_fields [simp]:
  "lg_descriptors (SSL_free p L) = lg_descriptors L" "lg_contexts (SSL_free p L) = lg_contexts L"
  "lg_references (SSL_free p L) = lg_references L" "lg_asyncResources (SSL_free p L) = lg_asyncResources L"
  "lg_reading (SSL_free p L) = lg_reading L"
  "lg_descriptors (SSL_CTX_free q L) = lg_descriptors L" "lg_ssl (SSL_CTX_free q L) = lg_ssl L"
  "lg_references (SSL_CTX_free q L) = lg_references L" "lg_asyncResources (SSL_CTX_free q L) = lg_asyncResources L"
  "lg_reading (SSL_CTX_free q L) = lg_reading L"
  "lg_ssl (closeDescriptor fd L) = lg_ssl L" "lg_contexts (closeDescriptor fd L) = lg_contexts L"
  "lg_references (closeDescriptor fd L) = lg_references L" "lg_asyncResources (closeDescriptor fd L) = lg_asyncResources L"
  "lg_reading (closeDescriptor fd L) = lg_reading L"
  by (simp_all add: SSL_free_def SSL_CTX_free_def closeDescriptor_def split: option.split)

definition sslAfter :: "nat option \<Rightarrow> (nat \<Rightarrow> nat) \<Rightarrow> nat \<Rightarrow> nat" where
  "sslAfter p f = (case p of None \<Rightarrow> f | Some x \<Rightarrow> f(x := f x - 1))"

lemma released_fields:
  "lg_ssl (SSL_free p L) = sslAfter p (lg_ssl L)" "lg_contexts (SSL_CTX_free p L) = sslAfter p (lg_contexts L)"
  "lg_descriptors (closeDescriptor fd L) = filter (\<lambda>(d, c). d \<noteq> fd) (lg_descriptors L)"
  by (simp_all add: SSL_free_def SSL_CTX_free_def closeDescriptor_def sslAfter_def split: option.split)

lemma destruct_fields:
  "lg_ssl (destruct c t L) = sslAfter (own_ssl t) (lg_ssl L)"
  "lg_contexts (destruct c t L) = sslAfter (own_initialContext t) (lg_contexts L)"
  "lg_descriptors (destruct c t L) =
    (case own_descriptor t of None \<Rightarrow> lg_descriptors L | Some fd \<Rightarrow> filter (\<lambda>(d, c). d \<noteq> fd) (lg_descriptors L))"
  "lg_references (destruct c t L) =
    (if c then lg_references L else lg_references L - (if own_messageCallback t then 1 else 0) - (if own_owner t then 1 else 0))"
  "lg_asyncResources (destruct c t L) = lg_asyncResources L - (if own_asyncResource t then 1 else 0)"
  "lg_reading (destruct c t L) = lg_reading L"
proof -
  define K where "K = (case own_descriptor t of None \<Rightarrow> SSL_CTX_free (own_initialContext t) (SSL_free (own_ssl t) L)
      | Some fd \<Rightarrow> closeDescriptor fd (SSL_CTX_free (own_initialContext t) (SSL_free (own_ssl t) L)))"
  have K: "lg_ssl K = sslAfter (own_ssl t) (lg_ssl L)" "lg_contexts K = sslAfter (own_initialContext t) (lg_contexts L)"
    "lg_descriptors K =
      (case own_descriptor t of None \<Rightarrow> lg_descriptors L | Some fd \<Rightarrow> filter (\<lambda>(d, c). d \<noteq> fd) (lg_descriptors L))"
    "lg_references K = lg_references L" "lg_asyncResources K = lg_asyncResources L" "lg_reading K = lg_reading L"
    by (cases "own_descriptor t"; simp add: K_def released_fields)+
  have d: "destruct c t L = (let M = (if own_asyncResource t then K\<lparr>lg_asyncResources := lg_asyncResources K - 1\<rparr> else K)
      in if c then M
         else let M = (if own_messageCallback t then M\<lparr>lg_references := lg_references M - 1\<rparr> else M)
         in if own_owner t then M\<lparr>lg_references := lg_references M - 1\<rparr> else M)"
    by (simp add: destruct_def K_def Let_def)
  show "lg_ssl (destruct c t L) = sslAfter (own_ssl t) (lg_ssl L)"
    "lg_contexts (destruct c t L) = sslAfter (own_initialContext t) (lg_contexts L)"
    "lg_descriptors (destruct c t L) =
      (case own_descriptor t of None \<Rightarrow> lg_descriptors L | Some fd \<Rightarrow> filter (\<lambda>(d, c). d \<noteq> fd) (lg_descriptors L))"
    "lg_references (destruct c t L) =
      (if c then lg_references L else lg_references L - (if own_messageCallback t then 1 else 0) - (if own_owner t then 1 else 0))"
    "lg_asyncResources (destruct c t L) = lg_asyncResources L - (if own_asyncResource t then 1 else 0)"
    "lg_reading (destruct c t L) = lg_reading L"
    unfolding d Let_def by (simp_all add: K)
qed

text \<open>The destructor takes back what the constructor took, and gives up what was handed over to it.\<close>

lemma construct_result:
  assumes "construct sys fd ssl ctx L = (t, L')"
  shows "own_descriptor t = Some fd" "own_ssl t = ssl" "own_initialContext t = ctx"
    "lg_descriptors L' = lg_descriptors L" "lg_ssl L' = lg_ssl L" "lg_contexts L' = lg_contexts L" "lg_reading L' = lg_reading L"
    "lg_references L' = lg_references L + (if own_messageCallback t then 1 else 0) + (if own_owner t then 1 else 0)"
    "lg_asyncResources L' = lg_asyncResources L + (if own_asyncResource t then 1 else 0)"
    "destruct False t L' = giveUp fd ssl ctx L"
proof -
  have t: "t = fst (construct sys fd ssl ctx L)" "L' = snd (construct sys fd ssl ctx L)" using assms by simp_all
  show all: "own_descriptor t = Some fd" "own_ssl t = ssl" "own_initialContext t = ctx"
    "lg_descriptors L' = lg_descriptors L" "lg_ssl L' = lg_ssl L" "lg_contexts L' = lg_contexts L" "lg_reading L' = lg_reading L"
    "lg_references L' = lg_references L + (if own_messageCallback t then 1 else 0) + (if own_owner t then 1 else 0)"
    "lg_asyncResources L' = lg_asyncResources L + (if own_asyncResource t then 1 else 0)"
    unfolding t construct_def Let_def by simp_all
  show "destruct False t L' = giveUp fd ssl ctx L"
    by (rule ledger.equality) (simp_all add: destruct_fields giveUp_def released_fields all)
qed

lemma closeOwned_destruct:
  assumes "closeOwned t L = (u, K)"
  shows "destruct c u K = destruct c t L"
proof (cases "own_descriptor t")
  case None
  with assms show ?thesis by (simp add: closeOwned_def)
next
  case (Some fd)
  with assms have "u = t\<lparr>own_descriptor := None\<rparr>" "K = closeDescriptor fd L" by (simp_all add: closeOwned_def)
  with Some show ?thesis by (intro ledger.equality) (simp_all add: destruct_fields released_fields)
qed

lemma retainTLS_result:
  assumes "retainTLS sys encrypted stream L = (result, K)"
  shows "case result of
      None \<Rightarrow> K = L
    | Some (ssl, ctx) \<Rightarrow> holding fd ssl ctx L = openDescriptor fd True K \<and> free d K = free d L \<and>
        newDescriptors sys K = newDescriptors sys L \<and> (encrypted \<longleftrightarrow> ssl \<noteq> None) \<and> (encrypted \<longleftrightarrow> ctx \<noteq> None)"
  using assms by (auto simp: retainTLS_def Let_def holding_def split: if_splits option.splits)

lemma retained_cases:
  assumes "retainTLS sys encrypted stream L = (Some (ssl, ctx), K)"
  shows "\<not> encrypted \<and> ssl = None \<and> ctx = None \<and> K = L \<or>
    (\<exists>p q. encrypted \<and> ssl = Some p \<and> ctx = Some q \<and> K = SSL_CTX_up_ref q (SSL_up_ref p L))"
proof (cases encrypted)
  case True
  with assms obtain p q where "sb_ssl stream = Some p" "sb_initialContext stream = Some q"
    by (cases "sb_ssl stream"; cases "sb_initialContext stream") (simp_all add: retainTLS_def)
  with assms True have "Some p = ssl \<and> Some q = ctx \<and> SSL_CTX_up_ref q (SSL_up_ref p L) = K"
    by (simp add: retainTLS_def Let_def split: if_splits)
  with True show ?thesis by blast
qed (use assms in \<open>simp add: retainTLS_def\<close>)

lemma duplicate_failed:
  assumes "retainTLS sys encrypted stream L = (Some (ssl, ctx), K)"
  shows "SSL_CTX_free ctx (SSL_free ssl K) = L"
proof -
  have swap: "SSL_free p (SSL_CTX_up_ref q K) = SSL_CTX_up_ref q (SSL_free p K)" for p q K
    by (simp add: SSL_free_def SSL_CTX_up_ref_def split: option.split)
  have none: "SSL_free None K = K" "SSL_CTX_free None K = K" for K by (simp_all add: SSL_free_def SSL_CTX_free_def)
  show ?thesis using retained_cases [OF assms] by (elim disjE exE conjE) (simp_all add: swap none)
qed

section \<open>Properties\<close>

text \<open>The guards of the code, and what follows them.\<close>

definition attachable :: "bool \<Rightarrow> StreamBase option \<Rightarrow> bool \<Rightarrow> bool" where
  "attachable environmentReady handle encrypted \<longleftrightarrow> (\<exists>stream. environmentReady \<and> handle = Some stream \<and>
     sb_alive stream \<and> \<not> sb_closing stream \<and>
     sb_provider stream = Some (if encrypted then PROVIDER_TLSWRAP else PROVIDER_TCPWRAP) \<and> sb_descriptor stream \<noteq> None)"

lemma attach_unattachable:
  "\<not> attachable environmentReady handle encrypted \<Longrightarrow>
   attachNativeTransport sys environmentReady handle encrypted L = (None, L)"
  by (auto simp: attachNativeTransport_def attachable_def split: option.split if_splits)

lemma attach_attachable:
  assumes "attachable environmentReady handle encrypted"
  obtains stream where "attachNativeTransport sys environmentReady handle encrypted L =
      (case retainTLS sys encrypted stream L of
         (None, L) \<Rightarrow> (None, L)
       | (Some (ssl, ctx), L) \<Rightarrow>
           (case duplicateDescriptor sys L of
              (None, L) \<Rightarrow> (None, SSL_CTX_free ctx (SSL_free ssl L))
            | (Some fd, L) \<Rightarrow>
                if sys_hasNosigpipe sys \<and> \<not> sys_setsockopt sys then (None, giveUp fd ssl ctx L)
                else if \<not> sys_loop sys then (None, giveUp fd ssl ctx L)
                else if \<not> sys_readStop sys then (None, giveUp fd ssl ctx L)
                else let (t, L) = construct sys fd ssl ctx (L\<lparr>lg_reading := False\<rparr>)
                in if \<not> own_valid t then (None, destruct False t L) else (Some t, L)))"
proof -
  from assms obtain stream old where guards: "environmentReady" "handle = Some stream" "sb_alive stream" "\<not> sb_closing stream"
    "sb_provider stream = Some (if encrypted then PROVIDER_TLSWRAP else PROVIDER_TCPWRAP)" "sb_descriptor stream = Some old"
    by (auto simp: attachable_def)
  show thesis by (rule that [of stream]) (cases encrypted; simp add: attachNativeTransport_def guards)
qed

text \<open>What one attempt leaves: nothing, or a transport built on a fresh descriptor and the retained TLS objects.\<close>

lemma attach_outcome:
  assumes "newDescriptors sys L"
  obtains (released) L' where "attachNativeTransport sys environmentReady handle encrypted L = (None, L')"
      "L'\<lparr>lg_reading := lg_reading L\<rparr> = L"
  | (owned) fd ssl ctx t N where "attachNativeTransport sys environmentReady handle encrypted L = (Some t, N)" "free fd L"
      "construct sys fd ssl ctx ((holding fd ssl ctx L)\<lparr>lg_reading := False\<rparr>) = (t, N)"
      "encrypted \<and> ssl \<noteq> None \<and> ctx \<noteq> None \<or> \<not> encrypted \<and> ssl = None \<and> ctx = None"
proof (cases "attachable environmentReady handle encrypted")
  case False
  show thesis by (rule released [OF attach_unattachable [OF False]]) simp
next
  case True
  then obtain stream where g: "attachNativeTransport sys environmentReady handle encrypted L =
      (case retainTLS sys encrypted stream L of
         (None, L) \<Rightarrow> (None, L)
       | (Some (ssl, ctx), L) \<Rightarrow>
           (case duplicateDescriptor sys L of
              (None, L) \<Rightarrow> (None, SSL_CTX_free ctx (SSL_free ssl L))
            | (Some fd, L) \<Rightarrow>
                if sys_hasNosigpipe sys \<and> \<not> sys_setsockopt sys then (None, giveUp fd ssl ctx L)
                else if \<not> sys_loop sys then (None, giveUp fd ssl ctx L)
                else if \<not> sys_readStop sys then (None, giveUp fd ssl ctx L)
                else let (t, L) = construct sys fd ssl ctx (L\<lparr>lg_reading := False\<rparr>)
                in if \<not> own_valid t then (None, destruct False t L) else (Some t, L)))"
    by (rule attach_attachable)
  obtain tls K where tls: "retainTLS sys encrypted stream L = (tls, K)" by (cases rule: prod.exhaust)
  show thesis
  proof (cases tls)
    case None
    with tls retainTLS_result [OF tls] show ?thesis by (intro released [of L]) (simp_all add: g)
  next
    case (Some pair)
    obtain ssl ctx where pair: "pair = (ssl, ctx)" by (cases pair)
    note kept = retainTLS_result [OF tls, unfolded Some pair option.case prod.case]
    obtain dup M where dup: "duplicateDescriptor sys K = (dup, M)" by (cases rule: prod.exhaust)
    have new: "newDescriptors sys K" using kept assms by blast
    note d = duplicate_result [OF new dup]
    show ?thesis
    proof (cases dup)
      case None
      with tls d dup duplicate_failed [OF tls [unfolded \<open>tls = Some pair\<close> pair]] show ?thesis
        by (intro released [of L]) (simp_all add: g pair \<open>tls = Some pair\<close>)
    next
      case (Some fd)
      have M: "M = holding fd ssl ctx L" and fd: "free fd L" using d kept by (simp_all add: Some)
      obtain t N where t: "construct sys fd ssl ctx (M\<lparr>lg_reading := False\<rparr>) = (t, N)" by (cases rule: prod.exhaust)
      have "destruct False t N = L\<lparr>lg_reading := False\<rparr>" using construct_result(10) [OF t] fd by (simp add: M)
      then have "attachNativeTransport sys environmentReady handle encrypted L =
        (if sys_hasNosigpipe sys \<and> \<not> sys_setsockopt sys \<or> \<not> sys_loop sys \<or> \<not> sys_readStop sys then (None, L)
         else if \<not> own_valid t then (None, L\<lparr>lg_reading := False\<rparr>) else (Some t, N))"
        using tls dup fd t by (simp add: g pair \<open>tls = Some pair\<close> Some M) blast
      then show ?thesis
        using released owned [OF _ fd t [unfolded M]] retained_cases [OF tls [unfolded \<open>tls = Some pair\<close> pair]]
        by (auto split: if_splits)
    qed
  qed
qed

text \<open>
  C11: a transport owns what it was given, and a failed attempt leaves nothing behind: when \<open>attachNativeTransport\<close>
  returns nothing, whatever call refused, no descriptor stays open and no reference is held. Otherwise the
  transport holds one new descriptor with the close-on-exec flag and, over TLS, one reference to the connection
  and one to its first context; its destructor gives back all of it, whether the descriptor was closed before or not.
\<close>

theorem attach_owns_or_releases:
  assumes "newDescriptors sys L"
  shows "case attachNativeTransport sys environmentReady handle encrypted L of
      (None, L') \<Rightarrow> L'\<lparr>lg_reading := lg_reading L\<rparr> = L
    | (Some t, L') \<Rightarrow>
        (\<exists>fd. own_descriptor t = Some fd \<and> lg_descriptors L' = (fd, True) # lg_descriptors L) \<and>
        (if encrypted
         then (\<exists>ssl ctx. own_ssl t = Some ssl \<and> own_initialContext t = Some ctx \<and>
           lg_ssl L' = (lg_ssl L)(ssl := lg_ssl L ssl + 1) \<and> lg_contexts L' = (lg_contexts L)(ctx := lg_contexts L ctx + 1))
         else own_ssl t = None \<and> own_initialContext t = None \<and> lg_ssl L' = lg_ssl L \<and> lg_contexts L' = lg_contexts L) \<and>
        destruct False t L' = L\<lparr>lg_reading := False\<rparr> \<and>
        destruct False (fst (closeOwned t L')) (snd (closeOwned t L')) = L\<lparr>lg_reading := False\<rparr>"
  using assms
proof (cases rule: attach_outcome [where environmentReady = environmentReady and handle = handle and encrypted = encrypted])
  case (released L')
  then show ?thesis by simp
next
  case (owned fd ssl ctx t N)
  note r = construct_result [OF owned(3)]
  have returned: "destruct False t N = L\<lparr>lg_reading := False\<rparr>" using r(10) owned(2) by simp
  obtain u V where u: "closeOwned t N = (u, V)" by (cases rule: prod.exhaust)
  have "destruct False (fst (closeOwned t N)) (snd (closeOwned t N)) = L\<lparr>lg_reading := False\<rparr>"
    using closeOwned_destruct [OF u] returned by (simp add: u)
  moreover have "lg_descriptors (holding fd ssl ctx L) = (fd, True) # lg_descriptors L"
    "if encrypted then (\<exists>s c. ssl = Some s \<and> ctx = Some c \<and> lg_ssl (holding fd ssl ctx L) = (lg_ssl L)(s := lg_ssl L s + 1) \<and>
        lg_contexts (holding fd ssl ctx L) = (lg_contexts L)(c := lg_contexts L c + 1))
      else ssl = None \<and> ctx = None \<and> lg_ssl (holding fd ssl ctx L) = lg_ssl L \<and> lg_contexts (holding fd ssl ctx L) = lg_contexts L"
    using owned(4) by (auto simp: holding_def openDescriptor_def SSL_up_ref_def SSL_CTX_up_ref_def)
  ultimately show ?thesis using r(1-6) returned by (auto simp: owned(1))
qed

lemma attach_owns_or_releases_witness:
  "let sys = \<lparr>sys_hasDupfd = True, sys_hasNosigpipe = False, sys_dupfd = Refused True, sys_dup = Gave 7, sys_getfd = True,
        sys_setfd = True, sys_setsockopt = True, sys_sslUp = True, sys_contextUp = True, sys_loop = True, sys_readStop = True,
        sys_ownerReference = True, sys_messageProperty = True, sys_messageReference = False, sys_ownerIsObject = True,
        sys_asyncResource = True\<rparr>;
      stream = \<lparr>sb_alive = True, sb_closing = False, sb_provider = Some PROVIDER_TLSWRAP, sb_descriptor = Some 5,
        sb_ssl = Some 1, sb_initialContext = Some 2\<rparr>;
      L = \<lparr>lg_descriptors = [(5, True)], lg_ssl = (\<lambda>_. 1), lg_contexts = (\<lambda>_. 1), lg_references = 0,
        lg_asyncResources = 0, lg_reading = True\<rparr>
   in (snd (attachNativeTransport sys True (Some stream) True L))\<lparr>lg_reading := True\<rparr> = L"
proof -
  define sys where "sys = \<lparr>sys_hasDupfd = True, sys_hasNosigpipe = False, sys_dupfd = Refused True, sys_dup = Gave 7, sys_getfd = True,
        sys_setfd = True, sys_setsockopt = True, sys_sslUp = True, sys_contextUp = True, sys_loop = True, sys_readStop = True,
        sys_ownerReference = True, sys_messageProperty = True, sys_messageReference = False, sys_ownerIsObject = True,
        sys_asyncResource = True\<rparr>"
  define stream where "stream = \<lparr>sb_alive = True, sb_closing = False, sb_provider = Some PROVIDER_TLSWRAP, sb_descriptor = Some 5,
        sb_ssl = Some 1, sb_initialContext = Some 2\<rparr>"
  define L where "L = \<lparr>lg_descriptors = [(5, True)], lg_ssl = (\<lambda>_. 1), lg_contexts = (\<lambda>_. 1), lg_references = 0,
        lg_asyncResources = 0, lg_reading = True\<rparr>"
  have new: "newDescriptors sys L" by (simp add: newDescriptors_def sys_def L_def)
  have "fst (attachNativeTransport sys True (Some stream) True L) = None"
    by (simp add: attachNativeTransport_def retainTLS_def duplicateDescriptor_def construct_def sys_def stream_def Let_def)
  then obtain L' where "attachNativeTransport sys True (Some stream) True L = (None, L')" by (metis prod.collapse)
  with attach_owns_or_releases [OF new, where environmentReady = True and handle = "Some stream" and encrypted = True] show ?thesis
    unfolding sys_def [symmetric] stream_def [symmetric] L_def [symmetric] by (simp add: L_def)
qed

end
