(* ===== verification/Addon.thy ===== *)
theory Addon
  imports Environments
begin

text \<open>
  The functions \<open>addon.cpp\<close> exports to JavaScript: they read their arguments, act on the session or the transport of a
  handle, and return a value or throw. What \<open>attachNativeTransport\<close> learns from Node.js, and the contents of
  uninitialised members, are a record \<open>outside\<close>; calls of N-API on good arguments succeed, and C++ exceptions
  (\<open>guardedCallback\<close>) are not modelled.
\<close>

section \<open>Values\<close>

text \<open>
  A handle is the number of its session or compression context. \<open>JsBuffer\<close> stands for the values that
  \<open>napi_is_buffer\<close> accepts; numbers are integers. \<open>NoValue\<close> is \<open>nullptr\<close>.
\<close>

datatype napi_value =
  JsInput jsValue
| JsNumber int
| JsBoolean bool
| JsArray "jsValue list"
| JsSession nat
| JsContext nat
| NoValue

text \<open>An exception with its message; \<open>StatusError\<close> is a call of N-API that failed, with the message of \<open>checkStatus\<close>.\<close>

datatype exception = StatusError string | TypeError string | RangeError string | JsError string

text \<open>A view is given by its bounds in the \<open>Buffer\<close> that was the argument.\<close>

datatype jsResult =
  Undefined
| Null
| Number int
| Boolean bool
| Status status
| Text "byte list"
| CopiedBuffer "byte list"
| ExternalBuffer "byte list"
| BufferView nat nat
| SessionObject nat
| ContextObject nat
| Array "jsResult list"

definition bytesOf :: "string \<Rightarrow> byte list" where
  "bytesOf s = map (\<lambda>c. of_nat (of_char c)) s"

definition charsOf :: "byte list \<Rightarrow> string" where
  "charsOf bs = map (\<lambda>b. char_of (unat b)) bs"

record NativeInput =
  ni_data :: "byte list"
  ni_isBuffer :: bool

record outside =
  os_granted :: bool
  os_bio :: "byte list"
  os_io :: "answer list"
  os_reactions :: "(action list \<times> bool) list"
  os_mask :: "byte list"
  os_header :: "byte list"

text \<open>
  \<open>ad_sessions\<close> holds the sessions without a transport; an attached one is in its transport. \<open>ad_source\<close> is the
  content of the input of the last \<open>consume\<close> when it returned.
\<close>

record 'z addon =
  ad_runtime :: "'z runtime"
  ad_handles :: nat
  ad_sessions :: "nat \<Rightarrow> 'z Session"
  ad_contexts :: "'z CompressionContext list"
  ad_source :: "byte list"

section \<open>Arguments\<close>

text \<open>The continuation of a function whose argument was read, unless that threw.\<close>

definition attempt :: "exception + 'a \<Rightarrow> ('a \<Rightarrow> 'w \<Rightarrow> (exception + 'b) \<times> 'w) \<Rightarrow> 'w \<Rightarrow> (exception + 'b) \<times> 'w" where
  "attempt r f w = (case r of Inl e \<Rightarrow> (Inl e, w) | Inr x \<Rightarrow> f x w)"

text \<open>\<open>napi_get_cb_info\<close> sets the count to that of the arguments passed, which may exceed the capacity.\<close>

definition getArguments :: "nat \<Rightarrow> nat \<Rightarrow> napi_value list \<Rightarrow> exception + napi_value list" where
  "getArguments capacity minimum args =
     (let count = length args
      in if count < (if minimum \<noteq> 0 then minimum else capacity) then Inl (TypeError ''not enough arguments'')
         else Inr (take capacity args @ replicate (count - capacity) NoValue))"

definition getFixedArguments :: "nat \<Rightarrow> nat \<Rightarrow> napi_value list \<Rightarrow> exception + napi_value list \<times> nat" where
  "getFixedArguments capacity minimum args =
     (let count = length args
      in if count < minimum then Inl (TypeError ''not enough arguments'')
         else Inr (take capacity args @ replicate (capacity - count) (JsInput JsUndefined), count))"

fun getInt32 :: "napi_value \<Rightarrow> exception + 32 word" where
  "getInt32 (JsNumber n) = Inr (word_of_int n)"
| "getInt32 _ = Inl (StatusError ''expected an integer'')"

fun getBoolean :: "napi_value \<Rightarrow> exception + bool" where
  "getBoolean (JsBoolean b) = Inr b"
| "getBoolean _ = Inl (StatusError ''expected a boolean'')"

fun getString :: "napi_value \<Rightarrow> exception + string" where
  "getString (JsInput (JsString utf8)) = Inr (charsOf utf8)"
| "getString _ = Inl (StatusError ''expected a string'')"

fun getInput :: "napi_value \<Rightarrow> exception + NativeInput" where
  "getInput (JsInput (JsBuffer dat b)) = Inr \<lparr>ni_data = dat, ni_isBuffer = True\<rparr>"
| "getInput (JsInput (JsTypedArray type dat b)) =
     (let elementCount = length dat div elementSize type
      in Inr \<lparr>ni_data = take (elementCount * elementSize type) dat, ni_isBuffer = False\<rparr>)"
| "getInput (JsInput (JsArrayBuffer dat b)) = Inr \<lparr>ni_data = dat, ni_isBuffer = False\<rparr>"
| "getInput (JsInput (JsString utf8)) = Inr \<lparr>ni_data = utf8, ni_isBuffer = False\<rparr>"
| "getInput NoValue = Inl (StatusError ''failed to inspect Buffer'')"
| "getInput _ = Inl (TypeError ''expected a string, Buffer, TypedArray or ArrayBuffer'')"

text \<open>A value that only the transport looks at.\<close>

fun asInput :: "napi_value \<Rightarrow> jsValue" where
  "asInput (JsInput v) = v"
| "asInput _ = JsOther"

fun asList :: "napi_value \<Rightarrow> jsValue list option" where
  "asList (JsArray vs) = Some vs"
| "asList _ = None"

definition hasSessionTag :: "napi_value \<Rightarrow> exception + nat" where
  "hasSessionTag v =
     (case v of JsSession h \<Rightarrow> Inr h | _ \<Rightarrow> Inl (TypeError ''expected a native WebSocket session''))"

definition getSession :: "napi_value \<Rightarrow> 'z addon \<Rightarrow> exception + nat" where
  "getSession v w =
     (case hasSessionTag v of
        Inl e \<Rightarrow> Inl e
      | Inr h \<Rightarrow>
          if \<not> sh_session (rt_handles (ad_runtime w) h) then Inl (JsError ''WebSocket session is closed'') else Inr h)"

definition getCompressionContext :: "napi_value \<Rightarrow> 'z addon \<Rightarrow> exception + 'z CompressionContext" where
  "getCompressionContext v w =
     (case v of
        JsContext k \<Rightarrow>
          if length (ad_contexts w) \<le> k then Inl (JsError ''compression context is closed'') else Inr (ad_contexts w ! k)
      | _ \<Rightarrow> Inl (TypeError ''expected a native compression context''))"

section \<open>Results\<close>

text \<open>
  The pointer of an event lies in the input when the parser ran there; the header buffer and the strings of the
  events lie elsewhere.
\<close>

definition createBufferView :: "NativeInput \<Rightarrow> StreamWebSocketEvent \<Rightarrow> jsResult" where
  "createBufferView input e =
     (case view e of
        Some ((InputBuffer, p), bytes) \<Rightarrow>
          if ni_isBuffer input \<and> p \<le> length (ni_data input) \<and> length bytes \<le> length (ni_data input) - p
          then BufferView (p mod 2 ^ 32) ((p + length bytes) mod 2 ^ 32)
          else CopiedBuffer bytes
      | _ \<Rightarrow> CopiedBuffer (payloadData e))"

definition createExternalBuffer :: "byte list \<Rightarrow> jsResult" where
  "createExternalBuffer dat = (if dat = [] then CopiedBuffer dat else ExternalBuffer dat)"

text \<open>What JavaScript sees of one event.\<close>

definition eventItem :: "bool \<Rightarrow> NativeInput \<Rightarrow> StreamWebSocketEvent \<Rightarrow> jsResult" where
  "eventItem textAsBuffer input e =
     (case ev_type e of
        MESSAGE \<Rightarrow>
          Array [Number 0,
            if ev_opCode e = BINARY \<or> textAsBuffer then createBufferView input e else Text (payloadData e),
            Boolean (ev_opCode e = BINARY)]
      | FRAME \<Rightarrow> Array [Number 1, createExternalBuffer (ev_data e)]
      | CLOSED \<Rightarrow> Array [Number 2, Number (int (ev_code e)), Text (payloadData e)])"

section \<open>Sessions\<close>

definition transportOf :: "nat \<Rightarrow> 'z addon \<Rightarrow> nat option" where
  "transportOf h w = sh_transport (rt_handles (ad_runtime w) h)"

definition sessionOf :: "nat \<Rightarrow> 'z addon \<Rightarrow> 'z Session" where
  "sessionOf h w =
     (case transportOf h w of None \<Rightarrow> ad_sessions w h | Some i \<Rightarrow> nt_sessionObject (rt_transports (ad_runtime w) i))"

definition setSession :: "nat \<Rightarrow> 'z Session \<Rightarrow> 'z addon \<Rightarrow> 'z addon" where
  "setSession h x w =
     (case transportOf h w of
        None \<Rightarrow> w\<lparr>ad_sessions := (ad_sessions w)(h := x)\<rparr>
      | Some i \<Rightarrow> w\<lparr>ad_runtime := useSession h x (ad_runtime w)\<rparr>)"

definition createCompressionContext ::
  "'z host \<Rightarrow> nat \<Rightarrow> outside \<Rightarrow> napi_value list \<Rightarrow> 'z addon \<Rightarrow> (exception + jsResult) \<times> 'z addon" where
  "createCompressionContext E depth out args w =
     (Inr (ContextObject (length (ad_contexts w))),
      w\<lparr>ad_contexts := ad_contexts w @ [newCompressionContext (zlibOf E)]\<rparr>)"

text \<open>The last argument of \<open>createSession\<close>: none, or a compression context.\<close>

definition givenContext :: "napi_value list \<Rightarrow> 'z addon \<Rightarrow> exception + 'z CompressionContext option" where
  "givenContext args w =
     (if length args = 4 \<and> args ! 3 \<noteq> JsInput JsUndefined \<and> args ! 3 \<noteq> JsInput JsNull
      then (case getCompressionContext (args ! 3) w of Inl e \<Rightarrow> Inl e | Inr ctx \<Rightarrow> Inr (Some ctx))
      else Inr None)"

definition createSession ::
  "'z host \<Rightarrow> nat \<Rightarrow> outside \<Rightarrow> napi_value list \<Rightarrow> 'z addon \<Rightarrow> (exception + jsResult) \<times> 'z addon" where
  "createSession E depth out args = attempt (getArguments 4 3 args) (\<lambda>args.
     attempt (getInt32 (args ! 0)) (\<lambda>wantedOptions.
     attempt (getInt32 (args ! 1)) (\<lambda>limit.
     attempt (getString (args ! 2)) (\<lambda>extensionOffer w.
       if limit <s 0 then (Inl (RangeError ''maxPayload must be a non-negative 32-bit integer''), w)
       else let negotiator = readOffer (newNegotiator wantedOptions) extensionOffer;
                negotiatedOptions = getNegotiatedOptions negotiator
       in attempt (givenContext args w) (\<lambda>ctx w.
         let ctx = (if ctx = None \<and> has_option negotiatedOptions PERMESSAGE_DEFLATE
                    then Some (newCompressionContext (zlibOf E)) else ctx);
             session = newSession (zlibOf E) negotiatedOptions (getServerMaxWindowBits negotiator) (unat limit) ctx
                         (os_mask out) (os_header out);
             h = ad_handles w
         in (Inr (Array [SessionObject h, Text (bytesOf (generateOffer negotiator))]),
             w\<lparr>ad_handles := h + 1, ad_sessions := (ad_sessions w)(h := session),
               ad_runtime := setHandle h (\<lambda>k. \<lparr>sh_session = True, sh_transport = None\<rparr>) (ad_runtime w)\<rparr>)) w))))"

definition consumeBuffer ::
  "'z host \<Rightarrow> nat \<Rightarrow> outside \<Rightarrow> napi_value list \<Rightarrow> 'z addon \<Rightarrow> (exception + jsResult) \<times> 'z addon" where
  "consumeBuffer E depth out args = attempt (getArguments 3 2 args) (\<lambda>args w.
     attempt (getSession (args ! 0) w) (\<lambda>h.
     attempt (getInput (args ! 1)) (\<lambda>input.
     attempt (if length args = 3 then getBoolean (args ! 2) else Inr False) (\<lambda>textAsBuffer w.
       let (x, buffer) = sw_consume (cpuOf E) (zlibOf E) (ni_data input) 0 (length (ni_data input)) (sessionOf h w)
       in (Inr (Array (map (eventItem textAsBuffer input) (events (sock x)))),
           (setSession h (releaseEvents x) w)\<lparr>ad_source := buffer\<rparr>)))) w)"

definition frame ::
  "'z host \<Rightarrow> nat \<Rightarrow> outside \<Rightarrow> napi_value list \<Rightarrow> 'z addon \<Rightarrow> (exception + jsResult) \<times> 'z addon" where
  "frame E depth out args = attempt (getArguments 4 0 args) (\<lambda>args w.
     attempt (getSession (args ! 0) w) (\<lambda>h.
     attempt (getInput (args ! 1)) (\<lambda>input.
     attempt (getInt32 (args ! 2)) (\<lambda>opc.
     attempt (getBoolean (args ! 3)) (\<lambda>compress w.
       let x = sessionOf h w;
           (fr, s) = createFrame (cpuOf E) (zlibOf E) (ni_data input) (ucast opc) compress (sock x);
           w = setSession h (x\<lparr>sock := s\<rparr>) w
       in case fr of
            None \<Rightarrow> (Inl (JsError ''cannot send WebSocket frame in the current state''), w)
          | Some fr \<Rightarrow> (Inr (createExternalBuffer fr), w))))) w)"

definition closeFrame ::
  "'z host \<Rightarrow> nat \<Rightarrow> outside \<Rightarrow> napi_value list \<Rightarrow> 'z addon \<Rightarrow> (exception + jsResult) \<times> 'z addon" where
  "closeFrame E depth out args = attempt (getArguments 3 0 args) (\<lambda>args w.
     attempt (getSession (args ! 0) w) (\<lambda>h.
     attempt (getInt32 (args ! 1)) (\<lambda>code.
     attempt (getInput (args ! 2)) (\<lambda>reason w.
       let x = sessionOf h w;
           (fr, s) = createCloseFrame (cpuOf E) (unat (ucast code :: 16 word)) (Some (ni_data reason)) (sock x);
           w = setSession h (x\<lparr>sock := s\<rparr>) w
       in case fr of None \<Rightarrow> (Inr Null, w) | Some fr \<Rightarrow> (Inr (createExternalBuffer fr), w)))) w)"

section \<open>Transports\<close>

text \<open>An operation of \<open>native_transport.cpp\<close> on the transport of a handle.\<close>

definition onNative :: "nat \<Rightarrow> ('z NativeTransport \<Rightarrow> 'a \<times> 'z NativeTransport) \<Rightarrow> 'z addon \<Rightarrow> 'a \<times> 'z addon" where
  "onNative i f w =
     (let (result, t) = f (rt_transports (ad_runtime w) i)
      in (result, w\<lparr>ad_runtime := (if alive (ad_runtime w) i then becomes i t (ad_runtime w) else faulty (ad_runtime w))\<rparr>))"

definition attached :: "nat \<Rightarrow> 'z addon \<Rightarrow> exception + nat" where
  "attached h w =
     (case transportOf h w of None \<Rightarrow> Inl (JsError ''native transport is not attached'') | Some i \<Rightarrow> Inr i)"

definition attachNative ::
  "'z host \<Rightarrow> nat \<Rightarrow> outside \<Rightarrow> napi_value list \<Rightarrow> 'z addon \<Rightarrow> (exception + jsResult) \<times> 'z addon" where
  "attachNative E depth out args = attempt (getArguments 6 0 args) (\<lambda>args w.
     attempt (getSession (args ! 0) w) (\<lambda>h.
     attempt (getBoolean (args ! 3)) (\<lambda>textAsBuffer.
     attempt (getBoolean (args ! 4)) (\<lambda>encrypted.
     attempt (getInt32 (args ! 5)) (\<lambda>limit w.
       if limit <s 0 then (Inl (RangeError ''maxBackpressure must be a non-negative 32-bit integer''), w)
       else if transportOf h w \<noteq> None then (Inl (JsError ''native transport is already attached''), w)
       else let R = storeTransport h (attachTransport h (os_granted out)
                      (newNativeTransport encrypted (sessionOf h w) textAsBuffer (unat limit) (os_bio out) (os_io out)
                        (os_reactions out)) (ad_runtime w))
            in (Inr (Boolean (sh_transport (rt_handles R h) \<noteq> None)), w\<lparr>ad_runtime := R\<rparr>))))) w)"

definition feedTransport ::
  "'z host \<Rightarrow> nat \<Rightarrow> outside \<Rightarrow> napi_value list \<Rightarrow> 'z addon \<Rightarrow> (exception + jsResult) \<times> 'z addon" where
  "feedTransport E depth out args = attempt (getArguments 2 0 args) (\<lambda>args w.
     attempt (getSession (args ! 0) w) (\<lambda>h.
     attempt (getInput (args ! 1)) (\<lambda>input w.
     attempt (attached h w) (\<lambda>i w.
       let (consumed, w) = onNative i (feed E (upcallsAt E depth) (ni_data input)) w
       in (Inr (Boolean consumed), w)) w)) w)"

definition activateTransport ::
  "'z host \<Rightarrow> nat \<Rightarrow> outside \<Rightarrow> napi_value list \<Rightarrow> 'z addon \<Rightarrow> (exception + jsResult) \<times> 'z addon" where
  "activateTransport E depth out args = attempt (getArguments 1 0 args) (\<lambda>args w.
     attempt (getSession (args ! 0) w) (\<lambda>h w.
     attempt (attached h w) (\<lambda>i w.
       let (st, w) = onNative i (activate E (upcallsAt E depth)) w in (Inr (Status st), w)) w) w)"

definition terminateTransport ::
  "'z host \<Rightarrow> nat \<Rightarrow> outside \<Rightarrow> napi_value list \<Rightarrow> 'z addon \<Rightarrow> (exception + jsResult) \<times> 'z addon" where
  "terminateTransport E depth out args = attempt (getArguments 1 0 args) (\<lambda>args w.
     attempt (getSession (args ! 0) w) (\<lambda>h w.
       (Inr Undefined,
        case transportOf h w of
          None \<Rightarrow> w
        | Some i \<Rightarrow> snd (onNative i (\<lambda>t. ((), terminate (upcallsAt E depth) t)) w))) w)"

definition writeTransportMessage ::
  "'z host \<Rightarrow> nat \<Rightarrow> outside \<Rightarrow> napi_value list \<Rightarrow> 'z addon \<Rightarrow> (exception + jsResult) \<times> 'z addon" where
  "writeTransportMessage E depth out args = attempt (getFixedArguments 5 4 args) (\<lambda>(args, count) w.
     attempt (getSession (args ! 0) w) (\<lambda>h.
     attempt (getInt32 (args ! 2)) (\<lambda>opc.
     attempt (getBoolean (args ! 3)) (\<lambda>compress w.
     attempt (attached h w) (\<lambda>i w.
       let callback = (if count = 5 then asInput (args ! 4) else JsUndefined);
           (st, w) = onNative i (\<lambda>t. answering callback (writeMessage E (upcallsAt E depth) (asInput (args ! 1)) (ucast opc) compress callback t)) w
       in (Inr (Status st), w)) w))) w)"

definition writeTransportFrames ::
  "'z host \<Rightarrow> nat \<Rightarrow> outside \<Rightarrow> napi_value list \<Rightarrow> 'z addon \<Rightarrow> (exception + jsResult) \<times> 'z addon" where
  "writeTransportFrames E depth out args = attempt (getFixedArguments 3 2 args) (\<lambda>(args, count) w.
     attempt (getSession (args ! 0) w) (\<lambda>h w.
     attempt (attached h w) (\<lambda>i w.
       let callback = (if count = 3 then asInput (args ! 2) else JsUndefined);
           (st, w) = onNative i (\<lambda>t. answering callback (writeFrameList E (upcallsAt E depth) (asList (args ! 1)) callback t)) w
       in (Inr (Status st), w)) w) w)"

definition writeTransportFrame ::
  "'z host \<Rightarrow> nat \<Rightarrow> outside \<Rightarrow> napi_value list \<Rightarrow> 'z addon \<Rightarrow> (exception + jsResult) \<times> 'z addon" where
  "writeTransportFrame E depth out args = attempt (getFixedArguments 3 2 args) (\<lambda>(args, count) w.
     attempt (getSession (args ! 0) w) (\<lambda>h w.
     attempt (attached h w) (\<lambda>i w.
       let callback = (if count = 3 then asInput (args ! 2) else JsUndefined);
           (st, w) = onNative i (\<lambda>t. answering callback (writeFrame E (upcallsAt E depth) (asInput (args ! 1)) callback t)) w
       in (Inr (Status st), w)) w) w)"

definition writeTransportClose ::
  "'z host \<Rightarrow> nat \<Rightarrow> outside \<Rightarrow> napi_value list \<Rightarrow> 'z addon \<Rightarrow> (exception + jsResult) \<times> 'z addon" where
  "writeTransportClose E depth out args = attempt (getArguments 3 0 args) (\<lambda>args w.
     attempt (getSession (args ! 0) w) (\<lambda>h.
     attempt (getInt32 (args ! 1)) (\<lambda>code.
     attempt (getInput (args ! 2)) (\<lambda>reason w.
     attempt (attached h w) (\<lambda>i w.
       let (st, w) = onNative i (writeClose E (upcallsAt E depth) (unat (ucast code :: 16 word)) (ni_data reason)) w
       in (Inr (Status st), w)) w))) w)"

definition transportBufferedAmount ::
  "'z host \<Rightarrow> nat \<Rightarrow> outside \<Rightarrow> napi_value list \<Rightarrow> 'z addon \<Rightarrow> (exception + jsResult) \<times> 'z addon" where
  "transportBufferedAmount E depth out args = attempt (getArguments 1 0 args) (\<lambda>args w.
     attempt (getSession (args ! 0) w) (\<lambda>h w.
       (case transportOf h w of
          None \<Rightarrow> (Inr (Number 0), w)
        | Some i \<Rightarrow>
            (let (amount, w) = onNative i (\<lambda>t. (bufferedAmount t, t)) w in (Inr (Number (int amount)), w)))) w)"

definition disposeSession ::
  "'z host \<Rightarrow> nat \<Rightarrow> outside \<Rightarrow> napi_value list \<Rightarrow> 'z addon \<Rightarrow> (exception + jsResult) \<times> 'z addon" where
  "disposeSession E depth out args = attempt (getArguments 1 0 args) (\<lambda>args.
     attempt (hasSessionTag (args ! 0)) (\<lambda>h w.
       (Inr Undefined, w\<lparr>ad_runtime := dispose E depth h (ad_runtime w)\<rparr>)))"

text \<open>The garbage collector runs this once JavaScript has lost the handle.\<close>

definition finalizeSession :: "'z host \<Rightarrow> nat \<Rightarrow> nat \<Rightarrow> 'z addon \<Rightarrow> 'z addon" where
  "finalizeSession E depth h w = w\<lparr>ad_runtime := dispose E depth h (ad_runtime w)\<rparr>"

section \<open>The module\<close>

definition properties ::
  "(string \<times> ('z host \<Rightarrow> nat \<Rightarrow> outside \<Rightarrow> napi_value list \<Rightarrow> 'z addon \<Rightarrow> (exception + jsResult) \<times> 'z addon)) list" where
  "properties =
     [(''createCompressionContext'', createCompressionContext),
      (''createSession'', createSession),
      (''consume'', consumeBuffer),
      (''frame'', frame),
      (''closeFrame'', closeFrame),
      (''attachTransport'', attachNative),
      (''activateTransport'', activateTransport),
      (''terminateTransport'', terminateTransport),
      (''feedTransport'', feedTransport),
      (''writeTransportMessage'', writeTransportMessage),
      (''writeTransportFrame'', writeTransportFrame),
      (''writeTransportFrames'', writeTransportFrames),
      (''writeTransportClose'', writeTransportClose),
      (''transportBufferedAmount'', transportBufferedAmount),
      (''dispose'', disposeSession)]"

definition versionText :: "nat \<times> nat \<times> nat \<Rightarrow> string" where
  "versionText v = (case v of (major, minor, patch) \<Rightarrow> digits major @ ''.'' @ digits minor @ ''.'' @ digits patch)"

text \<open>\<open>snprintf\<close> keeps 191 characters. The exports are the names of the properties.\<close>

definition initialize ::
  "nat \<times> nat \<times> nat \<Rightarrow> (nat \<times> nat \<times> nat) option \<Rightarrow> bool \<Rightarrow> 'z addon \<Rightarrow> (exception + string list) \<times> 'z addon" where
  "initialize built running hookAdded w =
     (case running of
        None \<Rightarrow> (Inl (JsError ''failed to read the Node.js runtime version''), w)
      | Some version \<Rightarrow>
          if version \<noteq> built then
            (Inl (JsError (take 191 (''eiows was built for Node.js '' @ versionText built @ '' but is running on Node.js '' @
               versionText version @ ''; rebuild eiows for the current Node.js release''))), w)
          else let (ok, R) = initializeNativeEnvironment hookAdded (ad_runtime w); w = w\<lparr>ad_runtime := R\<rparr>
          in if \<not> ok then (Inl (JsError ''failed to initialize native transport environment''), w)
             else (Inr (map fst (properties :: (string \<times> ('z host \<Rightarrow> nat \<Rightarrow> outside \<Rightarrow> napi_value list \<Rightarrow> 'z addon \<Rightarrow>
                          (exception + jsResult) \<times> 'z addon)) list)), w))"

text \<open>
  A turn of the event loop: JavaScript calls a function of the module, the garbage collector takes a handle, libuv
  reports something on a poll handle, or the environment ends, after which no JavaScript runs. The module feeds
  and writes to active transports only (\<open>_nativeActive\<close> in \<open>eiows.js\<close>). The callbacks that run within a turn
  act on their own connection (the reactions of \<open>Transport\<close>); what a callback calls on another handle, as a
  broadcast does, is not part of the model: it can only be taken as a turn of its own, after that turn.
\<close>

definition writers :: "string set" where
  "writers =
     {''feedTransport'', ''writeTransportMessage'', ''writeTransportFrame'', ''writeTransportFrames'', ''writeTransportClose''}"

definition proper :: "string \<Rightarrow> napi_value list \<Rightarrow> 'z addon \<Rightarrow> bool" where
  "proper name args w \<longleftrightarrow>
     (name \<in> writers \<longrightarrow>
      (case args of
         JsSession h # _ \<Rightarrow>
           (case transportOf h w of None \<Rightarrow> True | Some i \<Rightarrow> nt_active (rt_transports (ad_runtime w) i))
       | _ \<Rightarrow> True))"

datatype turn = Call string outside "napi_value list" | Collect nat | Event nat step | Exit

fun takeTurn :: "'z host \<Rightarrow> nat \<Rightarrow> turn \<Rightarrow> 'z addon \<Rightarrow> 'z addon" where
  "takeTurn E depth (Call name out args) w =
     (if \<not> rt_known (ad_runtime w) \<or> \<not> proper name args w then w
      else case map_of properties name of None \<Rightarrow> w | Some f \<Rightarrow> snd (f E depth out args w))"
| "takeTurn E depth (Collect h) w = (if rt_known (ad_runtime w) then finalizeSession E depth h w else w)"
| "takeTurn E depth (Event i s) w = w\<lparr>ad_runtime := envStep E depth (FromLoop i s) (ad_runtime w)\<rparr>"
| "takeTurn E depth Exit w = w\<lparr>ad_runtime := envStep E depth CleanupHook (ad_runtime w)\<rparr>"

definition turns :: "'z host \<Rightarrow> nat \<Rightarrow> turn list \<Rightarrow> 'z addon \<Rightarrow> 'z addon" where
  "turns E depth ts = fold (takeTurn E depth) ts"

text \<open>The module before it is initialised; the arguments are arbitrary.\<close>

definition freshAddon :: "(nat \<Rightarrow> 'z NativeTransport) \<Rightarrow> (nat \<Rightarrow> 'z Session) \<Rightarrow> 'z addon" where
  "freshAddon ts xs = \<lparr>ad_runtime = unloaded ts, ad_handles = 0, ad_sessions = xs, ad_contexts = [], ad_source = []\<rparr>"

section \<open>The functions by name\<close>

lemma properties_cases:
  assumes "map_of properties name = Some f"
  shows "(name, f) \<in> set properties"
  using assms by (rule map_of_SomeD)

lemma attempt_simps [simp]: "attempt (Inl e) f w = (Inl e, w)" "attempt (Inr x) f w = f x w"
  by (simp_all add: attempt_def)

lemma attempt_keeps: "P w \<Longrightarrow> (\<And>x. r = Inr x \<Longrightarrow> P (snd (f x w))) \<Longrightarrow> P (snd (attempt r f w))"
  by (cases r) simp_all

lemma attemptE:
  assumes "attempt r f w = (Inr v, w')"
  obtains x where "r = Inr x" "f x w = (Inr v, w')"
  using assms by (cases r) simp_all

lemma getSession_Inr: "getSession v w = Inr h \<longleftrightarrow> v = JsSession h \<and> sh_session (rt_handles (ad_runtime w) h)"
  by (auto simp: getSession_def hasSessionTag_def split: napi_value.splits)

lemma attached_Inr [simp]: "attached h w = Inr i \<longleftrightarrow> transportOf h w = Some i"
  by (simp add: attached_def split: option.split)

lemma getArguments_first: "getArguments capacity minimum args = Inr as \<Longrightarrow> capacity \<noteq> 0 \<Longrightarrow> as ! 0 = JsSession h \<Longrightarrow>
    \<exists>rest. args = JsSession h # rest"
  by (cases args) (auto simp: getArguments_def Let_def nth_append split: if_splits)

lemma getFixedArguments_first: "getFixedArguments capacity minimum args = Inr (as, n) \<Longrightarrow> capacity \<noteq> 0 \<Longrightarrow> as ! 0 = JsSession h \<Longrightarrow>
    \<exists>rest. args = JsSession h # rest"
  by (cases args) (auto simp: getFixedArguments_def Let_def nth_append split: if_splits)

section \<open>The module as an environment\<close>

text \<open>Each call is at most one event of the environment; only new handles get a session.\<close>

definition acts :: "'z host \<Rightarrow> nat \<Rightarrow> 'z addon \<Rightarrow> 'z addon \<Rightarrow> bool" where
  "acts E depth w w' \<longleftrightarrow> ad_handles w \<le> ad_handles w' \<and>
     (\<exists>es. length es \<le> 1 \<and> ad_runtime w' = envRun E depth es (ad_runtime w) \<and>
       (\<forall>h. CreateSession h \<in> set es \<longrightarrow> ad_handles w \<le> h \<and> h < ad_handles w'))"

lemma acts_none: "ad_runtime w' = ad_runtime w \<Longrightarrow> ad_handles w' = ad_handles w \<Longrightarrow> acts E depth w w'"
  unfolding acts_def by (intro conjI exI [of _ "[]"]) (simp_all add: envRun_def)

lemma acts_step:
  "ad_runtime w' = envStep E depth ev (ad_runtime w) \<Longrightarrow> ad_handles w \<le> ad_handles w' \<Longrightarrow>
    (\<And>h. ev = CreateSession h \<Longrightarrow> ad_handles w \<le> h \<and> h < ad_handles w') \<Longrightarrow> acts E depth w w'"
  unfolding acts_def by (intro conjI exI [of _ "[ev]"]) (auto simp: envRun_def)

lemma handles_fields [simp]:
  "ad_handles (snd (onNative i f w)) = ad_handles w" "ad_handles (setSession h x w) = ad_handles w"
  by (simp_all add: onNative_def setSession_def split_beta split: option.split)

text \<open>What is known of the transport of a handle: it lives and JavaScript has not asked for its destruction.\<close>

lemma transport_facts:
  assumes "orderly (ad_runtime w)" "transportOf h w = Some i"
  shows "alive (ad_runtime w) i" "\<not> nt_deleted (rt_transports (ad_runtime w) i)"
    "\<not> nt_destroyRequested (rt_transports (ad_runtime w) i)"
  using orderly_handles [OF assms(1), of h i] assms(2) by (simp_all add: transportOf_def alive_def)

lemma onNative_acts:
  assumes "orderly (ad_runtime w)" "transportOf h w = Some i" "sh_session (rt_handles (ad_runtime w) h)" "byJs s"
    and "\<And>t. t = rt_transports (ad_runtime w) i \<Longrightarrow> snd (f t) = takeStep E (upcallsAt E depth) s t"
  shows "acts E depth w (snd (onNative i f w))"
proof (rule acts_step)
  note a = transport_facts [OF assms(1,2)]
  have "ad_runtime (snd (onNative i f w)) = becomes i (snd (f (rt_transports (ad_runtime w) i))) (ad_runtime w)"
    using a(1) by (simp add: onNative_def split_beta)
  with assms(2-5) a(1) show "ad_runtime (snd (onNative i f w)) = envStep E depth (FromJs h s) (ad_runtime w)"
    by (simp add: transportOf_def onTransport_def runTransport_def)
qed simp_all

lemma setSession_acts:
  assumes "sh_session (rt_handles (ad_runtime w) h)"
  shows "acts E depth w (setSession h x w)"
proof (cases "transportOf h w")
  case None
  then show ?thesis by (intro acts_none) (simp_all add: setSession_def)
next
  case (Some i)
  with assms show ?thesis by (intro acts_step [where ev = "UseSession h x"]) (simp_all add: setSession_def)
qed

lemma acts_runtime: "acts E depth w w' \<Longrightarrow> ad_runtime w'' = ad_runtime w' \<Longrightarrow> ad_handles w'' = ad_handles w' \<Longrightarrow> acts E depth w w''"
  by (simp add: acts_def)

lemma acts_attempt:
  "(\<And>x. r = Inr x \<Longrightarrow> acts E depth w (snd (f x w))) \<Longrightarrow> acts E depth w (snd (attempt r f w))"
  by (cases r) (simp_all add: acts_none)

lemma session_functions_act:
  "acts E depth w (snd (createCompressionContext E depth out args w))"
  "acts E depth w (snd (consumeBuffer E depth out args w))"
  "acts E depth w (snd (frame E depth out args w))"
  "acts E depth w (snd (closeFrame E depth out args w))"
  "acts E depth w (snd (disposeSession E depth out args w))"
proof -
  show "acts E depth w (snd (createCompressionContext E depth out args w))"
    by (rule acts_none) (simp_all add: createCompressionContext_def)
  show "acts E depth w (snd (consumeBuffer E depth out args w))"
    unfolding consumeBuffer_def
    by (intro acts_attempt) (auto simp: getSession_Inr split_beta intro: acts_runtime [OF setSession_acts])
  show "acts E depth w (snd (frame E depth out args w))"
    unfolding frame_def
    by (intro acts_attempt) (auto simp: getSession_Inr Let_def split_beta intro: setSession_acts split: option.split)
  show "acts E depth w (snd (closeFrame E depth out args w))"
    unfolding closeFrame_def
    by (intro acts_attempt) (auto simp: getSession_Inr Let_def split_beta intro: setSession_acts split: option.split)
  show "acts E depth w (snd (disposeSession E depth out args w))"
    unfolding disposeSession_def by (intro acts_attempt) (auto intro!: acts_step [where ev = "Dispose _"])
qed

definition unused :: "'z runtime \<Rightarrow> nat \<Rightarrow> bool" where
  "unused R h \<longleftrightarrow> rt_handles R h = \<lparr>sh_session = False, sh_transport = None\<rparr>"

lemma acts_if:
  "(c \<Longrightarrow> acts E depth w (snd x)) \<Longrightarrow> (\<not> c \<Longrightarrow> acts E depth w (snd y)) \<Longrightarrow> acts E depth w (snd (if c then x else y))"
  by simp

lemma createSession_acts:
  assumes "unused (ad_runtime w) (ad_handles w)"
  shows "acts E depth w (snd (createSession E depth out args w))"
proof -
  have new: "acts E depth w w'"
    if "ad_runtime w' = setHandle (ad_handles w) (\<lambda>k. \<lparr>sh_session = True, sh_transport = None\<rparr>) (ad_runtime w)"
      "ad_handles w' = ad_handles w + 1" for w'
    using that assms by (intro acts_step [where ev = "CreateSession (ad_handles w)"]) (simp_all add: unused_def setHandle_def)
  show ?thesis
    unfolding createSession_def Let_def by (intro acts_attempt acts_if) (simp_all add: acts_none new)
qed

text \<open>The operations on an attached transport.\<close>

lemma native_acts:
  assumes "orderly (ad_runtime w)" "transportOf h w = Some i" "sh_session (rt_handles (ad_runtime w) h)"
  shows "acts E depth w (snd (onNative i (activate E (upcallsAt E depth)) w))"
    "acts E depth w (snd (onNative i (\<lambda>t. ((), terminate (upcallsAt E depth) t)) w))"
    "nt_active (rt_transports (ad_runtime w) i) \<Longrightarrow> acts E depth w (snd (onNative i (feed E (upcallsAt E depth) dat) w))"
    "nt_active (rt_transports (ad_runtime w) i) \<Longrightarrow>
      acts E depth w (snd (onNative i (\<lambda>t. answering callback (writeMessage E (upcallsAt E depth) v opc compress callback t)) w))"
    "nt_active (rt_transports (ad_runtime w) i) \<Longrightarrow>
      acts E depth w (snd (onNative i (\<lambda>t. answering callback (writeFrameList E (upcallsAt E depth) vs callback t)) w))"
    "nt_active (rt_transports (ad_runtime w) i) \<Longrightarrow>
      acts E depth w (snd (onNative i (\<lambda>t. answering callback (writeFrame E (upcallsAt E depth) v callback t)) w))"
    "nt_active (rt_transports (ad_runtime w) i) \<Longrightarrow>
      acts E depth w (snd (onNative i (writeClose E (upcallsAt E depth) code reason) w))"
proof -
  note t = transport_facts(2,3) [OF assms(1,2)]
  note run = onNative_acts [OF assms]
  show "acts E depth w (snd (onNative i (activate E (upcallsAt E depth)) w))"
    by (rule run [where s = Activate]) (simp_all add: takeStep_def t)
  show "acts E depth w (snd (onNative i (\<lambda>t. ((), terminate (upcallsAt E depth) t)) w))"
    by (rule run [where s = "Act Terminate"]) (simp_all add: takeStep_def perform_def t)
  assume a: "nt_active (rt_transports (ad_runtime w) i)"
  show "acts E depth w (snd (onNative i (feed E (upcallsAt E depth) dat) w))"
    by (rule run [where s = "Feed dat"]) (simp_all add: takeStep_def t a)
  show "acts E depth w (snd (onNative i (\<lambda>t. answering callback (writeMessage E (upcallsAt E depth) v opc compress callback t)) w))"
    by (rule run [where s = "Act (WriteMessage v opc compress callback)"]) (simp_all add: takeStep_def perform_def t a)
  show "acts E depth w (snd (onNative i (\<lambda>t. answering callback (writeFrameList E (upcallsAt E depth) vs callback t)) w))"
    by (rule run [where s = "Act (WriteFrameList vs callback)"]) (simp_all add: takeStep_def perform_def t a)
  show "acts E depth w (snd (onNative i (\<lambda>t. answering callback (writeFrame E (upcallsAt E depth) v callback t)) w))"
    by (rule run [where s = "Act (WriteFrame v callback)"]) (simp_all add: takeStep_def perform_def t a)
  show "acts E depth w (snd (onNative i (writeClose E (upcallsAt E depth) code reason) w))"
    by (rule run [where s = "Act (WriteClose code reason)"]) (simp_all add: takeStep_def perform_def t a)
qed

lemma transport_functions_act:
  assumes "orderly (ad_runtime w)"
  shows "acts E depth w (snd (attachNative E depth out args w))"
    "acts E depth w (snd (activateTransport E depth out args w))"
    "acts E depth w (snd (terminateTransport E depth out args w))"
    "acts E depth w (snd (transportBufferedAmount E depth out args w))"
proof -
  note run = native_acts [OF assms]
  show "acts E depth w (snd (attachNative E depth out args w))"
    unfolding attachNative_def Let_def
  proof (intro acts_attempt acts_if)
    fix as h textAsBuffer encrypted and limit :: "32 word"
    assume h: "getSession (as ! 0) w = Inr h" and free: "\<not> transportOf h w \<noteq> None"
    let ?R = "storeTransport h (attachTransport h (os_granted out)
        (newNativeTransport encrypted (sessionOf h w) textAsBuffer (unat limit) (os_bio out) (os_io out) (os_reactions out))
        (ad_runtime w))"
    show "acts E depth w (snd (Inr (Boolean (sh_transport (rt_handles ?R h) \<noteq> None)) :: exception + jsResult, w\<lparr>ad_runtime := ?R\<rparr>))"
      by (rule acts_step [where ev = "AttachTransport h (os_granted out) encrypted (sessionOf h w) textAsBuffer (unat limit)
          (os_bio out) (os_io out) (os_reactions out)"]) (use h free in \<open>simp_all add: getSession_Inr transportOf_def\<close>)
  qed (simp_all add: acts_none)
  show "acts E depth w (snd (activateTransport E depth out args w))"
    unfolding activateTransport_def by (intro acts_attempt) (simp add: getSession_Inr split_beta run)
  show "acts E depth w (snd (terminateTransport E depth out args w))"
    unfolding terminateTransport_def
    by (intro acts_attempt) (simp add: getSession_Inr acts_none run split: option.split)
  show "acts E depth w (snd (transportBufferedAmount E depth out args w))"
    unfolding transportBufferedAmount_def
  proof (intro acts_attempt)
    fix as h
    show "acts E depth w (snd (case transportOf h w of None \<Rightarrow> (Inr (Number 0) :: exception + jsResult, w)
      | Some i \<Rightarrow> (let (amount, w) = onNative i (\<lambda>t. (bufferedAmount t, t)) w in (Inr (Number (int amount)), w))))"
    proof (cases "transportOf h w")
      case (Some i)
      note t = transport_facts [OF assms Some]
      have "ad_runtime (snd (onNative i (\<lambda>t. (bufferedAmount t, t)) w)) = ad_runtime w"
        using t by (simp add: onNative_def becomes_def Let_def)
      with Some show ?thesis by (simp add: split_beta acts_none)
    qed (simp add: acts_none)
  qed
qed

lemma writing_functions_act:
  assumes "orderly (ad_runtime w)" "proper name args w"
  shows "name = ''feedTransport'' \<Longrightarrow> acts E depth w (snd (feedTransport E depth out args w))"
    "name = ''writeTransportMessage'' \<Longrightarrow> acts E depth w (snd (writeTransportMessage E depth out args w))"
    "name = ''writeTransportFrames'' \<Longrightarrow> acts E depth w (snd (writeTransportFrames E depth out args w))"
    "name = ''writeTransportFrame'' \<Longrightarrow> acts E depth w (snd (writeTransportFrame E depth out args w))"
    "name = ''writeTransportClose'' \<Longrightarrow> acts E depth w (snd (writeTransportClose E depth out args w))"
proof -
  note run = native_acts [OF assms(1)]
  have active: "nt_active (rt_transports (ad_runtime w) i)"
    if "name \<in> writers"
      "getArguments capacity minimum args = Inr as \<or> getFixedArguments capacity minimum args = Inr (as, n)" "capacity \<noteq> 0"
      "getSession (as ! 0) w = Inr h" "attached h w = Inr i" for capacity minimum as n h i
  proof -
    have first: "as ! 0 = JsSession h" using that(4) by (simp add: getSession_Inr)
    from that(2) have "\<exists>rest. args = JsSession h # rest"
    proof
      assume "getArguments capacity minimum args = Inr as"
      from getArguments_first [OF this that(3) first] show ?thesis .
    next
      assume "getFixedArguments capacity minimum args = Inr (as, n)"
      from getFixedArguments_first [OF this that(3) first] show ?thesis .
    qed
    then obtain rest where "args = JsSession h # rest" ..
    with assms(2) that(1) that(5) [unfolded attached_Inr] show ?thesis by (simp add: proper_def)
  qed
  show "acts E depth w (snd (feedTransport E depth out args w))" if n: "name = ''feedTransport''"
    unfolding feedTransport_def
  proof (intro acts_attempt, goal_cases)
    case (1 as h input i)
    then have "nt_active (rt_transports (ad_runtime w) i)" using active [of 2 0 as 0 h i] n by (simp add: writers_def)
    with 1 run(3) [of h i] show ?case by (simp add: getSession_Inr split_beta)
  qed
  show "acts E depth w (snd (writeTransportMessage E depth out args w))" if n: "name = ''writeTransportMessage''"
    unfolding writeTransportMessage_def split_beta Let_def
  proof (intro acts_attempt, goal_cases)
    case (1 as h opc compress i)
    then have "nt_active (rt_transports (ad_runtime w) i)" using active [of 5 4 "fst as" "snd as" h i] n by (simp add: writers_def)
    with 1 run(4) [of h i] show ?case by (simp add: getSession_Inr)
  qed
  show "acts E depth w (snd (writeTransportFrames E depth out args w))" if n: "name = ''writeTransportFrames''"
    unfolding writeTransportFrames_def split_beta Let_def
  proof (intro acts_attempt, goal_cases)
    case (1 as h i)
    then have "nt_active (rt_transports (ad_runtime w) i)" using active [of 3 2 "fst as" "snd as" h i] n by (simp add: writers_def)
    with 1 run(5) [of h i] show ?case by (simp add: getSession_Inr)
  qed
  show "acts E depth w (snd (writeTransportFrame E depth out args w))" if n: "name = ''writeTransportFrame''"
    unfolding writeTransportFrame_def split_beta Let_def
  proof (intro acts_attempt, goal_cases)
    case (1 as h i)
    then have "nt_active (rt_transports (ad_runtime w) i)" using active [of 3 2 "fst as" "snd as" h i] n by (simp add: writers_def)
    with 1 run(6) [of h i] show ?case by (simp add: getSession_Inr)
  qed
  show "acts E depth w (snd (writeTransportClose E depth out args w))" if n: "name = ''writeTransportClose''"
    unfolding writeTransportClose_def split_beta Let_def
  proof (intro acts_attempt, goal_cases)
    case (1 as h code reason i)
    then have "nt_active (rt_transports (ad_runtime w) i)" using active [of 3 0 as 0 h i] n by (simp add: writers_def)
    with 1 run(7) [of h i] show ?case by (simp add: getSession_Inr)
  qed
qed

text \<open>Only \<open>createSession\<close> gives a handle a session.\<close>

lemma links_handles [simp]:
  "rt_handles (setLinks i g R) = rt_handles R" "rt_handles (faulty R) = rt_handles R"
  "rt_handles (unlinkEnvironment i R) = rt_handles R" "rt_handles (linkEnvironment i R) = rt_handles R"
  "rt_handles (completeNativeEnvironmentCleanup b R) = rt_handles R" "rt_handles (finishEnvironmentCleanup i R) = rt_handles R"
proof -
  show s: "rt_handles (setLinks i g R) = rt_handles R" "rt_handles (faulty R) = rt_handles R" for i g and R :: "'a runtime"
    by (simp_all add: setLinks_def faulty_def)
  show u: "rt_handles (unlinkEnvironment i R) = rt_handles R" "rt_handles (linkEnvironment i R) = rt_handles R"
    "rt_handles (completeNativeEnvironmentCleanup b R) = rt_handles R" for i b and R :: "'a runtime"
    by (simp_all add: unlinkEnvironment_def linkEnvironment_def completeNativeEnvironmentCleanup_def Let_def s split: option.split)
  show "rt_handles (finishEnvironmentCleanup i R) = rt_handles R"
    by (simp add: finishEnvironmentCleanup_def Let_def s u)
qed

lemma unused_setHandle: "unused R k \<Longrightarrow> k \<noteq> h \<or> g (rt_handles R k) = rt_handles R k \<Longrightarrow> unused (setHandle h g R) k"
  by (auto simp: unused_def setHandle_def)

lemma unused_cong: "rt_handles R' = rt_handles R \<Longrightarrow> unused R' k = unused R k"
  by (simp add: unused_def)

lemma unused_links [simp]:
  "unused (setLinks i g R) k = unused R k" "unused (faulty R) k = unused R k" "unused (unlinkEnvironment i R) k = unused R k"
  "unused (completeNativeEnvironmentCleanup b R) k = unused R k" "unused (finishEnvironmentCleanup i R) k = unused R k"
  "unused (R\<lparr>rt_transports := ts\<rparr>) k = unused R k"
  by (simp_all add: unused_def)

lemma unused_forget: "unused R k \<Longrightarrow> unused (forget i R) k"
  by (auto simp: forget_def unused_def setHandle_def split: option.split)

lemma unused_becomes: "unused R k \<Longrightarrow> unused (becomes i t R) k"
  by (simp add: becomes_def Let_def unused_forget)

lemma unused_clearStorage: "unused R k \<Longrightarrow> unused (clearStorage i R) k"
  by (auto simp: clearStorage_def unused_def setHandle_def Let_def split: option.split)

lemma unused_cleanupLoop: "unused R k \<Longrightarrow> unused (cleanupLoop E depth fuel p R) k"
  by (induction fuel arbitrary: p R)
    (simp_all add: beginCleanup_def runTransport_def unused_becomes unused_clearStorage split: option.split)

lemma unused_dispose: "unused R k \<Longrightarrow> unused (dispose E depth h R) k"
  by (auto simp: dispose_def runTransport_def unused_def [of R] split: option.split
    intro!: unused_becomes unused_setHandle [unfolded unused_def [of R]])

lemma unused_envStep:
  assumes "unused R k" "ev \<noteq> CreateSession k"
  shows "unused (envStep E depth ev R) k"
proof (cases ev)
  case (CreateSession h)
  with assms show ?thesis by (simp add: unused_setHandle)
next
  case (AttachTransport h granted ssl session textAsBuffer maxBackpressure bio io reactions)
  then show ?thesis using assms(1)
    by (auto simp: storeTransport_def attachTransport_def newTransport_def unused_def setHandle_def Let_def split: option.split)
next
  case (FromJs h s)
  with assms(1) show ?thesis by (simp add: onTransport_def runTransport_def unused_becomes split: option.split)
next
  case (FromLoop i s)
  with assms(1) show ?thesis by (simp add: onTransport_def runTransport_def unused_becomes)
next
  case (UseSession h x)
  with assms(1) show ?thesis by (simp add: useSession_def split: option.split)
next
  case (Dispose h)
  with assms(1) show ?thesis by (simp add: unused_dispose)
next
  case CleanupHook
  have "unused (R\<lparr>rt_environment := e, rt_known := False\<rparr>) k" for e using assms(1) by (simp add: unused_def)
  with assms(1) CleanupHook show ?thesis
    by (simp add: cleanupNativeEnvironment_def Let_def unused_cleanupLoop split: option.split)
qed

section \<open>Turns of the event loop\<close>

definition addon_ok :: "'z addon \<Rightarrow> bool" where
  "addon_ok w \<longleftrightarrow> orderly (ad_runtime w) \<and> (\<forall>h. ad_handles w \<le> h \<longrightarrow> unused (ad_runtime w) h)"

lemma acts_ok:
  assumes "acts E depth w w'" "addon_ok w"
  shows "addon_ok w'"
proof -
  obtain es where es: "length es \<le> 1" "ad_runtime w' = envRun E depth es (ad_runtime w)"
      "\<forall>h. CreateSession h \<in> set es \<longrightarrow> ad_handles w \<le> h \<and> h < ad_handles w'" "ad_handles w \<le> ad_handles w'"
    using assms(1) by (auto simp: acts_def)
  have "unused (ad_runtime w') h" if "ad_handles w' \<le> h" for h
  proof (cases es)
    case Nil
    with es that assms(2) show ?thesis by (simp add: addon_ok_def envRun_def)
  next
    case (Cons ev rest)
    with es(1) have "es = [ev]" by simp
    with es that assms(2) show ?thesis by (simp add: addon_ok_def envRun_def) (rule unused_envStep; auto)
  qed
  with es assms(2) show ?thesis by (simp add: addon_ok_def envRun_orderly)
qed

lemma call_acts:
  assumes "addon_ok w" "proper name args w" "map_of properties name = Some f"
  shows "acts E depth w (snd (f E depth out args w))"
proof -
  have o: "orderly (ad_runtime w)" and u: "unused (ad_runtime w) (ad_handles w)" using assms(1) by (simp_all add: addon_ok_def)
  note all = session_functions_act createSession_acts [OF u] transport_functions_act [OF o] writing_functions_act [OF o assms(2)]
  show ?thesis using properties_cases [OF assms(3)] unfolding properties_def list.set insert_iff empty_iff prod.inject
    by (elim disjE conjE FalseE) (simp_all add: all)
qed

lemma takeTurn_acts:
  assumes "addon_ok w"
  shows "acts E depth w (takeTurn E depth x w)"
proof (cases x)
  case (Call name out args)
  then show ?thesis using assms by (auto simp: acts_none split: option.split intro!: call_acts)
next
  case (Collect h)
  then show ?thesis
    by (auto simp: acts_none finalizeSession_def intro!: acts_step [where ev = "Dispose h"])
next
  case (Event i s)
  then show ?thesis by (intro acts_step [where ev = "FromLoop i s"]) simp_all
next
  case Exit
  then show ?thesis by (intro acts_step [where ev = CleanupHook]) simp_all
qed

lemma turns_acts:
  assumes "addon_ok w"
  shows "\<exists>es. length es \<le> length ts \<and> ad_runtime (turns E depth ts w) = envRun E depth es (ad_runtime w)"
  using assms
proof (induction ts arbitrary: w)
  case Nil
  then show ?case by (simp add: turns_def envRun_def)
next
  case (Cons x ts)
  note a = takeTurn_acts [OF Cons.prems, of E depth x]
  from a obtain es where es: "length es \<le> 1" "ad_runtime (takeTurn E depth x w) = envRun E depth es (ad_runtime w)"
    by (auto simp: acts_def)
  from Cons.IH [OF acts_ok [OF a Cons.prems]] obtain later where
    later: "length later \<le> length ts" "ad_runtime (turns E depth ts (takeTurn E depth x w)) = envRun E depth later (ad_runtime (takeTurn E depth x w))"
    by blast
  have "ad_runtime (turns E depth (x # ts) w) = envRun E depth (es @ later) (ad_runtime w)"
    using es(2) later(2) by (simp add: turns_def envRun_def)
  moreover have "length (es @ later) \<le> length (x # ts)" using es(1) later(1) by simp
  ultimately show ?case by blast
qed

definition loadedAddon :: "(nat \<Rightarrow> 'z NativeTransport) \<Rightarrow> (nat \<Rightarrow> 'z Session) \<Rightarrow> 'z addon" where
  "loadedAddon ts xs = snd (initialize (22, 0, 0) (Some (22, 0, 0)) True (freshAddon ts xs))"

lemma loadedAddon_runtime [simp]: "ad_runtime (loadedAddon ts xs) = loaded ts"
  by (simp add: loadedAddon_def initialize_def freshAddon_def loaded_def initializeNativeEnvironment_def unloaded_def)

lemma loadedAddon_ok: "addon_ok (loadedAddon ts xs)"
  by (simp add: addon_ok_def loaded_orderly)
    (simp add: unused_def loaded_def initializeNativeEnvironment_def unloaded_def)

section \<open>The types of the results\<close>

definition isBuffer :: "nat \<Rightarrow> jsResult \<Rightarrow> bool" where
  "isBuffer n v =
     (case v of
        CopiedBuffer dat \<Rightarrow> True
      | ExternalBuffer dat \<Rightarrow> True
      | BufferView start end_ \<Rightarrow> start \<le> end_ \<and> end_ \<le> n
      | _ \<Rightarrow> False)"

definition isEvent :: "nat \<Rightarrow> bool \<Rightarrow> jsResult \<Rightarrow> bool" where
  "isEvent n textAsBuffer v =
     (case v of
        Array (Number kind # rest) \<Rightarrow>
          if kind = 0 then
            (case rest of
               [x, Boolean binary] \<Rightarrow>
                 if binary \<or> textAsBuffer then isBuffer n x else (case x of Text t \<Rightarrow> True | _ \<Rightarrow> False)
             | _ \<Rightarrow> False)
          else if kind = 1 then (case rest of [x] \<Rightarrow> isBuffer 0 x | _ \<Rightarrow> False)
          else if kind = 2 then (case rest of [Number code, Text reason] \<Rightarrow> 0 \<le> code | _ \<Rightarrow> False)
          else False
      | _ \<Rightarrow> False)"

definition inputLength :: "napi_value list \<Rightarrow> nat" where
  "inputLength args = (case getInput (args ! 1) of Inl e \<Rightarrow> 0 | Inr input \<Rightarrow> length (ni_data input))"

definition hasType :: "string \<Rightarrow> napi_value list \<Rightarrow> jsResult \<Rightarrow> bool" where
  "hasType name args v =
     (if name = ''createCompressionContext'' then (case v of ContextObject k \<Rightarrow> True | _ \<Rightarrow> False)
      else if name = ''createSession'' then (case v of Array [SessionObject h, Text response] \<Rightarrow> True | _ \<Rightarrow> False)
      else if name = ''consume''
      then (case v of
              Array items \<Rightarrow> list_all (isEvent (inputLength args) (length args = 3 \<and> args ! 2 = JsBoolean True)) items
            | _ \<Rightarrow> False)
      else if name = ''frame'' then isBuffer 0 v
      else if name = ''closeFrame'' then v = Null \<or> isBuffer 0 v
      else if name = ''attachTransport'' \<or> name = ''feedTransport'' then (case v of Boolean b \<Rightarrow> True | _ \<Rightarrow> False)
      else if name = ''terminateTransport'' \<or> name = ''dispose'' then v = Undefined
      else if name = ''transportBufferedAmount'' then (case v of Number n \<Rightarrow> 0 \<le> n | _ \<Rightarrow> False)
      else (case v of Status st \<Rightarrow> True | _ \<Rightarrow> False))"

lemma isBuffer_external [simp]: "isBuffer n (createExternalBuffer dat)"
  by (simp add: createExternalBuffer_def isBuffer_def)

text \<open>The bounds of a view fit in 32 bits: a longer input is refused and delivers no message.\<close>

lemma long_input:
  assumes "sw_consume cpu Z dat 0 (length dat) y = (x, buffer)" "e \<in> set (events (sock x))" "ev_type e = MESSAGE"
  shows "length dat < 2 ^ 32"
proof (rule ccontr)
  assume "\<not> length dat < 2 ^ 32"
  then have "length dat > UINT_MAX" by (simp add: UINT_MAX_def)
  with assms(1) have "events (sock x) = [] \<or> x = (releaseEvents y)\<lparr>sock := failWith cpu 1009 ((sock (releaseEvents y))\<lparr>failureCode := 1002\<rparr>)\<rparr>"
    by (auto simp: sw_consume_def Let_def releaseEvents_def split: if_splits)
  with assms(2,3) show False
    by (auto simp: releaseEvents_def failWith_def fail_def emitFrame_def emitClose_def Let_def split: if_splits)
qed

lemma isBuffer_view:
  assumes "length (ni_data input) < 2 ^ 32"
  shows "isBuffer (length (ni_data input)) (createBufferView input e)"
proof (cases "view e")
  case (Some v)
  obtain reg p bytes where v: "v = ((reg, p), bytes)" by (cases v) auto
  show ?thesis using assms by (cases reg) (auto simp: isBuffer_def createBufferView_def Some v)
qed (simp add: isBuffer_def createBufferView_def)

lemma isEvent_item:
  assumes "ev_type e = MESSAGE \<Longrightarrow> length (ni_data input) < 2 ^ 32"
  shows "isEvent (length (ni_data input)) textAsBuffer (eventItem textAsBuffer input e)"
proof (cases "ev_type e")
  case MESSAGE
  with isBuffer_view [OF assms] show ?thesis by (auto simp: isEvent_def eventItem_def)
qed (simp_all add: isEvent_def eventItem_def)

lemma consume_typed:
  assumes "consumeBuffer E depth out args w = (Inr v, w')"
  shows "hasType ''consume'' args v"
proof -
  from assms obtain as h input textAsBuffer x buffer where
    as: "getArguments 3 2 args = Inr as" and input: "getInput (as ! 1) = Inr input"
    and tb: "(if length as = 3 then getBoolean (as ! 2) else Inr False) = Inr textAsBuffer"
    and x: "sw_consume (cpuOf E) (zlibOf E) (ni_data input) 0 (length (ni_data input)) (sessionOf h w) = (x, buffer)"
    and v: "v = Array (map (eventItem textAsBuffer input) (events (sock x)))"
    unfolding consumeBuffer_def by (auto elim!: attemptE split: prod.splits)
  have n: "as ! 1 = args ! 1" "length as = length args" "length args = 3 \<Longrightarrow> as ! 2 = args ! 2"
    using as by (auto simp: getArguments_def Let_def nth_append split: if_splits)
  have b: "textAsBuffer = (length args = 3 \<and> args ! 2 = JsBoolean True)"
    using tb n by (cases "args ! 2") (auto split: if_splits)
  have "isEvent (length (ni_data input)) textAsBuffer (eventItem textAsBuffer input e)" if "e \<in> set (events (sock x))" for e
    using long_input [OF x that] by (intro isEvent_item)
  then show ?thesis using input n(1) by (simp add: hasType_def v list_all_iff inputLength_def b)
qed

lemma others_typed:
  "createCompressionContext E depth out args w = (Inr v, w') \<Longrightarrow> hasType ''createCompressionContext'' args v"
  "createSession E depth out args w = (Inr v, w') \<Longrightarrow> hasType ''createSession'' args v"
  "frame E depth out args w = (Inr v, w') \<Longrightarrow> hasType ''frame'' args v"
  "closeFrame E depth out args w = (Inr v, w') \<Longrightarrow> hasType ''closeFrame'' args v"
  "attachNative E depth out args w = (Inr v, w') \<Longrightarrow> hasType ''attachTransport'' args v"
  "activateTransport E depth out args w = (Inr v, w') \<Longrightarrow> hasType ''activateTransport'' args v"
  "terminateTransport E depth out args w = (Inr v, w') \<Longrightarrow> hasType ''terminateTransport'' args v"
  "feedTransport E depth out args w = (Inr v, w') \<Longrightarrow> hasType ''feedTransport'' args v"
  "writeTransportMessage E depth out args w = (Inr v, w') \<Longrightarrow> hasType ''writeTransportMessage'' args v"
  "writeTransportFrame E depth out args w = (Inr v, w') \<Longrightarrow> hasType ''writeTransportFrame'' args v"
  "writeTransportFrames E depth out args w = (Inr v, w') \<Longrightarrow> hasType ''writeTransportFrames'' args v"
  "writeTransportClose E depth out args w = (Inr v, w') \<Longrightarrow> hasType ''writeTransportClose'' args v"
  "transportBufferedAmount E depth out args w = (Inr v, w') \<Longrightarrow> hasType ''transportBufferedAmount'' args v"
  "disposeSession E depth out args w = (Inr v, w') \<Longrightarrow> hasType ''dispose'' args v"
  unfolding createCompressionContext_def createSession_def frame_def closeFrame_def attachNative_def activateTransport_def
    terminateTransport_def feedTransport_def writeTransportMessage_def writeTransportFrame_def writeTransportFrames_def
    writeTransportClose_def transportBufferedAmount_def disposeSession_def Let_def
  by (auto elim!: attemptE simp: hasType_def split: if_splits option.splits prod.splits)

section \<open>Disposed handles\<close>

lemma takeTurn_unused:
  assumes "addon_ok w" "unused (ad_runtime w) h" "h < ad_handles w"
  shows "unused (ad_runtime (takeTurn E depth x w)) h \<and> h < ad_handles (takeTurn E depth x w)"
proof -
  obtain es where es: "length es \<le> 1" "ad_runtime (takeTurn E depth x w) = envRun E depth es (ad_runtime w)"
      "\<forall>k. CreateSession k \<in> set es \<longrightarrow> ad_handles w \<le> k" "ad_handles w \<le> ad_handles (takeTurn E depth x w)"
    using takeTurn_acts [OF assms(1), of E depth x] by (auto simp: acts_def)
  have "unused (envRun E depth es (ad_runtime w)) h"
  proof (cases es)
    case (Cons ev rest)
    with es(1) have "es = [ev]" by simp
    with es(3) assms(2,3) show ?thesis by (simp add: envRun_def) (rule unused_envStep; auto)
  qed (use assms(2) in \<open>simp add: envRun_def\<close>)
  with es(2,4) assms(3) show ?thesis by simp
qed

lemma turns_unused:
  "addon_ok w \<Longrightarrow> unused (ad_runtime w) h \<Longrightarrow> h < ad_handles w \<Longrightarrow> unused (ad_runtime (turns E depth ts w)) h"
proof (induction ts arbitrary: w)
  case (Cons x ts)
  from acts_ok [OF takeTurn_acts [OF Cons.prems(1)] Cons.prems(1), of E depth x]
  have "addon_ok (takeTurn E depth x w)" .
  with Cons.IH [of "takeTurn E depth x w"] takeTurn_unused [OF Cons.prems, of E depth x] show ?case by (simp add: turns_def)
qed (simp add: turns_def)

lemma turns_ok: "addon_ok w \<Longrightarrow> addon_ok (turns E depth ts w)"
proof (induction ts arbitrary: w)
  case (Cons x ts)
  from acts_ok [OF takeTurn_acts [OF Cons.prems] Cons.prems, of E depth x] Cons.IH [of "takeTurn E depth x w"] show ?case
    by (simp add: turns_def)
qed (simp add: turns_def)

lemma dispose_unused:
  assumes "orderly R"
  shows "unused (dispose E depth h R) h"
proof (cases "sh_transport (rt_handles R h)")
  case None
  then show ?thesis by (simp add: dispose_def unused_def setHandle_def)
next
  case (Some i)
  have "unused (setLinks i (\<lambda>l. l\<lparr>en_storage := None\<rparr>) (setHandle h (\<lambda>k. k\<lparr>sh_transport := None, sh_session := False\<rparr>) R)) h"
    by (simp add: unused_def setHandle_def)
  with orderly_handles(1) [OF assms Some] Some show ?thesis by (simp add: dispose_def runTransport_def unused_becomes)
qed

text \<open>A function of the module refuses a handle without a session, and leaves everything as it is.\<close>

definition refuses :: "'z addon \<Rightarrow> (exception + jsResult) \<times> 'z addon \<Rightarrow> bool" where
  "refuses w result \<longleftrightarrow> snd result = w \<and> (case fst result of Inl e \<Rightarrow> True | Inr v \<Rightarrow> False)"

lemma refuses_attempt: "(\<And>x. r = Inr x \<Longrightarrow> refuses w (f x w)) \<Longrightarrow> refuses w (attempt r f w)"
  by (cases r) (simp_all add: refuses_def)

lemma first_argument:
  "getArguments capacity minimum (v # rest) = Inr as \<Longrightarrow> capacity \<noteq> 0 \<Longrightarrow> as ! 0 = v"
  "getFixedArguments capacity minimum (v # rest) = Inr pair \<Longrightarrow> capacity \<noteq> 0 \<Longrightarrow> fst pair ! 0 = v"
  by (auto simp: getArguments_def getFixedArguments_def Let_def nth_append split: if_splits)

lemma getSession_unused:
  assumes "unused (ad_runtime w) h"
  shows "getSession (JsSession h) w = Inl (JsError ''WebSocket session is closed'')"
  using assms by (simp add: getSession_def hasSessionTag_def unused_def)

lemma session_functions_refuse:
  assumes "unused (ad_runtime w) h"
  shows "refuses w (consumeBuffer E depth out (JsSession h # rest) w)" "refuses w (frame E depth out (JsSession h # rest) w)"
    "refuses w (closeFrame E depth out (JsSession h # rest) w)" "refuses w (attachNative E depth out (JsSession h # rest) w)"
    "refuses w (activateTransport E depth out (JsSession h # rest) w)" "refuses w (terminateTransport E depth out (JsSession h # rest) w)"
    "refuses w (feedTransport E depth out (JsSession h # rest) w)" "refuses w (writeTransportMessage E depth out (JsSession h # rest) w)"
    "refuses w (writeTransportFrame E depth out (JsSession h # rest) w)" "refuses w (writeTransportFrames E depth out (JsSession h # rest) w)"
    "refuses w (writeTransportClose E depth out (JsSession h # rest) w)"
    "refuses w (transportBufferedAmount E depth out (JsSession h # rest) w)"
  unfolding consumeBuffer_def frame_def closeFrame_def attachNative_def activateTransport_def terminateTransport_def
    feedTransport_def writeTransportMessage_def writeTransportFrame_def writeTransportFrames_def writeTransportClose_def
    transportBufferedAmount_def split_beta
  by (rule refuses_attempt, drule first_argument, simp, simp add: getSession_unused [OF assms], simp add: refuses_def)+

section \<open>What a session announces\<close>

lemma charsOf_bytesOf [simp]: "charsOf (bytesOf s) = s"
proof -
  have "char_of (unat (of_nat (of_char c) :: byte)) = c" for c
    using char_of_mod_256 [of "of_char c :: nat"] by (simp add: unat_of_nat)
  then show ?thesis by (simp add: charsOf_def bytesOf_def map_idI)
qed

lemma createSession_result:
  assumes "createSession E depth out args w = (Inr v, w')"
  obtains wanted limit offer ctx neg where
    "neg = readOffer (newNegotiator wanted) offer"
    "v = Array [SessionObject (ad_handles w), Text (bytesOf (generateOffer neg))]"
    "ad_sessions w' (ad_handles w) = newSession (zlibOf E) (opts neg) (serverMaxWindowBits neg) limit ctx (os_mask out) (os_header out)"
    "has_option (opts neg) PERMESSAGE_DEFLATE \<longrightarrow> ctx \<noteq> None"
    "rt_handles (ad_runtime w') (ad_handles w) = \<lparr>sh_session = True, sh_transport = None\<rparr>"
  using assms unfolding createSession_def
  by (auto elim!: attemptE simp: Let_def getNegotiatedOptions_def getServerMaxWindowBits_def setHandle_def split: if_splits)

section \<open>Properties\<close>

text \<open>
  C6: the module refines the environment: for every sequence of turns, each of them a call of an exported function
  with arbitrary arguments (feeding and writing to active transports only), a collection, an event of the loop or
  the end of the environment, with callbacks that act on their own connection only, each turn is at most one event
  of the environment. So no freed transport is touched, and every handle of a transport leads to a live one. Calls
  that a callback makes on other handles while its turn runs are outside the statement.
\<close>

theorem addon_refines_environment:
  "let w = turns E depth ts (loadedAddon fresh sessions)
   in (\<exists>es. length es \<le> length ts \<and> ad_runtime w = envRun E depth es (loaded fresh)) \<and>
      \<not> rt_fault (ad_runtime w) \<and> {i. \<exists>h. transportOf h w = Some i} \<subseteq> {i. alive (ad_runtime w) i}"
proof -
  define w where "w = turns E depth ts (loadedAddon fresh sessions)"
  obtain es where es: "length es \<le> length ts" "ad_runtime w = envRun E depth es (loaded fresh)"
    using turns_acts [OF loadedAddon_ok, of ts E depth fresh sessions] by (auto simp: w_def)
  then have o: "orderly (ad_runtime w)" by (simp add: envRun_orderly [OF loaded_orderly])
  then have "\<not> rt_fault (ad_runtime w)" by (auto simp: orderly_def linked_def rested_def)
  with es transport_facts(1) [OF o] show ?thesis unfolding w_def [symmetric] Let_def by blast
qed

text \<open>
  C24: what a function of the module returns has the type its callers expect; in the event list of \<open>consume\<close>, binary
  messages, and text messages when asked, are buffers and others strings, and views lie within the input.
\<close>

theorem results_typed:
  assumes "map_of properties name = Some f" "f E depth out args w = (Inr v, w')"
  shows "hasType name args v"
  using properties_cases [OF assms(1)] assms(2)
  unfolding properties_def list.set insert_iff empty_iff prod.inject
  by (elim disjE conjE FalseE) (simp_all only: consume_typed others_typed)

text \<open>
  C12: what \<open>createSession\<close> answers to the client is what the new session does: without compression it answers nothing,
  else one \<open>permessage-deflate\<close> offer that names exactly the takeover flags and the window of the session,
  15 bits if it names none, and a compression context is there.
\<close>

theorem createSession_announces:
  assumes "createSession E depth out args w = (Inr v, w')"
  shows "\<exists>response. v = Array [SessionObject (ad_handles w), Text response] \<and>
    (let s = sock (sessionOf (ad_handles w) w')
     in if compressionStatus s = DISABLED then response = []
        else \<exists>named. parse (charsOf response) = Some [answer \<lparr>opts = extensionOptions s, serverMaxWindowBits = windowBits s,
                serverMaxWindowBitsNegotiated = named\<rparr>] \<and>
          (named \<or> windowBits s = 15) \<and> 9 \<le> windowBits s \<and> windowBits s \<le> 15 \<and> sharedCompressionContext s \<noteq> None)"
proof -
  obtain wanted limit offer ctx neg where r: "neg = readOffer (newNegotiator wanted) offer"
      "v = Array [SessionObject (ad_handles w), Text (bytesOf (generateOffer neg))]"
      "ad_sessions w' (ad_handles w) = newSession (zlibOf E) (opts neg) (serverMaxWindowBits neg) limit ctx (os_mask out) (os_header out)"
      "has_option (opts neg) PERMESSAGE_DEFLATE \<longrightarrow> ctx \<noteq> None"
      "rt_handles (ad_runtime w') (ad_handles w) = \<lparr>sh_session = True, sh_transport = None\<rparr>"
    by (rule createSession_result [OF assms])
  have ok: "window_ok neg" unfolding r(1) by (simp add: readOffer_window_ok window_ok_new)
  define s where "s = sock (sessionOf (ad_handles w) w')"
  have s: "s = newStreamWebSocket (zlibOf E) (opts neg) (serverMaxWindowBits neg) limit ctx"
    using r(3,5) by (simp add: s_def sessionOf_def transportOf_def newSession_def)
  have f: "extensionOptions s = opts neg" "windowBits s = serverMaxWindowBits neg"
    "compressionStatus s = DISABLED \<longleftrightarrow> \<not> has_option (opts neg) PERMESSAGE_DEFLATE"
    "compressionStatus s = DISABLED \<or> sharedCompressionContext s \<noteq> None"
    using r(4) by (auto simp: s newStreamWebSocket_def Let_def)
  show ?thesis unfolding s_def [symmetric] Let_def
  proof (intro exI [of _ "bytesOf (generateOffer neg)"] conjI)
    show "v = Array [SessionObject (ad_handles w), Text (bytesOf (generateOffer neg))]" by (rule r(2))
    have same: "\<lparr>opts = extensionOptions s, serverMaxWindowBits = windowBits s,
        serverMaxWindowBitsNegotiated = serverMaxWindowBitsNegotiated neg\<rparr> = neg"
      using f by simp
    have none: "generateOffer neg = []" if "compressionStatus s = DISABLED" using that f(3) by (simp add: generateOffer_def)
    have some: "parse (generateOffer neg) = Some [answer neg]" if "compressionStatus s \<noteq> DISABLED"
      using that f(3) parse_generateOffer [OF ok] by simp
    show "if compressionStatus s = DISABLED then bytesOf (generateOffer neg) = []
        else \<exists>named. parse (charsOf (bytesOf (generateOffer neg))) = Some [answer \<lparr>opts = extensionOptions s,
            serverMaxWindowBits = windowBits s, serverMaxWindowBitsNegotiated = named\<rparr>] \<and>
          (named \<or> windowBits s = 15) \<and> 9 \<le> windowBits s \<and> windowBits s \<le> 15 \<and> sharedCompressionContext s \<noteq> None"
    proof (cases "compressionStatus s = DISABLED")
      case True
      with none show ?thesis by (simp add: bytesOf_def)
    next
      case False
      have "serverMaxWindowBitsNegotiated neg \<or> windowBits s = 15" "9 \<le> windowBits s" "windowBits s \<le> 15"
        using ok f(2) by (auto simp: window_ok_def)
      with False some f(4) show ?thesis
        unfolding charsOf_bytesOf by (simp only: if_False) (intro exI [of _ "serverMaxWindowBitsNegotiated neg"], simp only: same, blast)
    qed
  qed
qed

text \<open>
  C25: a disposed handle stays closed: whatever happens afterwards, every function of the module that takes a session
  throws on it and changes nothing, except \<open>dispose\<close>, which does nothing more.
\<close>

theorem disposed_stays_closed:
  assumes "before = turns E depth ts (loadedAddon fresh sessions)" "rt_known (ad_runtime before)" "h < ad_handles before"
    and "w = turns E depth later (takeTurn E depth (Call ''dispose'' out [JsSession h]) before)"
    and "map_of properties name = Some f" "name \<notin> {''createCompressionContext'', ''createSession'', ''dispose''}"
  shows "refuses w (f E depth out' (JsSession h # rest) w) \<and> transportOf h w = None"
proof -
  have ok: "addon_ok before" unfolding assms(1) by (rule turns_ok [OF loadedAddon_ok])
  let ?d = "takeTurn E depth (Call ''dispose'' out [JsSession h]) before"
  have d: "?d = before\<lparr>ad_runtime := dispose E depth h (ad_runtime before)\<rparr>"
    using assms(2) by (simp add: properties_def proper_def writers_def disposeSession_def getArguments_def hasSessionTag_def)
  have u0: "unused (ad_runtime ?d) h" "h < ad_handles ?d" unfolding d using ok dispose_unused assms(3) by (auto simp: addon_ok_def)
  have u: "unused (ad_runtime w) h"
    unfolding assms(4) by (rule turns_unused [OF acts_ok [OF takeTurn_acts [OF ok] ok] u0])
  note all = session_functions_refuse [OF u]
  have "refuses w (f E depth out' (JsSession h # rest) w)"
    using properties_cases [OF assms(5)] assms(6) unfolding properties_def list.set insert_iff empty_iff prod.inject
    by (elim disjE conjE FalseE) (simp_all add: all)
  with u show ?thesis by (simp add: transportOf_def unused_def)
qed

section \<open>A concrete module\<close>

definition exampleOutside :: outside where
  "exampleOutside = \<lparr>os_granted = True, os_bio = [], os_io = [], os_reactions = [], os_mask = [0, 0, 0, 0], os_header = replicate 27 0\<rparr>"

definition exampleAddon :: "unit addon" where
  "exampleAddon = loadedAddon (\<lambda>_. exampleTransport [] []) (\<lambda>_. newSession copyingZlib 0 15 100 None [0, 0, 0, 0] (replicate 27 0))"

definition exampleOffer :: "napi_value list" where
  "exampleOffer = [JsNumber 0, JsNumber 100, JsInput (JsString [])]"

lemma results_typed_witness:
  "isBuffer 0 (ExternalBuffer [0x82, 2, 7, 8])"
proof -
  let ?w = "takeTurn exampleHost 1 (Call ''createSession'' exampleOutside exampleOffer) exampleAddon"
  let ?args = "[JsSession 0, JsInput (JsBuffer [7, 8] NoBacking), JsNumber 2, JsBoolean False]"
  let ?r = "frame exampleHost 1 exampleOutside ?args ?w"
  have f: "map_of properties ''frame'' = Some frame" by (simp add: properties_def)
  have "fst ?r = Inr (ExternalBuffer [0x82, 2, 7, 8])" by code_simp
  then have r: "?r = (Inr (ExternalBuffer [0x82, 2, 7, 8]), snd ?r)" by (metis prod.collapse)
  from results_typed [OF f r] show ?thesis by (simp add: hasType_def)
qed

lemma createSession_announces_witness:
  "\<exists>response. Array [SessionObject 0, Text []] = Array [SessionObject (ad_handles exampleAddon), Text response]"
proof -
  let ?r = "createSession exampleHost 1 exampleOutside exampleOffer exampleAddon"
  have "fst ?r = Inr (Array [SessionObject 0, Text []])" by code_simp
  then have r: "?r = (Inr (Array [SessionObject 0, Text []]), snd ?r)" by (metis prod.collapse)
  from createSession_announces [OF r] show ?thesis by blast
qed

lemma disposed_stays_closed_witness:
  "refuses (turns exampleHost 1 [] (takeTurn exampleHost 1 (Call ''dispose'' exampleOutside [JsSession 0])
       (turns exampleHost 1 [Call ''createSession'' exampleOutside exampleOffer] exampleAddon)))
     (consumeBuffer exampleHost 1 exampleOutside [JsSession 0, JsInput (JsString [])]
       (turns exampleHost 1 [] (takeTurn exampleHost 1 (Call ''dispose'' exampleOutside [JsSession 0])
         (turns exampleHost 1 [Call ''createSession'' exampleOutside exampleOffer] exampleAddon))))"
proof -
  let ?before = "turns exampleHost 1 [Call ''createSession'' exampleOutside exampleOffer] exampleAddon"
  have k: "rt_known (ad_runtime ?before) \<and> 0 < ad_handles ?before" by code_simp
  have f: "map_of properties ''consume'' = Some consumeBuffer" by (simp add: properties_def)
  from disposed_stays_closed [OF _ conjunct1 [OF k] conjunct2 [OF k] refl f, unfolded exampleAddon_def, OF refl] show ?thesis
    unfolding exampleAddon_def by simp
qed

end
